(* ===== verification/Warpcoil_Prelude.thy ===== *)
theory Warpcoil_Prelude
  imports Main "HOL-Library.Word" "HOL-Library.Char_ord"
begin

text \<open>
  Shared vocabulary of the development: the machine integers of the C++ code as words,
  byte strings, error codes as values, and the generic lemmas the components use.
  \<^item> \<open>u8\<close>, \<open>u16\<close>, \<open>u32\<close>, \<open>u64\<close> are \<open>std::uint8_t\<close> to \<open>std::uint64_t\<close>;
    a \<open>std::size_t\<close> that only counts or indexes is a \<open>nat\<close>.
  \<^item> \<open>bytes\<close> is a sequence of octets (a buffer, a \<open>std::string\<close>, a vector of bytes).
  \<^item> \<open>Si::error_or<T>\<close> is the sum \<open>error_code + 'a\<close>, \<open>Inl\<close> for the error; the
    \<open>boost::system::error_code\<close> of a completion handler is an \<open>error_code option\<close>, \<open>None\<close>
    for success.
\<close>

unbundle bit_operations_syntax

type_synonym u8 = "8 word"
type_synonym u16 = "16 word"
type_synonym u32 = "32 word"
type_synonym u64 = "64 word"
type_synonym bytes = "u8 list"

text \<open>
  Facts that move between a component's operations and its invariant; each component adds
  its own, and the proofs use them as \<open>simp add: component_simps\<close>.
\<close>

named_theorems component_simps \<open>unfolding rules of the operations of a component\<close>
named_theorems invariant_intros \<open>preservation of a component's invariant\<close>

text \<open>
  The two kinds of error the library itself produces or forwards:
  \<open>make_invalid_input_error()\<close> (category \<open>invalid_input\<close>, value 1), and any other
  \<open>boost::system::error_code\<close>, which comes from the transport below.
\<close>

datatype error_code = Invalid_input_error | Transport_error nat

subsection \<open>Lists\<close>

lemma list_update_at_length [simp]: "(xs @ y # ys)[length xs := z] = xs @ z # ys"
  by (simp add: list_update_append)

lemma length_one_conv: "length xs = Suc 0 \<longleftrightarrow> (\<exists>x. xs = [x])"
  by (cases xs) auto

lemma take_Suc_update:
  "i < length xs \<Longrightarrow> take (Suc i) (xs[i := x]) = take i xs @ [x]"
  by (simp add: take_Suc_conv_app_nth)

lemma ex_u8_unat_iff: "(\<exists>index :: u8. P index \<and> n = unat index) \<longleftrightarrow> n < 256 \<and> P (of_nat n)"
proof
  assume "\<exists>index :: u8. P index \<and> n = unat index"
  then obtain index :: u8 where "P index" "n = unat index" by blast
  then show "n < 256 \<and> P (of_nat n)"
    using unsigned_less [of index] by simp
next
  assume "n < 256 \<and> P (of_nat n)"
  then show "\<exists>index :: u8. P index \<and> n = unat index"
    by (intro exI [of _ "of_nat n"]) (simp add: unsigned_of_nat take_bit_nat_eq_self)
qed

lemma drop_eq_ConsD: "drop i xs = y # ys \<Longrightarrow> i < length xs \<and> xs ! i = y \<and> drop (Suc i) xs = ys"
  by (metis drop_Suc drop_all drop_tl hd_drop_conv_nth linorder_not_le list.distinct(1) list.sel)

end
