(* ===== verification/Std_Map.thy ===== *)
theory Std_Map
  imports Warpcoil_Prelude "HOL-Library.Multiset"
begin

text \<open>
  The C++ standard library's ordered associative containers as the repository uses them:
  \<open>std::map\<close> with \<open>insert\<close> (which keeps an entry that is already there), \<open>find\<close>,
  \<open>erase\<close> and iteration in ascending key order, and \<open>std::lexicographical_compare\<close>.
  A map is the list of its entries in iteration order. The locale \<open>ordered_map\<close> is the
  interface its clients rely on (\<open>types::interface_definition::methods\<close>,
  \<open>expected_response_registry::expected_responses\<close>); the interpretation \<open>std_map\<close>
  shows that the model provides it.
\<close>

subsection \<open>Strict total orders and std::lexicographical_compare\<close>

text \<open>What a comparison predicate passed to an ordered container has to satisfy.\<close>

locale strict_total_order =
  fixes lt :: "'a \<Rightarrow> 'a \<Rightarrow> bool"
  assumes lt_asym: "lt a b \<Longrightarrow> \<not> lt b a"
    and lt_trans: "lt a b \<Longrightarrow> lt b c \<Longrightarrow> lt a c"
    and lt_linear: "lt a b \<or> a = b \<or> lt b a"
begin

lemma lt_irrefl: "\<not> lt a a"
  using lt_asym by blast

lemma equivalent_iff_eq: "\<not> lt a b \<and> \<not> lt b a \<longleftrightarrow> a = b"
  using lt_linear lt_irrefl by blast

lemma lt_iff: "lt a b \<longleftrightarrow> (lt a b \<or> a = b) \<and> \<not> (lt b a \<or> b = a)"
  using lt_asym lt_irrefl by blast

lemma le_trans: "lt a b \<or> a = b \<Longrightarrow> lt b c \<or> b = c \<Longrightarrow> lt a c \<or> a = c"
  using lt_trans by blast

lemma le_antisym: "lt a b \<or> a = b \<Longrightarrow> lt b a \<or> b = a \<Longrightarrow> a = b"
  using lt_asym by blast

end

fun lexicographical_compare :: "('a \<Rightarrow> 'a \<Rightarrow> bool) \<Rightarrow> 'a list \<Rightarrow> 'a list \<Rightarrow> bool" where
  "lexicographical_compare lt [] [] = False"
| "lexicographical_compare lt [] (y # ys) = True"
| "lexicographical_compare lt (x # xs) [] = False"
| "lexicographical_compare lt (x # xs) (y # ys) =
     (if lt x y then True
      else if lt y x then False
      else lexicographical_compare lt xs ys)"

lemma lexicographical_compare_cong [fundef_cong]:
  assumes "xs = xs'" and "ys = ys'"
    and "\<And>x y. x \<in> set xs' \<Longrightarrow> y \<in> set ys' \<Longrightarrow> lt x y = lt' x y"
    and "\<And>x y. x \<in> set xs' \<Longrightarrow> y \<in> set ys' \<Longrightarrow> lt y x = lt' y x"
  shows "lexicographical_compare lt xs ys = lexicographical_compare lt' xs' ys'"
proof -
  have "lexicographical_compare lt xs' ys' = lexicographical_compare lt' xs' ys'"
    using assms(3,4)
    by (induction lt xs' ys' rule: lexicographical_compare.induct) auto
  then show ?thesis by (simp add: assms(1,2))
qed

text \<open>
  The three order laws lift from the elements that occur in the first sequence to the
  sequences themselves; the laws are stated for those elements only, so that they can
  be used inside an induction over a recursive datatype.
\<close>

lemma lexicographical_compare_asym:
  assumes "\<And>x y. x \<in> set xs \<Longrightarrow> lt x y \<Longrightarrow> \<not> lt y x"
    and "lexicographical_compare lt xs ys"
  shows "\<not> lexicographical_compare lt ys xs"
  using assms by (induction lt xs ys rule: lexicographical_compare.induct) (auto split: if_splits)

lemma lexicographical_compare_linear:
  assumes "\<And>x y. x \<in> set xs \<Longrightarrow> lt x y \<or> x = y \<or> lt y x"
  shows "lexicographical_compare lt xs ys \<or> xs = ys \<or> lexicographical_compare lt ys xs"
  using assms by (induction lt xs ys rule: lexicographical_compare.induct) auto

lemma lexicographical_compare_trans:
  assumes trans: "\<And>x y z. x \<in> set xs \<Longrightarrow> lt x y \<Longrightarrow> lt y z \<Longrightarrow> lt x z"
    and asym: "\<And>x y. lt x y \<Longrightarrow> \<not> lt y x"
    and linear: "\<And>x y. lt x y \<or> x = y \<or> lt y x"
    and "lexicographical_compare lt xs ys" and "lexicographical_compare lt ys zs"
  shows "lexicographical_compare lt xs zs"
  using trans assms(4,5)
proof (induction xs arbitrary: ys zs)
  case Nil
  then show ?case by (cases ys; cases zs) auto
next
  case (Cons x xs)
  from Cons.prems(2) obtain y ys' where ys: "ys = y # ys'" by (cases ys) auto
  from Cons.prems(3) ys obtain z zs' where zs: "zs = z # zs'" by (cases zs) auto
  have IH: "lexicographical_compare lt xs ys' \<Longrightarrow> lexicographical_compare lt ys' zs' \<Longrightarrow>
      lexicographical_compare lt xs zs'"
    using Cons.IH Cons.prems(1) by (meson list.set_intros(2))
  have xz: "lt x y \<Longrightarrow> lt y z \<Longrightarrow> lt x z" using Cons.prems(1) by simp
  from Cons.prems(2,3) IH xz asym linear [of x y] linear [of y z] show ?case
    unfolding ys zs by (auto split: if_splits)
qed

subsection \<open>std::map\<close>

type_synonym ('k, 'v) std_map = "('k \<times> 'v) list"

fun std_map_insert :: "'k::linorder \<Rightarrow> 'v \<Rightarrow> ('k, 'v) std_map \<Rightarrow> ('k, 'v) std_map" where
  "std_map_insert k v [] = [(k, v)]"
| "std_map_insert k v ((k', v') # m) =
     (if k < k' then (k, v) # (k', v') # m
      else if k' < k then (k', v') # std_map_insert k v m
      else (k', v') # m)"

definition std_map_find :: "'k \<Rightarrow> ('k, 'v) std_map \<Rightarrow> 'v option" where
  "std_map_find k m = map_of m k"

fun std_map_erase :: "'k \<Rightarrow> ('k, 'v) std_map \<Rightarrow> ('k, 'v) std_map" where
  "std_map_erase k [] = []"
| "std_map_erase k ((k', v') # m) = (if k' = k then m else (k', v') # std_map_erase k m)"

text \<open>An assignment through the reference that \<open>insert\<close> or \<open>find\<close> returned.\<close>

fun std_map_modify :: "'k \<Rightarrow> ('v \<Rightarrow> 'v) \<Rightarrow> ('k, 'v) std_map \<Rightarrow> ('k, 'v) std_map" where
  "std_map_modify k f [] = []"
| "std_map_modify k f ((k', v') # m) =
     (if k' = k then (k', f v') # m else (k', v') # std_map_modify k f m)"

definition std_map_keys :: "('k, 'v) std_map \<Rightarrow> 'k list" where
  "std_map_keys m = map fst m"

definition std_map_ok :: "('k::linorder, 'v) std_map \<Rightarrow> bool" where
  "std_map_ok m \<longleftrightarrow> sorted_wrt (<) (std_map_keys m)"

locale ordered_map =
  fixes empty :: "'m"
    and insert :: "'k::linorder \<Rightarrow> 'v \<Rightarrow> 'm \<Rightarrow> 'm"
    and find :: "'k \<Rightarrow> 'm \<Rightarrow> 'v option"
    and erase :: "'k \<Rightarrow> 'm \<Rightarrow> 'm"
    and keys :: "'m \<Rightarrow> 'k list"
    and ok :: "'m \<Rightarrow> bool"
  assumes ok_empty: "ok empty"
    and ok_insert: "ok m \<Longrightarrow> ok (insert k v m)"
    and ok_erase: "ok m \<Longrightarrow> ok (erase k m)"
    and find_empty: "find k empty = None"
    and find_insert: "ok m \<Longrightarrow> find k' (insert k v m) =
          (if k' = k \<and> find k m = None then Some v else find k' m)"
    and find_erase: "ok m \<Longrightarrow> find k' (erase k m) = (if k' = k then None else find k' m)"
    and keys_sorted: "ok m \<Longrightarrow> sorted_wrt (<) (keys m)"
    and keys_find: "ok m \<Longrightarrow> k \<in> set (keys m) \<longleftrightarrow> find k m \<noteq> None"
begin

lemma insert_new: "ok m \<Longrightarrow> find k m = None \<Longrightarrow> find k (insert k v m) = Some v"
  by (simp add: find_insert)

lemma insert_keeps: "ok m \<Longrightarrow> find k m = Some v' \<Longrightarrow> find k (insert k v m) = Some v'"
  by (simp add: find_insert)

lemma distinct_keys: "ok m \<Longrightarrow> distinct (keys m)"
  using keys_sorted strict_sorted_iff by blast

lemma keys_insert: "ok m \<Longrightarrow> set (keys (insert k v m)) = Set.insert k (set (keys m))"
  by (auto simp: keys_find ok_insert find_insert split: if_splits)

lemma keys_erase: "ok m \<Longrightarrow> set (keys (erase k m)) = set (keys m) - {k}"
  by (auto simp: keys_find ok_erase find_erase split: if_splits)

lemma length_keys_erase:
  "ok m \<Longrightarrow> find k m \<noteq> None \<Longrightarrow> length (keys m) = Suc (length (keys (erase k m)))"
  by (metis List.finite_set card_Suc_Diff1 distinct_card distinct_keys keys_erase keys_find
      ok_erase)

end

lemma std_map_find_insert:
  "std_map_ok m \<Longrightarrow> std_map_find k' (std_map_insert k v m) =
     (if k' = k \<and> std_map_find k m = None then Some v else std_map_find k' m)"
proof (induction k v m rule: std_map_insert.induct)
  case (2 k v k'' v'' m)
  have "k < k'' \<Longrightarrow> map_of m k = None"
    using "2.prems" by (force simp: std_map_ok_def std_map_keys_def map_of_eq_None_iff)
  with 2 show ?case
    by (auto simp: std_map_ok_def std_map_keys_def std_map_find_def)
qed (simp add: std_map_find_def)

lemma std_map_keys_insert:
  "set (std_map_keys (std_map_insert k v m)) = insert k (set (std_map_keys m))"
  by (induction k v m rule: std_map_insert.induct) (auto simp: std_map_keys_def)

lemma std_map_keys_erase: "set (std_map_keys (std_map_erase k m)) \<subseteq> set (std_map_keys m)"
  by (induction k m rule: std_map_erase.induct) (auto simp: std_map_keys_def)

lemma std_map_ok_insert: "std_map_ok m \<Longrightarrow> std_map_ok (std_map_insert k v m)"
proof (induction k v m rule: std_map_insert.induct)
  case (2 k v k' v' m)
  have "set (map fst (std_map_insert k v m)) = insert k (set (map fst m))"
    using std_map_keys_insert [of k v m] by (simp add: std_map_keys_def)
  with 2 show ?case
    by (auto simp: std_map_ok_def std_map_keys_def)
qed (simp add: std_map_ok_def std_map_keys_def)

lemma std_map_ok_erase: "std_map_ok m \<Longrightarrow> std_map_ok (std_map_erase k m)"
proof (induction k m rule: std_map_erase.induct)
  case (2 k k' v' m)
  have "set (map fst (std_map_erase k m)) \<subseteq> set (map fst m)"
    using std_map_keys_erase [of k m] by (simp add: std_map_keys_def)
  with 2 show ?case
    by (force simp: std_map_ok_def std_map_keys_def)
qed (simp add: std_map_ok_def std_map_keys_def)

lemma std_map_find_erase:
  "std_map_ok m \<Longrightarrow> std_map_find k' (std_map_erase k m) =
     (if k' = k then None else std_map_find k' m)"
proof (induction k m rule: std_map_erase.induct)
  case (2 k k'' v'' m)
  have "map_of m k'' = None"
    using "2.prems" by (force simp: std_map_ok_def std_map_keys_def map_of_eq_None_iff)
  with 2 show ?case
    by (auto simp: std_map_ok_def std_map_keys_def std_map_find_def)
qed (simp add: std_map_find_def)

interpretation std_map: ordered_map "[]" std_map_insert std_map_find std_map_erase std_map_keys
  std_map_ok
proof unfold_locales
  fix m :: "('k::linorder, 'v) std_map" and k :: 'k
  assume "std_map_ok m"
  then show "k \<in> set (std_map_keys m) \<longleftrightarrow> std_map_find k m \<noteq> None"
    by (auto simp: std_map_keys_def std_map_find_def map_of_eq_None_iff)
next
  fix m :: "('k::linorder, 'v) std_map"
  assume "std_map_ok m"
  then show "sorted_wrt (<) (std_map_keys m)"
    by (simp add: std_map_ok_def)
qed (simp_all add: std_map_ok_insert std_map_ok_erase std_map_find_insert std_map_find_erase
    std_map_ok_def [of "[]"] std_map_keys_def [of "[]"] std_map_find_def [of _ "[]"])

lemma std_map_keys_modify [simp]: "std_map_keys (std_map_modify k f m) = std_map_keys m"
  by (induction k f m rule: std_map_modify.induct) (auto simp: std_map_keys_def)

lemma std_map_ok_modify: "std_map_ok m \<Longrightarrow> std_map_ok (std_map_modify k f m)"
  by (simp add: std_map_ok_def)

lemma std_map_find_modify:
  "std_map_find k' (std_map_modify k f m) =
     (if k' = k then map_option f (std_map_find k m) else std_map_find k' m)"
  by (induction k f m rule: std_map_modify.induct) (auto simp: std_map_find_def)

text \<open>The entries as a multiset: an insertion adds one or changes nothing, an erasure removes one.\<close>

lemma std_map_insert_mset:
  "std_map_ok m \<Longrightarrow> mset (std_map_insert k v m) =
     (if std_map_find k m = None then add_mset (k, v) (mset m) else mset m)"
proof (induction k v m rule: std_map_insert.induct)
  case (2 k v k' v' m)
  have "k < k' \<Longrightarrow> map_of m k = None"
    using "2.prems" by (force simp: std_map_ok_def std_map_keys_def map_of_eq_None_iff)
  with 2 show ?case
    by (auto simp: std_map_find_def std_map_ok_def std_map_keys_def)
qed (simp add: std_map_find_def)

lemma std_map_erase_mset:
  "std_map_find k m = Some v \<Longrightarrow> mset m = add_mset (k, v) (mset (std_map_erase k m))"
  by (induction k m rule: std_map_erase.induct) (auto simp: std_map_find_def split: if_splits)

end
