(* ===== verification/Wire_Types.thy ===== *)
theory Wire_Types
  imports Std_Map "HOL-Library.List_Lexorder"
begin

text \<open>
  \<open>warpcoil/types.hpp\<close>, \<open>warpcoil/identifier.hpp\<close>: the types of the interface
  description language, their order \<open>less\<close> (the key order of the generator's set of
  structures), deep copies, and interface definitions with \<open>add_method\<close>.
  \<open>Si::variant<integer, unique_ptr<variant>, ...>\<close> is the datatype \<open>wire_type\<close>, its
  constructors in the order of the variant's alternatives; \<open>std::unique_ptr\<close> is the
  value it owns.
\<close>

type_synonym ident = string

datatype type_emptiness = Empty | Non_empty

datatype integer_range = Integer_range (minimum: u64) (maximum: u64)

definition integer_default :: integer_range where
  "integer_default = Integer_range 0 (- 1)"

datatype 't structure_element = Element (what: 't) (element_name: ident)

datatype wire_type =
    Integer integer_range
  | Variant "wire_type list"
  | Tuple "wire_type list"
  | Vector integer_range wire_type
  | Utf8 integer_range
  | Structure "wire_type structure_element list"

definition type_index :: "wire_type \<Rightarrow> nat" where
  "type_index t = (case t of Integer _ \<Rightarrow> 0 | Variant _ \<Rightarrow> 1 | Tuple _ \<Rightarrow> 2
     | Vector _ _ \<Rightarrow> 3 | Utf8 _ \<Rightarrow> 4 | Structure _ \<Rightarrow> 5)"

subsection \<open>The order of types\<close>

text \<open>\<open>std::tie(minimum, maximum)\<close> compared lexicographically.\<close>

definition less_integer :: "integer_range \<Rightarrow> integer_range \<Rightarrow> bool" where
  "less_integer left right \<longleftrightarrow>
     minimum left < minimum right \<or>
     minimum left = minimum right \<and> maximum left < maximum right"

lemma structure_element_size:
  "e \<in> set es \<Longrightarrow> size (what e) < Suc (size_list (size_structure_element size) es)"
proof (induction es)
  case (Cons e' es)
  then show ?case by (cases e'; cases e) auto
qed simp

lemma list_element_size: "t \<in> set ts \<Longrightarrow> size t < Suc (size_list size ts)"
  by (induction ts) auto

function less_type :: "wire_type \<Rightarrow> wire_type \<Rightarrow> bool" where
  "less_type left right =
     (if type_index left < type_index right then True
      else if type_index right < type_index left then False
      else case (left, right) of
        (Integer l, Integer r) \<Rightarrow> less_integer l r
      | (Variant ls, Variant rs) \<Rightarrow> lexicographical_compare less_type ls rs
      | (Tuple ls, Tuple rs) \<Rightarrow> lexicographical_compare less_type ls rs
      | (Vector ll le, Vector rl re) \<Rightarrow>
          if less_integer ll rl then True
          else if less_integer rl ll then False
          else less_type le re
      | (Utf8 l, Utf8 r) \<Rightarrow> less_integer l r
      | (Structure ls, Structure rs) \<Rightarrow>
          lexicographical_compare
            (\<lambda>l r. if less_type (what l) (what r) then True
                   else if less_type (what r) (what l) then False
                   else element_name l < element_name r) ls rs
      | _ \<Rightarrow> False)"
  by pat_completeness auto
termination
  by (relation "measure (\<lambda>(l, r). size l + size r)")
    (auto dest!: list_element_size structure_element_size)

declare less_type.simps [simp del]

lemma less_type_index:
  "type_index s < type_index t \<Longrightarrow> less_type s t"
  "type_index t < type_index s \<Longrightarrow> \<not> less_type s t"
  by (simp_all add: less_type.simps)

definition less_element :: "wire_type structure_element \<Rightarrow> wire_type structure_element \<Rightarrow> bool"
  where
  "less_element l r =
     (if less_type (what l) (what r) then True
      else if less_type (what r) (what l) then False
      else element_name l < element_name r)"

lemma less_type_simps [simp]:
  "less_type (Integer l) (Integer r) = less_integer l r"
  "less_type (Variant ls) (Variant rs) = lexicographical_compare less_type ls rs"
  "less_type (Tuple ls) (Tuple rs) = lexicographical_compare less_type ls rs"
  "less_type (Vector ll le) (Vector rl re) =
     (if less_integer ll rl then True
      else if less_integer rl ll then False else less_type le re)"
  "less_type (Utf8 l) (Utf8 r) = less_integer l r"
  "less_type (Structure les) (Structure res) = lexicographical_compare less_element les res"
  by (subst less_type.simps, simp add: type_index_def less_element_def [abs_def])+

text \<open>Two types with different alternatives are ordered by the index alone.\<close>

lemma less_type_cases:
  assumes "less_type s t"
  shows "type_index s < type_index t \<or> type_index s = type_index t"
  using assms by (metis less_type_index(2) linorder_neqE_nat)

interpretation integer_order: strict_total_order less_integer
proof unfold_locales
  fix a b
  show "less_integer a b \<or> a = b \<or> less_integer b a"
    by (cases a; cases b) (auto simp: less_integer_def)
qed (auto simp: less_integer_def)

lemma less_type_asym: "less_type s t \<Longrightarrow> \<not> less_type t s"
proof (induction s arbitrary: t)
  case (Integer x)
  then show ?case
    by (cases t) (auto simp: less_type_index type_index_def integer_order.lt_asym)
next
  case (Variant x)
  then show ?case
    by (cases t) (auto simp: less_type_index type_index_def
        dest: lexicographical_compare_asym [rotated])
next
  case (Tuple x)
  then show ?case
    by (cases t) (auto simp: less_type_index type_index_def
        dest: lexicographical_compare_asym [rotated])
next
  case (Vector r s)
  then show ?case
    by (cases t) (auto simp: less_type_index type_index_def integer_order.lt_asym
        split: if_splits)
next
  case (Utf8 x)
  then show ?case
    by (cases t) (auto simp: less_type_index type_index_def integer_order.lt_asym)
next
  case (Structure es)
  show ?case
  proof (cases t)
    case (Structure fs)
    have "less_element e f \<Longrightarrow> \<not> less_element f e" if "e \<in> set es" for e f
      using Structure.IH [OF that, of "what e"]
      by (cases e) (auto simp: less_element_def split: if_splits)
    with Structure.prems Structure show ?thesis
      by (auto dest: lexicographical_compare_asym [rotated])
  qed (use Structure.prems in \<open>auto simp: less_type_index type_index_def\<close>)
qed

text \<open>
  The other two laws follow the same pattern: types with different alternatives are
  decided by the index, types with the same alternative by the induction hypothesis.
\<close>

lemma less_type_linear: "less_type s t \<or> s = t \<or> less_type t s"
proof (induction s arbitrary: t)
  case (Integer x)
  then show ?case
    using integer_order.lt_linear [of x]
    by (cases t) (auto simp: less_type_index type_index_def)
next
  case (Variant x)
  then show ?case
    using lexicographical_compare_linear [of x less_type]
    by (cases t) (auto simp: less_type_index type_index_def)
next
  case (Tuple x)
  then show ?case
    using lexicographical_compare_linear [of x less_type]
    by (cases t) (auto simp: less_type_index type_index_def)
next
  case (Vector r s)
  then show ?case
    using integer_order.lt_linear [of r]
    by (cases t) (auto simp: less_type_index type_index_def)
next
  case (Utf8 x)
  then show ?case
    using integer_order.lt_linear [of x]
    by (cases t) (auto simp: less_type_index type_index_def)
next
  case (Structure es)
  show ?case
  proof (cases t)
    case (Structure fs)
    have "less_element e f \<or> e = f \<or> less_element f e" if "e \<in> set es" for e f
      using Structure.IH [OF that, of "what e" "what f"]
      by (cases e; cases f) (auto simp: less_element_def dest: less_type_asym)
    with Structure show ?thesis
      using lexicographical_compare_linear [of es less_element fs] by auto
  qed (auto simp: less_type_index type_index_def)
qed

lemma less_element_asym: "less_element e f \<Longrightarrow> \<not> less_element f e"
  by (auto simp: less_element_def split: if_splits dest: less_type_asym)

lemma less_element_linear: "less_element e f \<or> e = f \<or> less_element f e"
  using less_type_linear [of "what e" "what f"]
  by (cases e; cases f) (auto simp: less_element_def dest: less_type_asym)

lemma less_type_trans_index:
  assumes "less_type s t" and "less_type t u" and "type_index s \<noteq> type_index u"
  shows "less_type s u"
proof -
  have "type_index s \<le> type_index t" and "type_index t \<le> type_index u"
    using assms(1,2) by (auto dest!: less_type_cases)
  with assms(3) show ?thesis by (simp add: less_type_index)
qed

lemma less_type_same_index:
  assumes "less_type s t" and "less_type t u" and "type_index s = type_index u"
  shows "type_index t = type_index s"
  using assms by (auto dest!: less_type_cases)

lemmas lexicographical_less_type_trans =
  lexicographical_compare_trans [OF _ less_type_asym less_type_linear]

lemma less_type_trans: "less_type s t \<Longrightarrow> less_type t u \<Longrightarrow> less_type s u"
proof (induction s arbitrary: t u)
  case (Integer x)
  then show ?case
    by (cases "type_index u = 0"; cases t; cases u)
      (auto simp: less_type_index type_index_def dest: integer_order.lt_trans)
next
  case (Variant x)
  show ?case
  proof (cases "type_index u = 1")
    case True
    with Variant.prems obtain y z where "t = Variant y" "u = Variant z"
      by (cases t; cases u) (auto simp: less_type_index type_index_def)
    with Variant.prems show ?thesis
      using lexicographical_less_type_trans [of x y z] Variant.IH by simp
  qed (use Variant.prems less_type_trans_index in \<open>auto simp: type_index_def\<close>)
next
  case (Tuple x)
  show ?case
  proof (cases "type_index u = 2")
    case True
    with Tuple.prems obtain y z where "t = Tuple y" "u = Tuple z"
      by (cases t; cases u) (auto simp: less_type_index type_index_def)
    with Tuple.prems show ?thesis
      using lexicographical_less_type_trans [of x y z] Tuple.IH by simp
  qed (use Tuple.prems less_type_trans_index in \<open>auto simp: type_index_def\<close>)
next
  case (Vector r s)
  show ?case
  proof (cases "type_index u = 3")
    case True
    with Vector.prems obtain r1 s1 r2 s2 where tu: "t = Vector r1 s1" "u = Vector r2 s2"
      by (cases t; cases u) (auto simp: less_type_index type_index_def)
    have IH: "less_type s s1 \<Longrightarrow> less_type s1 s2 \<Longrightarrow> less_type s s2"
      by (rule Vector.IH)
    show ?thesis
      using Vector.prems IH integer_order.lt_linear [of r r1] integer_order.lt_linear [of r1 r2]
      unfolding tu
      by (auto split: if_splits dest: integer_order.lt_asym integer_order.lt_trans)
  qed (use Vector.prems less_type_trans_index in \<open>auto simp: type_index_def\<close>)
next
  case (Utf8 x)
  then show ?case
    by (cases "type_index u = 4"; cases t; cases u)
      (auto simp: less_type_index type_index_def dest: integer_order.lt_trans)
next
  case (Structure es)
  show ?case
  proof (cases "type_index u = 5")
    case True
    with Structure.prems obtain fs gs where tu: "t = Structure fs" "u = Structure gs"
      by (cases t; cases u) (auto simp: less_type_index type_index_def)
    have "less_element e g" if "e \<in> set es" "less_element e f" "less_element f g" for e f g
    proof -
      have IH: "less_type (what e) (what f) \<Longrightarrow> less_type (what f) (what g) \<Longrightarrow>
          less_type (what e) (what g)"
        using Structure.IH [OF that(1), of "what e"] by (cases e) auto
      show ?thesis
        using IH that(2,3) less_type_linear [of "what e" "what f"]
          less_type_linear [of "what f" "what g"]
        by (auto simp: less_element_def split: if_splits dest: less_type_asym)
    qed
    then have "lexicographical_compare less_element es fs \<Longrightarrow>
        lexicographical_compare less_element fs gs \<Longrightarrow>
        lexicographical_compare less_element es gs"
      by (rule lexicographical_compare_trans [OF _ less_element_asym less_element_linear])
    with Structure.prems tu show ?thesis by simp
  qed (use Structure.prems less_type_trans_index in \<open>auto simp: type_index_def\<close>)
qed

interpretation type_order: strict_total_order less_type
  by unfold_locales (auto dest: less_type_asym less_type_trans simp: less_type_linear)

interpretation element_order: strict_total_order less_element
proof unfold_locales
  fix e f g
  show "less_element e f \<Longrightarrow> less_element f g \<Longrightarrow> less_element e g"
    using type_order.lt_linear [of "what e" "what f"] type_order.lt_linear [of "what f" "what g"]
    by (auto simp: less_element_def split: if_splits
        dest: type_order.lt_trans type_order.lt_asym)
qed (auto dest: less_element_asym simp: less_element_linear)

text \<open>
  \<open>less\<close> is a strict total order, so types are a linear order of the library, and the
  containers keyed by them (\<open>structure_less\<close>) identify exactly the equal types.
\<close>

instantiation wire_type :: linorder
begin

definition less_wire_type :: "wire_type \<Rightarrow> wire_type \<Rightarrow> bool" where
  "less_wire_type = less_type"

definition less_eq_wire_type :: "wire_type \<Rightarrow> wire_type \<Rightarrow> bool" where
  "less_eq_wire_type s t \<longleftrightarrow> less_type s t \<or> s = t"

instance
proof
  fix s t u :: wire_type
  show "(s < t) = (s \<le> t \<and> \<not> t \<le> s)"
    unfolding less_wire_type_def less_eq_wire_type_def by (rule type_order.lt_iff)
  show "s \<le> s" by (simp add: less_eq_wire_type_def)
  show "s \<le> t \<Longrightarrow> t \<le> u \<Longrightarrow> s \<le> u"
    unfolding less_eq_wire_type_def by (rule type_order.le_trans)
  show "s \<le> t \<Longrightarrow> t \<le> s \<Longrightarrow> s = t"
    unfolding less_eq_wire_type_def by (rule type_order.le_antisym)
  show "s \<le> t \<or> t \<le> s"
    using type_order.lt_linear by (auto simp: less_eq_wire_type_def)
qed

end

subsection \<open>Deep copies\<close>

primrec clone :: "wire_type \<Rightarrow> wire_type" where
  "clone (Integer value) = Integer value"
| "clone (Variant elements) = Variant (map clone elements)"
| "clone (Tuple elements) = Tuple (map clone elements)"
| "clone (Vector len element) = Vector len (clone element)"
| "clone (Utf8 value) = Utf8 value"
| "clone (Structure elements) = Structure (map (map_structure_element clone) elements)"

lemma clone_id: "clone t = t"
proof (induction t)
  case (Structure es)
  then have "map (map_structure_element clone) es = map (map_structure_element id) es"
    by (intro list.map_cong refl structure_element.map_cong) auto
  then show ?case by (simp add: structure_element.map_id0)
qed (simp_all cong: list.map_cong)

subsection \<open>Interface definitions\<close>

record parameter =
  parameter_name :: ident
  parameter_type :: wire_type

record method_definition =
  method_result :: wire_type
  parameters :: "parameter list"

record interface_definition =
  methods :: "(ident, method_definition) std_map"

definition get_parameter_type :: "parameter list \<Rightarrow> wire_type" where
  "get_parameter_type ps = Tuple (map (\<lambda>p. clone (parameter_type p)) ps)"

text \<open>
  \<open>add_method\<close> returns a \<open>parameter_maker\<close> holding a reference to the method's entry in the
  map; the model returns the key of that entry. Calling the maker appends a parameter to
  the entry and returns the same maker, so calls can be chained.
\<close>

definition add_method ::
  "ident \<Rightarrow> wire_type \<Rightarrow> interface_definition \<Rightarrow> interface_definition \<times> ident" where
  "add_method name result d =
     (d\<lparr>methods := std_map_insert name \<lparr>method_result = result, parameters = []\<rparr> (methods d)\<rparr>,
      name)"

definition parameter_maker ::
  "ident \<Rightarrow> ident \<Rightarrow> wire_type \<Rightarrow> interface_definition \<Rightarrow> interface_definition \<times> ident" where
  "parameter_maker target name t d =
     (d\<lparr>methods := std_map_modify target
        (\<lambda>m. m\<lparr>parameters := parameters m @ [\<lparr>parameter_name = name, parameter_type = t\<rparr>]\<rparr>)
        (methods d)\<rparr>,
      target)"

text \<open>A chain \<open>definition.add_method(name, result)(p1, t1)(p2, t2)...\<close>.\<close>

fun make_parameters ::
  "ident \<Rightarrow> (ident \<times> wire_type) list \<Rightarrow> interface_definition \<Rightarrow> interface_definition" where
  "make_parameters target [] d = d"
| "make_parameters target ((name, t) # ps) d =
     (case parameter_maker target name t d of (d', target') \<Rightarrow> make_parameters target' ps d')"

definition declare_method ::
  "ident \<Rightarrow> wire_type \<Rightarrow> (ident \<times> wire_type) list \<Rightarrow> interface_definition \<Rightarrow> interface_definition"
  where
  "declare_method name result ps d =
     (case add_method name result d of (d', target) \<Rightarrow> make_parameters target ps d')"

definition interface_ok :: "interface_definition \<Rightarrow> bool" where
  "interface_ok d \<longleftrightarrow> std_map_ok (methods d)"

lemma make_parameters_find:
  "std_map_find k (methods (make_parameters target ps d)) =
     (if k = target
      then map_option (\<lambda>m. m\<lparr>parameters := parameters m @
             map (\<lambda>(n, t). \<lparr>parameter_name = n, parameter_type = t\<rparr>) ps\<rparr>)
             (std_map_find k (methods d))
      else std_map_find k (methods d))"
  by (induction target ps d rule: make_parameters.induct)
    (auto simp: parameter_maker_def std_map_find_modify option.map_comp comp_def option.map_ident
      intro!: option.map_cong)

lemma interface_ok_make_parameters [invariant_intros]:
  "interface_ok d \<Longrightarrow> interface_ok (make_parameters target ps d)"
  by (induction target ps d rule: make_parameters.induct)
    (auto simp: parameter_maker_def interface_ok_def std_map_ok_modify)

lemma interface_ok_declare_method [invariant_intros]:
  "interface_ok d \<Longrightarrow> interface_ok (declare_method name result ps d)"
  unfolding declare_method_def add_method_def prod.case
  by (rule interface_ok_make_parameters) (simp add: interface_ok_def std_map.ok_insert)

lemma declare_method_find:
  assumes "interface_ok d"
  shows "std_map_find k (methods (declare_method name result ps d)) =
    (if k = name
     then (case std_map_find name (methods d) of
         None \<Rightarrow> Some \<lparr>method_result = result,
             parameters = map (\<lambda>(n, t). \<lparr>parameter_name = n, parameter_type = t\<rparr>) ps\<rparr>
       | Some m \<Rightarrow> Some (m\<lparr>parameters := parameters m @
             map (\<lambda>(n, t). \<lparr>parameter_name = n, parameter_type = t\<rparr>) ps\<rparr>))
     else std_map_find k (methods d))"
  using assms
  by (auto simp: declare_method_def add_method_def make_parameters_find interface_ok_def
      std_map.find_insert split: option.splits)

text \<open>An interface built by a sequence of declarations.\<close>

definition declare_all ::
  "(ident \<times> wire_type \<times> (ident \<times> wire_type) list) list \<Rightarrow> interface_definition" where
  "declare_all declarations =
     foldl (\<lambda>d (name, result, ps). declare_method name result ps d) \<lparr>methods = []\<rparr> declarations"

lemma interface_ok_declare_all: "interface_ok (declare_all declarations)"
proof -
  have "interface_ok d \<Longrightarrow>
      interface_ok (foldl (\<lambda>d (name, result, ps). declare_method name result ps d) d declarations)" for d
    by (induction declarations arbitrary: d) (auto intro: invariant_intros)
  then show ?thesis
    unfolding declare_all_def by (simp add: interface_ok_def std_map.ok_empty)
qed

end
