(* ===== verification/Parse_Result.thy ===== *)
theory Parse_Result
  imports Warpcoil_Prelude
begin

text \<open>
  \<open>warpcoil/cpp/parse_result.hpp\<close> and the contract of a byte parser. Every parser class of
  \<open>warpcoil/cpp\<close> has a default constructor and a member \<open>parse_byte\<close>; the templates use
  their parameters through these members only. A parser class is modelled by its default
  constructed state \<open>init\<close> and a function \<open>parse\<close> from a state and an octet to a
  \<open>parse_result\<close> and the next state.
  \<open>feed\<close> runs a parser over a byte string until it stops. The locale \<open>byte_parser\<close> is the
  interface the templates rely on: a parser class together with the values it delivers
  and their encodings, where the parser accepts exactly the encodings.
\<close>

datatype input_consumption = Consumed | Does_not_consume

datatype 'r parse_result =
    Parse_complete (complete_result: 'r) (complete_input: input_consumption)
  | Need_more_input
  | Invalid_input

type_synonym ('s, 'r) byte_step = "'s \<Rightarrow> u8 \<Rightarrow> 'r parse_result \<times> 's"

datatype ('s, 'r) feed_result =
    Done 'r bytes  \<comment> \<open>the result, and the bytes after it\<close>
  | Failed
  | Pending 's

fun feed :: "('s, 'r) byte_step \<Rightarrow> 's \<Rightarrow> bytes \<Rightarrow> ('s, 'r) feed_result" where
  "feed parse s [] = Pending s"
| "feed parse s (b # bs) =
     (case parse s b of
        (Parse_complete r Consumed, s') \<Rightarrow> Done r bs
      | (Parse_complete r Does_not_consume, s') \<Rightarrow> Done r (b # bs)
      | (Need_more_input, s') \<Rightarrow> feed parse s' bs
      | (Invalid_input, s') \<Rightarrow> Failed)"

lemma feed_append:
  "feed parse s (xs @ ys) =
     (case feed parse s xs of
        Done r rest \<Rightarrow> Done r (rest @ ys)
      | Failed \<Rightarrow> Failed
      | Pending s' \<Rightarrow> feed parse s' ys)"
  by (induction xs arbitrary: s)
    (auto split: prod.splits parse_result.splits input_consumption.splits)

text \<open>A result delivered after \<open>bs\<close> does not depend on the bytes that follow.\<close>

lemma feed_Done_append: "feed parse s xs = Done r rest \<Longrightarrow> feed parse s (xs @ ys) = Done r (rest @ ys)"
  by (simp add: feed_append)

definition always_consumes :: "('s, 'r) byte_step \<Rightarrow> bool" where
  "always_consumes parse \<longleftrightarrow> (\<forall>s b r c s'. parse s b = (Parse_complete r c, s') \<longrightarrow> c = Consumed)"

lemma always_consumesI [intro]:
  "(\<And>s b r c s'. parse s b = (Parse_complete r c, s') \<Longrightarrow> c = Consumed) \<Longrightarrow> always_consumes parse"
  by (simp add: always_consumes_def)

lemma always_consumesD:
  "always_consumes parse \<Longrightarrow> parse s b = (Parse_complete r c, s') \<Longrightarrow> c = Consumed"
  unfolding always_consumes_def by blast

lemma always_consumes_split:
  assumes "always_consumes parse"
  obtains (complete) r s' where "parse s b = (Parse_complete r Consumed, s')"
    | (more) s' where "parse s b = (Need_more_input, s')"
    | (invalid) s' where "parse s b = (Invalid_input, s')"
proof (cases "parse s b")
  case (Pair res s')
  show ?thesis
  proof (cases res)
    case (Parse_complete r c)
    with Pair assms have "c = Consumed" unfolding always_consumes_def by blast
    with Pair Parse_complete show ?thesis by (auto intro: complete)
  qed (use Pair in \<open>auto intro: more invalid\<close>)
qed

subsection \<open>Delegation\<close>

text \<open>
  Every template forwards the input to an inner parser while that wants more, and acts
  when the inner parser completes: \<open>wrap\<close> is the outer state around an inner state, \<open>act\<close>
  what the outer parser does with a completed inner result.
\<close>

definition delegates ::
  "('o, 'r) byte_step \<Rightarrow> ('s \<Rightarrow> 'o) \<Rightarrow> ('s, 'i) byte_step \<Rightarrow> ('i \<Rightarrow> 'r parse_result \<times> 'o) \<Rightarrow> bool" where
  "delegates outer wrap inner act \<longleftrightarrow>
     (\<forall>s b. case inner s b of
        (Parse_complete r c, s') \<Rightarrow>
          fst (outer (wrap s) b) = fst (act r) \<and>
          (fst (act r) = Need_more_input \<longrightarrow> snd (outer (wrap s) b) = snd (act r))
      | (Need_more_input, s') \<Rightarrow> outer (wrap s) b = (Need_more_input, wrap s')
      | (Invalid_input, s') \<Rightarrow> fst (outer (wrap s) b) = Invalid_input)"

lemma feed_delegates:
  assumes "delegates outer wrap inner act" and "always_consumes inner"
    and "\<And>r. fst (act r) \<noteq> Need_more_input \<Longrightarrow> fst (act r) \<noteq> Invalid_input \<Longrightarrow>
      complete_input (fst (act r)) = Consumed"
  shows "feed outer (wrap s) bs =
     (case feed inner s bs of
        Pending s' \<Rightarrow> Pending (wrap s')
      | Failed \<Rightarrow> Failed
      | Done r rest \<Rightarrow>
          (case act r of
             (Parse_complete r' c, o') \<Rightarrow> Done r' rest
           | (Need_more_input, o') \<Rightarrow> feed outer o' rest
           | (Invalid_input, o') \<Rightarrow> Failed))"
proof (induction bs arbitrary: s)
  case (Cons b bs)
  have *: "case inner s b of
        (Parse_complete r c, s') \<Rightarrow>
          fst (outer (wrap s) b) = fst (act r) \<and>
          (fst (act r) = Need_more_input \<longrightarrow> snd (outer (wrap s) b) = snd (act r))
      | (Need_more_input, s') \<Rightarrow> outer (wrap s) b = (Need_more_input, wrap s')
      | (Invalid_input, s') \<Rightarrow> fst (outer (wrap s) b) = Invalid_input"
    using assms(1) by (simp add: delegates_def)
  from assms(2) show ?case
  proof (cases rule: always_consumes_split [of _ s b])
    case (complete r s')
    show ?thesis
      using * complete assms(3) [of r]
      by (cases "act r"; cases "fst (act r)"; cases "outer (wrap s) b") auto
  next
    case (more s')
    with * Cons.IH show ?thesis by simp
  next
    case (invalid s')
    with * show ?thesis by (cases "outer (wrap s) b") simp
  qed
qed simp

lemma delegatesI:
  assumes "\<And>s b r c s'. inner s b = (Parse_complete r c, s') \<Longrightarrow>
      fst (outer (wrap s) b) = fst (act r) \<and>
      (fst (act r) = Need_more_input \<longrightarrow> snd (outer (wrap s) b) = snd (act r))"
    and "\<And>s b s'. inner s b = (Need_more_input, s') \<Longrightarrow> outer (wrap s) b = (Need_more_input, wrap s')"
    and "\<And>s b s'. inner s b = (Invalid_input, s') \<Longrightarrow> fst (outer (wrap s) b) = Invalid_input"
  shows "delegates outer wrap inner act"
  unfolding delegates_def
proof (intro allI)
  fix s b
  show "case inner s b of
        (Parse_complete r c, s') \<Rightarrow>
          fst (outer (wrap s) b) = fst (act r) \<and>
          (fst (act r) = Need_more_input \<longrightarrow> snd (outer (wrap s) b) = snd (act r))
      | (Need_more_input, s') \<Rightarrow> outer (wrap s) b = (Need_more_input, wrap s')
      | (Invalid_input, s') \<Rightarrow> fst (outer (wrap s) b) = Invalid_input"
    using assms [of s b] by (cases "inner s b"; cases "fst (inner s b)") auto
qed

subsection \<open>The contract of a parser class\<close>

locale byte_parser =
  fixes init :: 's
    and parse :: "('s, 'r) byte_step"
    and valid :: "'r \<Rightarrow> bool"
    and encode :: "'r \<Rightarrow> bytes"
  assumes consumes: "always_consumes parse"
    and accepts: "feed parse init bs = Done r rest \<longleftrightarrow> valid r \<and> bs = encode r @ rest"
begin

lemma accepts_encode: "valid r \<Longrightarrow> feed parse init (encode r @ rest) = Done r rest"
  by (simp add: accepts)

lemma encode_nonempty: "valid r \<Longrightarrow> encode r \<noteq> []"
  using accepts_encode [of r "[]"] by auto

text \<open>No encoding is a prefix of another, so a sequence of encodings splits in one way.\<close>

lemma encode_prefix_free:
  "valid r \<Longrightarrow> valid r' \<Longrightarrow> encode r @ xs = encode r' @ ys \<Longrightarrow> r = r' \<and> xs = ys"
  by (metis accepts_encode feed_result.inject(1))

lemma encode_inj: "valid r \<Longrightarrow> valid r' \<Longrightarrow> encode r = encode r' \<Longrightarrow> r = r'"
  using encode_prefix_free [of r r' "[]" "[]"] by simp

text \<open>Until its last octet arrives, an encoding leaves the parser waiting.\<close>

lemma proper_prefix_pending:
  assumes "valid r" and "encode r = xs @ ys" and "ys \<noteq> []"
  shows "\<exists>s. feed parse init xs = Pending s"
proof -
  have whole: "feed parse init (xs @ ys) = Done r []"
    using accepts_encode [OF assms(1), of "[]"] assms(2) by simp
  show ?thesis
  proof (cases "feed parse init xs")
    case (Done r' rest)
    with assms(3) whole show ?thesis by (simp add: feed_append)
  next
    case Failed
    with whole show ?thesis by (simp add: feed_append)
  qed blast
qed

lemma encode_concat_inj:
  "list_all valid vs \<Longrightarrow> list_all valid ws \<Longrightarrow> length vs = length ws \<Longrightarrow>
   concat (map encode vs) @ xs = concat (map encode ws) @ ys \<Longrightarrow> vs = ws \<and> xs = ys"
proof (induction vs ws rule: list_induct2')
  case (4 v vs w ws)
  then have "v = w \<and> concat (map encode vs) @ xs = concat (map encode ws) @ ys"
    by (intro encode_prefix_free) auto
  with 4 show ?case by auto
qed auto

end

lemma byte_parser_cong:
  "byte_parser init parse valid enc \<Longrightarrow> (\<And>v. valid v = valid' v) \<Longrightarrow>
   (\<And>v. valid v \<Longrightarrow> enc v = enc' v) \<Longrightarrow> byte_parser init parse valid' enc'"
  by (auto simp: byte_parser_def)

text \<open>
  A parser whose results count something: the length prefix of a string or of a vector.
  \<open>as_size\<close> is the conversion to \<open>std::size_t\<close>, \<open>of_size\<close> its inverse on the parser's
  results.
\<close>

locale length_parser = byte_parser init parse valid encode
  for init :: 's and parse :: "('s, 'n) byte_step" and valid :: "'n \<Rightarrow> bool" and encode :: "'n \<Rightarrow> bytes" +
  fixes as_size :: "'n \<Rightarrow> nat" and of_size :: "nat \<Rightarrow> 'n"
  assumes of_size_as_size: "valid n \<Longrightarrow> of_size (as_size n) = n"

definition representable :: "('n \<Rightarrow> bool) \<Rightarrow> ('n \<Rightarrow> nat) \<Rightarrow> (nat \<Rightarrow> 'n) \<Rightarrow> nat \<Rightarrow> bool" where
  "representable valid as_size of_size k \<longleftrightarrow> valid (of_size k) \<and> as_size (of_size k) = k"

context length_parser begin

lemma representable_iff:
  "representable valid as_size of_size k \<longleftrightarrow> (\<exists>n. valid n \<and> as_size n = k)"
  using of_size_as_size by (auto simp: representable_def)

lemma valid_as_size_iff:
  "valid n \<and> as_size n = k \<longleftrightarrow> representable valid as_size of_size k \<and> n = of_size k"
  using of_size_as_size by (auto simp: representable_def)

end

text \<open>
  Renaming states and results by injections keeps the contract: a class template seen
  through the universal types of values and parser states.
\<close>

definition wrap_parse ::
  "('s \<Rightarrow> 't) \<Rightarrow> ('t \<Rightarrow> 's option) \<Rightarrow> ('r \<Rightarrow> 'q) \<Rightarrow> ('s, 'r) byte_step \<Rightarrow> ('t, 'q) byte_step" where
  "wrap_parse wrap unwrap f parse t b =
     (case unwrap t of
        None \<Rightarrow> (Invalid_input, t)
      | Some s \<Rightarrow> map_prod (map_parse_result f) wrap (parse s b))"

lemma feed_wrap_parse:
  assumes "\<And>s. unwrap (wrap s) = Some s"
  shows "feed (wrap_parse wrap unwrap f parse) (wrap s) bs =
    map_feed_result wrap f (feed parse s bs)"
proof (induction bs arbitrary: s)
  case (Cons b bs)
  obtain res s' where "parse s b = (res, s')" by (cases "parse s b")
  then show ?case
    using Cons.IH [of s']
    by (cases res) (auto simp: wrap_parse_def [of _ _ _ _ _ b] assms split: input_consumption.splits)
qed simp

lemma always_consumes_wrap_parse:
  assumes "always_consumes parse"
  shows "always_consumes (wrap_parse wrap unwrap f parse)"
proof
  fix s b r c s'
  assume "wrap_parse wrap unwrap f parse s b = (Parse_complete r c, s')"
  then obtain t where t: "map_prod (map_parse_result f) wrap (parse t b) = (Parse_complete r c, s')"
    by (auto simp: wrap_parse_def split: option.splits)
  from assms show "c = Consumed"
    by (cases rule: always_consumes_split [of _ t b]) (use t in auto)
qed

lemma byte_parser_wrap:
  assumes "byte_parser init parse valid encode"
    and "\<And>s. unwrap (wrap s) = Some s" and "\<And>r. g (f r) = r"
  shows "byte_parser (wrap init) (wrap_parse wrap unwrap f parse)
    (\<lambda>v. f (g v) = v \<and> valid (g v)) (\<lambda>v. encode (g v))"
proof
  show "always_consumes (wrap_parse wrap unwrap f parse)"
    using byte_parser.consumes [OF assms(1)] by (rule always_consumes_wrap_parse)
next
  fix bs v rest
  have "feed (wrap_parse wrap unwrap f parse) (wrap init) bs = Done v rest \<longleftrightarrow>
      (\<exists>r. feed parse init bs = Done r rest \<and> v = f r)"
    unfolding feed_wrap_parse [where unwrap = unwrap and wrap = wrap, OF assms(2)] by (cases "feed parse init bs") auto
  also have "\<dots> \<longleftrightarrow> (\<exists>r. valid r \<and> bs = encode r @ rest \<and> v = f r)"
    by (simp add: byte_parser.accepts [OF assms(1)])
  also have "\<dots> \<longleftrightarrow> (f (g v) = v \<and> valid (g v)) \<and> bs = encode (g v) @ rest"
    using assms(3) by metis
  finally show "feed (wrap_parse wrap unwrap f parse) (wrap init) bs = Done v rest \<longleftrightarrow>
      (f (g v) = v \<and> valid (g v)) \<and> bs = encode (g v) @ rest" .
qed

end
