(* ===== verification/Utf8_Parser.thy ===== *)
theory Utf8_Parser
  imports Parse_Result
begin

text \<open>
  \<open>warpcoil/cpp/utf8_parser.hpp\<close>: a length prefix read by the parser class \<open>Length\<close>, then
  that many code units, then one validity check of the whole string. The template
  parameter \<open>Length\<close> is a step function and its conversion to \<open>std::size_t\<close>;
  \<open>utf8::is_valid\<close> comes from a library outside the repository and is the argument
  \<open>is_valid\<close>.
\<close>

datatype 'l utf8_step =
    Utf8_length 'l
  | Utf8_element (current_index: nat)

datatype 'l utf8_parser = Utf8_parser (utf8_step: "'l utf8_step") (utf8_result: bytes)

definition utf8_parser_init :: "'l \<Rightarrow> 'l utf8_parser" where
  "utf8_parser_init length_init = Utf8_parser (Utf8_length length_init) []"

text \<open>\<open>std::string::resize\<close>: cuts the string or pads it with zero code units.\<close>

definition resize :: "nat \<Rightarrow> bytes \<Rightarrow> bytes" where
  "resize n s = take n s @ replicate (n - length s) 0"

lemma resize_Nil [simp]: "resize n [] = replicate n 0"
  by (simp add: resize_def)

fun utf8_parse_byte ::
  "(bytes \<Rightarrow> bool) \<Rightarrow> ('l, 'n) byte_step \<Rightarrow> ('n \<Rightarrow> nat) \<Rightarrow> ('l utf8_parser, bytes) byte_step" where
  "utf8_parse_byte is_valid length_parse as_size (Utf8_parser (Utf8_length parser) result) input =
     (case length_parse parser input of
        (Parse_complete len c, parser') \<Rightarrow>
          (let result = resize (as_size len) result
           in if result = []
              then (Parse_complete result c, Utf8_parser (Utf8_length parser') result)
              else (Need_more_input, Utf8_parser (Utf8_element 0) result))
      | (Need_more_input, parser') \<Rightarrow> (Need_more_input, Utf8_parser (Utf8_length parser') result)
      | (Invalid_input, parser') \<Rightarrow> (Invalid_input, Utf8_parser (Utf8_length parser') result))"
| "utf8_parse_byte is_valid length_parse as_size (Utf8_parser (Utf8_element i) result) input =
     (let result = result[i := input]
      in if i = length result - 1
         then (if is_valid result
               then (Parse_complete result Consumed, Utf8_parser (Utf8_element i) result)
               else (Invalid_input, Utf8_parser (Utf8_element i) result))
         else (Need_more_input, Utf8_parser (Utf8_element (i + 1)) result))"

definition utf8_encode :: "('n \<Rightarrow> bytes) \<Rightarrow> (nat \<Rightarrow> 'n) \<Rightarrow> bytes \<Rightarrow> bytes" where
  "utf8_encode length_encode of_size s = length_encode (of_size (length s)) @ s"

definition utf8_valid :: "(bytes \<Rightarrow> bool) \<Rightarrow> (nat \<Rightarrow> bool) \<Rightarrow> bytes \<Rightarrow> bool" where
  "utf8_valid is_valid fits s \<longleftrightarrow> fits (length s) \<and> (s = [] \<or> is_valid s)"

lemma feed_utf8_element:
  "i < length result \<Longrightarrow>
   feed (utf8_parse_byte is_valid lp as_size) (Utf8_parser (Utf8_element i) result) bs = Done s rest
     \<longleftrightarrow> (\<exists>xs. length xs = length result - i \<and> bs = xs @ rest \<and> s = take i result @ xs \<and> is_valid s)"
proof (induction bs arbitrary: i result)
  case (Cons b bs)
  have upd: "take (Suc i) (result[i := b]) = take i result @ [b]"
    using Cons.prems by (rule take_Suc_update)
  show ?case
  proof (cases "i = length result - 1")
    case True
    then have "length result = Suc i" using Cons.prems by simp
    with upd have "result[i := b] = take i result @ [b]" by simp
    moreover have "length result - i = Suc 0" using \<open>length result = Suc i\<close> by simp
    ultimately show ?thesis
      using True by (auto simp: length_one_conv Let_def)
  next
    case False
    then have i: "i + 1 < length (result[i := b])" using Cons.prems by simp
    have "length result - i = Suc (length result - Suc i)" using Cons.prems by simp
    then show ?thesis
      using False Cons.IH [OF i] upd
      by (auto simp: length_Suc_conv Cons_eq_append_conv Let_def)
  qed
qed auto

locale utf8_over_length = length_parser init parse valid encode as_size of_size
  for init :: 'l and parse :: "('l, 'n) byte_step" and valid :: "'n \<Rightarrow> bool" and encode :: "'n \<Rightarrow> bytes"
    and as_size :: "'n \<Rightarrow> nat" and of_size :: "nat \<Rightarrow> 'n" +
  fixes is_valid :: "bytes \<Rightarrow> bool"
begin

lemma delegates_length:
  "delegates (utf8_parse_byte is_valid parse as_size) (\<lambda>l. Utf8_parser (Utf8_length l) []) parse
     (\<lambda>n. if as_size n = 0 then (Parse_complete [] Consumed, Utf8_parser (Utf8_element 0) [])
          else (Need_more_input, Utf8_parser (Utf8_element 0) (replicate (as_size n) 0)))"
  using consumes by (intro delegatesI) (auto simp: Let_def dest: always_consumesD)

lemma accepts_utf8:
  "feed (utf8_parse_byte is_valid parse as_size) (utf8_parser_init init) bs = Done s rest \<longleftrightarrow>
   utf8_valid is_valid (representable valid as_size of_size) s \<and>
   bs = utf8_encode encode of_size s @ rest"
proof -
  have "feed (utf8_parse_byte is_valid parse as_size) (utf8_parser_init init) bs = Done s rest \<longleftrightarrow>
      (\<exists>n. feed parse init bs = Done n (s @ rest) \<and> as_size n = length s \<and> (s = [] \<or> is_valid s))"
    unfolding utf8_parser_init_def
    by (subst feed_delegates [OF delegates_length consumes])
      (cases "feed parse init bs"; auto simp: feed_utf8_element split: if_splits)+
  also have "\<dots> \<longleftrightarrow> (\<exists>n. valid n \<and> as_size n = length s \<and> (s = [] \<or> is_valid s) \<and>
      bs = encode n @ s @ rest)"
    unfolding accepts by blast
  also have "\<dots> \<longleftrightarrow> (\<exists>n. representable valid as_size of_size (length s) \<and> n = of_size (length s) \<and>
      (s = [] \<or> is_valid s) \<and> bs = encode n @ s @ rest)"
    using valid_as_size_iff by blast
  finally show ?thesis
    by (simp add: utf8_valid_def utf8_encode_def)
qed

sublocale utf8: byte_parser "utf8_parser_init init" "utf8_parse_byte is_valid parse as_size"
  "utf8_valid is_valid (representable valid as_size of_size)" "utf8_encode encode of_size"
proof
  show "always_consumes (utf8_parse_byte is_valid parse as_size)"
  proof
    fix s b r c s'
    assume "utf8_parse_byte is_valid parse as_size s b = (Parse_complete r c, s')"
    with consumes show "c = Consumed"
      by (induction is_valid parse as_size s b rule: utf8_parse_byte.induct)
        (auto simp: Let_def dest: always_consumesD split: parse_result.splits prod.splits if_splits)
  qed
qed (rule accepts_utf8)

lemma utf8_contract:
  "byte_parser (utf8_parser_init init) (utf8_parse_byte is_valid parse as_size)
     (utf8_valid is_valid (representable valid as_size of_size)) (utf8_encode encode of_size)"
  by (rule utf8.byte_parser_axioms)

end

end
