(* ===== verification/Vector_Parser.thy ===== *)
theory Vector_Parser
  imports Parse_Result
begin

text \<open>
  \<open>warpcoil/cpp/vector_parser.hpp\<close>: a length prefix read by the parser class \<open>Length\<close>, then
  that many elements, each read by a fresh \<open>Element\<close> parser. The end is detected by
  comparing the size of the result with its capacity, which \<open>reserve\<close> has set to the
  announced length (the code asserts that it did); the capacity is a field of the state.
\<close>

datatype ('l, 'e) vector_step =
    Vector_length 'l
  | Vector_element (element_parser: 'e)

datatype ('l, 'e, 'r) vector_parser =
  Vector_parser (vector_step: "('l, 'e) vector_step") (vector_result: "'r list") (capacity: nat)

definition vector_parser_init :: "'l \<Rightarrow> ('l, 'e, 'r) vector_parser" where
  "vector_parser_init length_init = Vector_parser (Vector_length length_init) [] 0"

fun vector_parse_byte ::
  "('l, 'n) byte_step \<Rightarrow> ('n \<Rightarrow> nat) \<Rightarrow> 'e \<Rightarrow> ('e, 'r) byte_step \<Rightarrow>
    (('l, 'e, 'r) vector_parser, 'r list) byte_step" where
  "vector_parse_byte length_parse as_size element_init element_parse
     (Vector_parser (Vector_length parser) result cap) input =
     (case length_parse parser input of
        (Parse_complete len c, parser') \<Rightarrow>
          (if as_size len = 0
           then (Parse_complete result c, Vector_parser (Vector_length parser') result cap)
           else (Need_more_input,
                 Vector_parser (Vector_element element_init) result (as_size len)))
      | (Need_more_input, parser') \<Rightarrow>
          (Need_more_input, Vector_parser (Vector_length parser') result cap)
      | (Invalid_input, parser') \<Rightarrow>
          (Invalid_input, Vector_parser (Vector_length parser') result cap))"
| "vector_parse_byte length_parse as_size element_init element_parse
     (Vector_parser (Vector_element parser) result cap) input =
     (case element_parse parser input of
        (Parse_complete element c, parser') \<Rightarrow>
          (let result = result @ [element]
           in if length result = cap
              then (Parse_complete result c, Vector_parser (Vector_element parser') result cap)
              else (Need_more_input, Vector_parser (Vector_element element_init) result cap))
      | (Need_more_input, parser') \<Rightarrow>
          (Need_more_input, Vector_parser (Vector_element parser') result cap)
      | (Invalid_input, parser') \<Rightarrow>
          (Invalid_input, Vector_parser (Vector_element parser') result cap))"

definition vector_encode ::
  "('n \<Rightarrow> bytes) \<Rightarrow> (nat \<Rightarrow> 'n) \<Rightarrow> ('r \<Rightarrow> bytes) \<Rightarrow> 'r list \<Rightarrow> bytes" where
  "vector_encode length_encode of_size element_encode vs =
     length_encode (of_size (length vs)) @ concat (map element_encode vs)"

definition vector_valid :: "(nat \<Rightarrow> bool) \<Rightarrow> ('r \<Rightarrow> bool) \<Rightarrow> 'r list \<Rightarrow> bool" where
  "vector_valid fits element_valid vs \<longleftrightarrow> fits (length vs) \<and> list_all element_valid vs"

locale vector_over =
  length_parser linit lparse lvalid lencode as_size of_size +
  element: byte_parser einit eparse evalid eencode
  for linit :: 'l and lparse :: "('l, 'n) byte_step" and lvalid :: "'n \<Rightarrow> bool"
    and lencode :: "'n \<Rightarrow> bytes" and as_size :: "'n \<Rightarrow> nat" and of_size :: "nat \<Rightarrow> 'n"
    and einit :: 'e and eparse :: "('e, 'r) byte_step" and evalid :: "'r \<Rightarrow> bool"
    and eencode :: "'r \<Rightarrow> bytes"
begin

lemma delegates_length:
  "delegates (vector_parse_byte lparse as_size einit eparse)
     (\<lambda>l. Vector_parser (Vector_length l) [] 0) lparse
     (\<lambda>n. if as_size n = 0 then (Parse_complete [] Consumed, vector_parser_init linit)
          else (Need_more_input, Vector_parser (Vector_element einit) [] (as_size n)))"
  using consumes by (intro delegatesI) (auto dest: always_consumesD)

lemma delegates_element:
  "delegates (vector_parse_byte lparse as_size einit eparse)
     (\<lambda>e. Vector_parser (Vector_element e) vs cap) eparse
     (\<lambda>v. if Suc (length vs) = cap
          then (Parse_complete (vs @ [v]) Consumed, vector_parser_init linit)
          else (Need_more_input, Vector_parser (Vector_element einit) (vs @ [v]) cap))"
  using element.consumes by (intro delegatesI) (auto simp: Let_def dest: always_consumesD)

lemma feed_vector_element:
  "length vs < cap \<Longrightarrow>
   feed (vector_parse_byte lparse as_size einit eparse)
     (Vector_parser (Vector_element einit) vs cap) bs = Done us rest \<longleftrightarrow>
   (\<exists>ws. length ws = cap - length vs \<and> list_all evalid ws \<and>
     bs = concat (map eencode ws) @ rest \<and> us = vs @ ws)"
proof (induction "cap - length vs" arbitrary: vs bs)
  case (Suc k)
  have step: "feed (vector_parse_byte lparse as_size einit eparse)
      (Vector_parser (Vector_element einit) vs cap) bs = Done us rest \<longleftrightarrow>
    (\<exists>v tail. feed eparse einit bs = Done v tail \<and>
      (if Suc (length vs) = cap then us = vs @ [v] \<and> tail = rest
       else feed (vector_parse_byte lparse as_size einit eparse)
         (Vector_parser (Vector_element einit) (vs @ [v]) cap) tail = Done us rest))"
    by (subst feed_delegates [OF delegates_element element.consumes])
      (cases "feed eparse einit bs"; auto split: if_splits)+
  show ?case
  proof (cases "Suc (length vs) = cap")
    case True
    then have "cap - length vs = Suc 0" by simp
    with True step show ?thesis
      by (auto simp: element.accepts length_one_conv)
  next
    case False
    with Suc.prems have "length (vs @ [v]) < cap" for v by simp
    moreover have "k = cap - length (vs @ [v])" for v using Suc.hyps(2) by simp
    ultimately have IH: "feed (vector_parse_byte lparse as_size einit eparse)
        (Vector_parser (Vector_element einit) (vs @ [v]) cap) tail = Done us rest \<longleftrightarrow>
      (\<exists>ws. length ws = k \<and> list_all evalid ws \<and>
        tail = concat (map eencode ws) @ rest \<and> us = vs @ v # ws)" for v tail
      using Suc.hyps(1) [of "vs @ [v]" tail] by simp
    have "cap - length vs = Suc k" using Suc.hyps(2) by simp
    with False show ?thesis
      unfolding step IH element.accepts by (auto simp: length_Suc_conv)
  qed
qed simp

lemma accepts_vector:
  "feed (vector_parse_byte lparse as_size einit eparse) (vector_parser_init linit) bs = Done vs rest
   \<longleftrightarrow> vector_valid (representable lvalid as_size of_size) evalid vs \<and>
     bs = vector_encode lencode of_size eencode vs @ rest"
proof -
  have "feed (vector_parse_byte lparse as_size einit eparse) (vector_parser_init linit) bs = Done vs rest
    \<longleftrightarrow> (\<exists>n. feed lparse linit bs = Done n (concat (map eencode vs) @ rest) \<and>
      as_size n = length vs \<and> list_all evalid vs)"
    unfolding vector_parser_init_def
    by (subst feed_delegates [OF delegates_length consumes])
      (cases "feed lparse linit bs"; auto simp: feed_vector_element split: if_splits)+
  also have "\<dots> \<longleftrightarrow> (\<exists>n. (lvalid n \<and> as_size n = length vs) \<and> list_all evalid vs \<and>
      bs = lencode n @ concat (map eencode vs) @ rest)"
    unfolding accepts by blast
  finally show ?thesis
    unfolding valid_as_size_iff by (simp add: vector_valid_def vector_encode_def)
qed

sublocale vector: byte_parser "vector_parser_init linit"
  "vector_parse_byte lparse as_size einit eparse"
  "vector_valid (representable lvalid as_size of_size) evalid"
  "vector_encode lencode of_size eencode"
proof
  show "always_consumes (vector_parse_byte lparse as_size einit eparse)"
  proof
    fix s b r c s'
    assume "vector_parse_byte lparse as_size einit eparse s b = (Parse_complete r c, s')"
    with consumes element.consumes show "c = Consumed"
      by (induction lparse as_size einit eparse s b rule: vector_parse_byte.induct)
        (auto simp: Let_def dest: always_consumesD
          split: parse_result.splits prod.splits if_splits)
  qed
qed (rule accepts_vector)

lemma vector_contract:
  "byte_parser (vector_parser_init linit) (vector_parse_byte lparse as_size einit eparse)
     (vector_valid (representable lvalid as_size of_size) evalid)
     (vector_encode lencode of_size eencode)"
  by (rule vector.byte_parser_axioms)

end

end
