(* ===== verification/Tuple_Parser.thy ===== *)
theory Tuple_Parser
  imports Parse_Result
begin

text \<open>
  \<open>warpcoil/cpp/tuple_parser.hpp\<close>: the elements of a tuple (or of a structure, whose
  generated \<open>structure_parser\<close> derives from the same \<open>basic_tuple_parser\<close>) one after the
  other. The variant \<open>m_current_element\<close> of \<open>indexed<I, Parser>\<close> is the pair of the index
  \<open>I\<close> and the state of that element's parser; the template parameters are a list of
  element classes. \<open>m_result\<close> is the list of the elements, default constructed at first.
  The empty tuple has a specialisation of its own.
\<close>

text \<open>What the template uses of an element class.\<close>

datatype ('s, 'r) parser_class =
  Parser_class
    (class_init: 's)
    (class_parse: "('s, 'r) byte_step")
    (class_immediate: "'s \<Rightarrow> 'r option")  \<comment> \<open>\<open>check_for_immediate_completion\<close>\<close>

datatype ('s, 'r) tuple_parser =
  Tuple_parser (current_element: nat) (current_parser: 's) (tuple_result: "'r list")

datatype internal_parse_result =
  Complete_and_consumed | Complete_and_not_consumed | Incomplete | Invalid

definition tuple_parser_init ::
  "('s, 'r) parser_class list \<Rightarrow> 'r list \<Rightarrow> ('s, 'r) tuple_parser" where
  "tuple_parser_init classes defaults = Tuple_parser 0 (class_init (hd classes)) defaults"

definition go_to_next_state ::
  "('s, 'r) parser_class list \<Rightarrow> nat \<Rightarrow> input_consumption \<Rightarrow> ('s, 'r) tuple_parser \<Rightarrow>
    internal_parse_result \<times> ('s, 'r) tuple_parser" where
  "go_to_next_state classes i consumption p =
     (if i = length classes - 1
      then (case consumption of
              Consumed \<Rightarrow> (Complete_and_consumed, p)
            | Does_not_consume \<Rightarrow> (Complete_and_not_consumed, p))
      else (Incomplete,
            Tuple_parser (i + 1) (class_init (classes ! (i + 1))) (tuple_result p)))"

definition indexed_parse ::
  "('s, 'r) parser_class list \<Rightarrow> ('s, 'r) tuple_parser \<Rightarrow> u8 \<Rightarrow>
    internal_parse_result \<times> ('s, 'r) tuple_parser" where
  "indexed_parse classes p input =
     (let i = current_element p
      in case class_parse (classes ! i) (current_parser p) input of
           (Parse_complete element consumption, parser') \<Rightarrow>
             go_to_next_state classes i consumption
               (Tuple_parser i parser' ((tuple_result p)[i := element]))
         | (Need_more_input, parser') \<Rightarrow> (Incomplete, Tuple_parser i parser' (tuple_result p))
         | (Invalid_input, parser') \<Rightarrow> (Invalid, Tuple_parser i parser' (tuple_result p)))"

definition basic_tuple_parse_byte ::
  "('s, 'r) parser_class list \<Rightarrow> (('s, 'r) tuple_parser, 'r list) byte_step" where
  "basic_tuple_parse_byte classes p input =
     (case indexed_parse classes p input of
        (Complete_and_consumed, p') \<Rightarrow> (Parse_complete (tuple_result p') Consumed, p')
      | (Complete_and_not_consumed, p') \<Rightarrow> (Parse_complete (tuple_result p') Does_not_consume, p')
      | (Incomplete, p') \<Rightarrow> (Need_more_input, p')
      | (Invalid, p') \<Rightarrow> (Invalid_input, p'))"

definition basic_tuple_check_for_immediate_completion ::
  "('s, 'r) parser_class list \<Rightarrow> ('s, 'r) tuple_parser \<Rightarrow> 'r list option" where
  "basic_tuple_check_for_immediate_completion classes p =
     (let arity = length classes
      in if arity = 1 \<and> class_immediate (classes ! current_element p) (current_parser p) \<noteq> None
         then Some (tuple_result p)
         else None)"

text \<open>The specialisation \<open>tuple_parser<>\<close>, and the generated parser of an empty structure.\<close>

definition empty_tuple_parse_byte :: "('s, 'r list) byte_step" where
  "empty_tuple_parse_byte p input = (Parse_complete [] Does_not_consume, p)"

definition empty_tuple_check_for_immediate_completion :: "'s \<Rightarrow> 'r list option" where
  "empty_tuple_check_for_immediate_completion p = Some []"

definition tuple_encode :: "('r \<Rightarrow> bytes) list \<Rightarrow> 'r list \<Rightarrow> bytes" where
  "tuple_encode encodes vs = concat (map2 (\<lambda>e v. e v) encodes vs)"

definition tuple_valid :: "('r \<Rightarrow> bool) list \<Rightarrow> 'r list \<Rightarrow> bool" where
  "tuple_valid valids vs \<longleftrightarrow> list_all2 (\<lambda>p v. p v) valids vs"

lemma basic_tuple_parse_byte_cases:
  "class_parse (classes ! i) s b = (Parse_complete v Consumed, s') \<Longrightarrow>
   basic_tuple_parse_byte classes (Tuple_parser i s res) b =
     (if i = length classes - 1
      then (Parse_complete (res[i := v]) Consumed, Tuple_parser i s' (res[i := v]))
      else (Need_more_input,
            Tuple_parser (Suc i) (class_init (classes ! Suc i)) (res[i := v])))"
  "class_parse (classes ! i) s b = (Need_more_input, s') \<Longrightarrow>
   basic_tuple_parse_byte classes (Tuple_parser i s res) b =
     (Need_more_input, Tuple_parser i s' res)"
  "class_parse (classes ! i) s b = (Invalid_input, s') \<Longrightarrow>
   basic_tuple_parse_byte classes (Tuple_parser i s res) b =
     (Invalid_input, Tuple_parser i s' res)"
  by (simp_all add: basic_tuple_parse_byte_def indexed_parse_def go_to_next_state_def)

lemma basic_tuple_consumes:
  assumes "\<And>i. i = length classes - 1 \<Longrightarrow> always_consumes (class_parse (classes ! i))"
  shows "always_consumes (basic_tuple_parse_byte classes)"
proof
  fix p b r c p'
  assume "basic_tuple_parse_byte classes p b = (Parse_complete r c, p')"
  with assms [of "current_element p"] show "c = Consumed"
    by (auto simp: basic_tuple_parse_byte_def indexed_parse_def go_to_next_state_def Let_def
        split: parse_result.splits prod.splits if_splits internal_parse_result.splits
          input_consumption.splits dest: always_consumesD)
qed

locale tuple_over =
  fixes classes :: "('s, 'r) parser_class list"
    and valids :: "('r \<Rightarrow> bool) list"
    and encodes :: "('r \<Rightarrow> bytes) list"
    and defaults :: "'r list"
  assumes nonempty: "classes \<noteq> []"
    and lengths: "length valids = length classes" "length encodes = length classes"
      "length defaults = length classes"
    and elements: "i < length classes \<Longrightarrow>
      byte_parser (class_init (classes ! i)) (class_parse (classes ! i)) (valids ! i) (encodes ! i)"
begin

lemma element_consumes: "i < length classes \<Longrightarrow> always_consumes (class_parse (classes ! i))"
  using elements byte_parser.consumes by fast

lemma element_accepts:
  "i < length classes \<Longrightarrow>
   feed (class_parse (classes ! i)) (class_init (classes ! i)) bs = Done v rest \<longleftrightarrow>
   (valids ! i) v \<and> bs = (encodes ! i) v @ rest"
  using elements byte_parser.accepts by fast

lemma delegates_element:
  assumes "i < length classes"
  shows "delegates (basic_tuple_parse_byte classes) (\<lambda>s. Tuple_parser i s res)
     (class_parse (classes ! i))
     (\<lambda>v. if i = length classes - 1
          then (Parse_complete (res[i := v]) Consumed, tuple_parser_init classes defaults)
          else (Need_more_input,
                Tuple_parser (Suc i) (class_init (classes ! Suc i)) (res[i := v])))"
proof (intro delegatesI)
  fix s b v c s'
  assume *: "class_parse (classes ! i) s b = (Parse_complete v c, s')"
  with element_consumes [OF assms] have "c = Consumed" by (auto dest: always_consumesD)
  with * show "fst (basic_tuple_parse_byte classes (Tuple_parser i s res) b) =
      fst (if i = length classes - 1
          then (Parse_complete (res[i := v]) Consumed, tuple_parser_init classes defaults)
          else (Need_more_input,
                Tuple_parser (Suc i) (class_init (classes ! Suc i)) (res[i := v]))) \<and>
      (fst (if i = length classes - 1
          then (Parse_complete (res[i := v]) Consumed, tuple_parser_init classes defaults)
          else (Need_more_input,
                Tuple_parser (Suc i) (class_init (classes ! Suc i)) (res[i := v])))
          = Need_more_input \<longrightarrow>
        snd (basic_tuple_parse_byte classes (Tuple_parser i s res) b) =
        snd (if i = length classes - 1
          then (Parse_complete (res[i := v]) Consumed, tuple_parser_init classes defaults)
          else (Need_more_input,
                Tuple_parser (Suc i) (class_init (classes ! Suc i)) (res[i := v]))))"
    by (simp add: basic_tuple_parse_byte_cases)
qed (simp_all add: basic_tuple_parse_byte_cases)

lemma feed_tuple_from:
  "i < length classes \<Longrightarrow> length res = length classes \<Longrightarrow>
   feed (basic_tuple_parse_byte classes) (Tuple_parser i (class_init (classes ! i)) res) bs = Done us rest
   \<longleftrightarrow> (\<exists>ws. tuple_valid (drop i valids) ws \<and> bs = tuple_encode (drop i encodes) ws @ rest \<and>
        us = take i res @ ws)"
proof (induction "length classes - i" arbitrary: i res bs)
  case (Suc k)
  have split_lists: "drop i valids = valids ! i # drop (Suc i) valids"
      "drop i encodes = encodes ! i # drop (Suc i) encodes"
    using Suc.prems lengths by (simp_all add: Cons_nth_drop_Suc)
  have step: "feed (basic_tuple_parse_byte classes) (Tuple_parser i (class_init (classes ! i)) res) bs
      = Done us rest \<longleftrightarrow>
    (\<exists>v tail. feed (class_parse (classes ! i)) (class_init (classes ! i)) bs = Done v tail \<and>
      (if i = length classes - 1 then us = res[i := v] \<and> tail = rest
       else feed (basic_tuple_parse_byte classes)
         (Tuple_parser (Suc i) (class_init (classes ! Suc i)) (res[i := v])) tail = Done us rest))"
    by (subst feed_delegates [OF delegates_element element_consumes])
      (use Suc.prems in \<open>cases "feed (class_parse (classes ! i)) (class_init (classes ! i)) bs";
        auto split: if_splits\<close>)+
  show ?case
  proof (cases "i = length classes - 1")
    case True
    with Suc.prems have "length res = Suc i" by simp
    moreover have "res[i := v] = take i res @ [v]" for v
      using take_Suc_update [of i res v] calculation by simp
    moreover have "drop (Suc i) valids = []" "drop (Suc i) encodes = []"
      using True lengths by auto
    ultimately show ?thesis
      using True Suc.prems unfolding step element_accepts [OF Suc.prems(1)] split_lists
      by (auto simp: tuple_valid_def tuple_encode_def list_all2_Cons1)
  next
    case False
    with Suc.prems have lt: "Suc i < length classes" "length (res[i := v]) = length classes" for v
      by simp_all
    have "k = length classes - Suc i" using Suc.hyps(2) by simp
    note IH = Suc.hyps(1) [OF this lt]
    have "take (Suc i) (res[i := v]) = take i res @ [v]" for v
      using Suc.prems by (simp add: take_Suc_update)
    with False show ?thesis
      unfolding step IH element_accepts [OF Suc.prems(1)] split_lists
      by (auto simp: tuple_valid_def tuple_encode_def list_all2_Cons1)
  qed
qed simp

sublocale tuple: byte_parser "tuple_parser_init classes defaults" "basic_tuple_parse_byte classes"
  "tuple_valid valids" "tuple_encode encodes"
proof
  show "always_consumes (basic_tuple_parse_byte classes)"
    using nonempty by (intro basic_tuple_consumes element_consumes) simp
next
  fix bs us rest
  show "feed (basic_tuple_parse_byte classes) (tuple_parser_init classes defaults) bs = Done us rest \<longleftrightarrow>
      tuple_valid valids us \<and> bs = tuple_encode encodes us @ rest"
    using feed_tuple_from [of 0 defaults bs us rest] nonempty lengths
    by (auto simp: tuple_parser_init_def hd_conv_nth)
qed

lemma tuple_contract:
  "byte_parser (tuple_parser_init classes defaults) (basic_tuple_parse_byte classes)
     (tuple_valid valids) (tuple_encode encodes)"
  by (rule tuple.byte_parser_axioms)

end

text \<open>
  A completion of an element that is not the last one loses its \<open>input_consumption\<close>: the
  octet that completed the element without being consumed is reported as consumed.
\<close>

lemma tuple_forgets_consumption:
  assumes "class_parse (classes ! i) s b = (Parse_complete v Does_not_consume, s')"
    and "i < length classes - 1"
  shows "fst (basic_tuple_parse_byte classes (Tuple_parser i s res) b) = Need_more_input"
  using assms by (simp add: basic_tuple_parse_byte_def indexed_parse_def go_to_next_state_def)

end
