(* ===== verification/Integer_Parser.thy ===== *)
theory Integer_Parser
  imports Parse_Result
begin

text \<open>
  \<open>warpcoil/cpp/integer_parser.hpp\<close> and \<open>warpcoil/cpp/write_integer.hpp\<close>. The template
  parameter \<open>Unsigned\<close> is the length of the word type: \<open>integer_parser<std::uint16_t>\<close> is
  \<open>16 integer_parser\<close>. The theory shows that the parser accepts exactly what
  \<open>write_integer\<close> writes, for every unsigned type made of whole octets, and interprets
  the contract \<open>byte_parser\<close> for the four types the generator uses.
\<close>

definition sizeof :: "'w::len itself \<Rightarrow> nat" where
  "sizeof _ = LENGTH('w) div 8"

record (overloaded) ('w::len) integer_parser =
  int_result :: "'w word"
  bytes_received :: nat

definition integer_parser_init :: "'w::len integer_parser" where
  "integer_parser_init = \<lparr>int_result = 0, bytes_received = 0\<rparr>"

text \<open>The condition that \<open>parse_byte\<close> asserts on entry.\<close>

definition integer_parser_ready :: "'w::len integer_parser \<Rightarrow> bool" where
  "integer_parser_ready p \<longleftrightarrow> bytes_received p < sizeof TYPE('w)"

definition integer_parse_byte :: "('w::len integer_parser, 'w word) byte_step" where
  "integer_parse_byte p input =
     (let r = push_bit 8 (int_result p);
          r = r OR ucast input;
          n = Suc (bytes_received p);
          p' = p\<lparr>int_result := r, bytes_received := n\<rparr>
      in if n = sizeof TYPE('w)
         then (Parse_complete r Consumed, p')
         else (Need_more_input, p'))"

lemma integer_parse_byte_last:
  "Suc (bytes_received p) = sizeof TYPE('w) \<Longrightarrow>
   integer_parse_byte (p :: 'w::len integer_parser) b =
     (Parse_complete (push_bit 8 (int_result p) OR ucast b) Consumed,
      p\<lparr>int_result := push_bit 8 (int_result p) OR ucast b,
        bytes_received := Suc (bytes_received p)\<rparr>)"
  by (simp add: integer_parse_byte_def Let_def)

lemma integer_parse_byte_more:
  "Suc (bytes_received p) \<noteq> sizeof TYPE('w) \<Longrightarrow>
   integer_parse_byte (p :: 'w::len integer_parser) b =
     (Need_more_input,
      p\<lparr>int_result := push_bit 8 (int_result p) OR ucast b,
        bytes_received := Suc (bytes_received p)\<rparr>)"
  by (simp add: integer_parse_byte_def Let_def)

definition write_integer :: "'w::len word \<Rightarrow> bytes" where
  "write_integer value =
     map (\<lambda>i. ucast (drop_bit ((sizeof TYPE('w) - 1 - i) * 8) value)) [0..<sizeof TYPE('w)]"

lemma length_write_integer [simp]: "length (write_integer (value :: 'w::len word)) = sizeof TYPE('w)"
  by (simp add: write_integer_def)

lemma write_integer_nth:
  "i < sizeof TYPE('w) \<Longrightarrow>
   write_integer (value :: 'w::len word) ! i = ucast (drop_bit ((sizeof TYPE('w) - 1 - i) * 8) value)"
  by (simp add: write_integer_def)

subsection \<open>Big endian accumulation\<close>

text \<open>What the parser has accumulated after some octets.\<close>

definition accumulate :: "bytes \<Rightarrow> 'w::len word \<Rightarrow> 'w word" where
  "accumulate bs r = fold (\<lambda>b r. push_bit 8 r OR ucast b) bs r"

lemma accumulate_simps [simp]:
  "accumulate [] r = r"
  "accumulate (b # bs) r = accumulate bs (push_bit 8 r OR ucast b)"
  "accumulate (bs @ [b]) r = push_bit 8 (accumulate bs r) OR ucast b"
  by (simp_all add: accumulate_def)

lemma bit_accumulate:
  "m < LENGTH('w) \<Longrightarrow> bit (accumulate bs (r :: 'w::len word)) m =
     (if m < 8 * length bs then bit (bs ! (length bs - 1 - m div 8)) (m mod 8)
      else bit r (m - 8 * length bs))"
proof (induction bs arbitrary: m rule: rev_induct)
  case (snoc b bs)
  show ?case
  proof (cases "m < 8")
    case True
    with snoc.prems show ?thesis
      by (simp add: bit_or_iff bit_push_bit_iff bit_ucast_iff nth_append)
  next
    case False
    then obtain k where m: "m = k + 8" by (metis add.commute le_add_diff_inverse not_less)
    with snoc.prems have "bit (accumulate (bs @ [b]) r) m = bit (accumulate bs r) k"
      by (auto simp: bit_or_iff bit_push_bit_iff bit_ucast_iff dest: bit_imp_le_length)
    also have "\<dots> = (if k < 8 * length bs then bit (bs ! (length bs - 1 - k div 8)) (k mod 8)
        else bit r (k - 8 * length bs))"
      using snoc.IH [of k] snoc.prems m by simp
    finally show ?thesis
      using m div_add_self2 [of 8 k] by (auto simp: nth_append)
  qed
qed simp

locale octet_word =
  fixes ty :: "'w::len itself"
  assumes octets: "8 * sizeof TYPE('w) = LENGTH('w)"
begin

lemma sizeof_pos: "0 < sizeof TYPE('w)"
  using octets len_gt_0 [where 'a = 'w] by (metis mult_is_0 neq0_conv)

lemma accumulate_write_integer: "accumulate (write_integer v) 0 = (v :: 'w word)"
proof (rule bit_word_eqI)
  fix m assume m: "m < LENGTH('w)"
  then have "m div 8 < sizeof TYPE('w)" using octets by simp
  then have "bit (accumulate (write_integer v) (0 :: 'w word)) m = bit v (m div 8 * 8 + m mod 8)"
    using m octets sizeof_pos
    by (subst bit_accumulate [OF m]) (simp add: write_integer_nth bit_ucast_iff bit_drop_bit_eq)
  then show "bit (accumulate (write_integer v) (0 :: 'w word)) m = bit v m" by simp
qed

lemma write_integer_accumulate:
  assumes "length bs = sizeof TYPE('w)"
  shows "write_integer (accumulate bs (0 :: 'w word)) = bs"
proof (rule nth_equalityI)
  fix i assume "i < length (write_integer (accumulate bs (0 :: 'w word)))"
  then have i: "i < sizeof TYPE('w)" by simp
  show "write_integer (accumulate bs (0 :: 'w word)) ! i = bs ! i"
  proof (rule bit_word_eqI)
    fix j assume j: "j < LENGTH(8)"
    define m where "m = (sizeof TYPE('w) - 1 - i) * 8 + j"
    have m: "m < LENGTH('w)" "m div 8 = sizeof TYPE('w) - 1 - i" "m mod 8 = j"
      using i j octets by (simp_all add: m_def)
    have "bit (write_integer (accumulate bs (0 :: 'w word)) ! i) j =
        bit (accumulate bs (0 :: 'w word)) m"
      using i j by (simp add: write_integer_nth bit_ucast_iff bit_drop_bit_eq m_def)
    also have "\<dots> = bit (bs ! i) j"
      using i assms octets m by (subst bit_accumulate [OF m(1)]) simp
    finally show "bit (write_integer (accumulate bs (0 :: 'w word)) ! i) j = bit (bs ! i) j" .
  qed
qed (simp add: assms)

subsection \<open>The parser accepts what the writer writes\<close>

lemma feed_integer:
  assumes "bytes_received p < sizeof TYPE('w)"
  shows "feed integer_parse_byte (p :: 'w integer_parser) bs = Done v rest \<longleftrightarrow>
    (\<exists>xs. length xs = sizeof TYPE('w) - bytes_received p \<and> bs = xs @ rest \<and>
      v = accumulate xs (int_result p))"
  using assms
proof (induction bs arbitrary: p)
  case (Cons b bs)
  define p' where "p' = p\<lparr>int_result := push_bit 8 (int_result p) OR ucast b,
    bytes_received := Suc (bytes_received p)\<rparr>"
  show ?case
  proof (cases "Suc (bytes_received p) = sizeof TYPE('w)")
    case True
    then have "sizeof TYPE('w) - bytes_received p = Suc 0" by simp
    with True show ?thesis
      by (auto simp: integer_parse_byte_last length_Suc_conv)
  next
    case False
    then have "bytes_received p' < sizeof TYPE('w)"
      using Cons.prems by (simp add: p'_def)
    note IH = Cons.IH [OF this]
    have "sizeof TYPE('w) - bytes_received p = Suc (sizeof TYPE('w) - bytes_received p')"
      using Cons.prems by (simp add: p'_def)
    then have "(\<exists>xs. length xs = sizeof TYPE('w) - bytes_received p \<and> b # bs = xs @ rest \<and>
        v = accumulate xs (int_result p)) \<longleftrightarrow>
      (\<exists>xs. length xs = sizeof TYPE('w) - bytes_received p' \<and> bs = xs @ rest \<and>
        v = accumulate xs (int_result p'))"
      by (auto simp: length_Suc_conv p'_def Cons_eq_append_conv)
    with IH False show ?thesis
      by (simp add: integer_parse_byte_more p'_def)
  qed
qed simp

sublocale integer: byte_parser integer_parser_init integer_parse_byte "\<lambda>_. True"
  "write_integer :: 'w word \<Rightarrow> bytes"
proof
  show "always_consumes (integer_parse_byte :: ('w integer_parser, 'w word) byte_step)"
    by (auto simp: always_consumes_def integer_parse_byte_def Let_def split: if_splits)
next
  fix bs rest and v :: "'w word"
  have "feed integer_parse_byte (integer_parser_init :: 'w integer_parser) bs = Done v rest \<longleftrightarrow>
      (\<exists>xs. length xs = sizeof TYPE('w) \<and> bs = xs @ rest \<and> v = accumulate xs 0)"
    by (subst feed_integer) (auto simp: integer_parser_init_def sizeof_pos)
  also have "\<dots> \<longleftrightarrow> bs = write_integer v @ rest"
    using accumulate_write_integer write_integer_accumulate by (metis length_write_integer)
  finally show "feed integer_parse_byte (integer_parser_init :: 'w integer_parser) bs = Done v rest
      \<longleftrightarrow> True \<and> bs = write_integer v @ rest" by simp
qed

text \<open>
  While it waits for more, the parser has seen fewer octets than the type has: the
  assertion at the start of \<open>parse_byte\<close> holds whenever a caller that stops at the first
  result feeds it another octet.
\<close>

lemma feed_integer_ready:
  "integer_parser_ready p \<Longrightarrow> feed integer_parse_byte (p :: 'w integer_parser) bs = Pending q \<Longrightarrow>
   integer_parser_ready q"
proof (induction bs arbitrary: p)
  case (Cons b bs)
  define p' where "p' = p\<lparr>int_result := push_bit 8 (int_result p) OR ucast b,
    bytes_received := Suc (bytes_received p)\<rparr>"
  from Cons.prems(2) have "Suc (bytes_received p) \<noteq> sizeof TYPE('w)"
    and "feed integer_parse_byte p' bs = Pending q"
    by (cases "Suc (bytes_received p) = sizeof TYPE('w)";
        simp add: integer_parse_byte_last integer_parse_byte_more p'_def)+
  with Cons.prems(1) Cons.IH [of p'] show ?case
    by (simp add: integer_parser_ready_def p'_def)
qed simp

end

interpretation uint8: octet_word "TYPE(8)"
  by unfold_locales (simp add: sizeof_def)

interpretation uint16: octet_word "TYPE(16)"
  by unfold_locales (simp add: sizeof_def)

interpretation uint32: octet_word "TYPE(32)"
  by unfold_locales (simp add: sizeof_def)

interpretation uint64: octet_word "TYPE(64)"
  by unfold_locales (simp add: sizeof_def)

end
