(* ===== verification/Variant_Parser.thy ===== *)
theory Variant_Parser
  imports Tuple_Parser Integer_Parser
begin

text \<open>
  \<open>warpcoil/cpp/variant_parser.hpp\<close>: one octet with the index of the alternative, then the
  alternative read by its own parser. \<open>Si::variant<parsing_index, ElementParsers...>\<close> is the
  datatype below; the state and the result carry the position of the alternative in the
  template's parameter list. An \<open>Si::variant\<close> holds one of
  its alternatives, so the branch for a position out of range is never taken. (\<open>Si::variant\<close> itself finds an alternative by its C++ type,
  which is the same position where the alternatives have distinct types.)
\<close>

datatype 's variant_parser =
    Variant_index "8 integer_parser"
  | Variant_element nat 's

definition variant_parser_init :: "'s variant_parser" where
  "variant_parser_init = Variant_index integer_parser_init"

fun variant_parse_byte ::
  "('s, 'r) parser_class list \<Rightarrow> ('s variant_parser, nat \<times> 'r) byte_step" where
  "variant_parse_byte classes (Variant_index state) input =
     (case integer_parse_byte state input of
        (Parse_complete index c, state') \<Rightarrow>
          (if unat index \<ge> length classes then (Invalid_input, Variant_index state')
           else (Need_more_input,
                 Variant_element (unat index) (class_init (classes ! unat index))))
      | (Need_more_input, state') \<Rightarrow> (Need_more_input, Variant_index state')
      | (Invalid_input, state') \<Rightarrow> (Invalid_input, Variant_index state'))"
| "variant_parse_byte classes (Variant_element i state) input =
     (if i < length classes
      then (case class_parse (classes ! i) state input of
          (Parse_complete parsed c, state') \<Rightarrow> (Parse_complete (i, parsed) c, Variant_element i state')
        | (Need_more_input, state') \<Rightarrow> (Need_more_input, Variant_element i state')
        | (Invalid_input, state') \<Rightarrow> (Invalid_input, Variant_element i state'))
      else (Invalid_input, Variant_element i state))"

definition variant_encode :: "('r \<Rightarrow> bytes) list \<Rightarrow> nat \<times> 'r \<Rightarrow> bytes" where
  "variant_encode encodes iv = write_integer (of_nat (fst iv) :: u8) @ (encodes ! fst iv) (snd iv)"

definition variant_valid :: "('r \<Rightarrow> bool) list \<Rightarrow> nat \<times> 'r \<Rightarrow> bool" where
  "variant_valid valids iv \<longleftrightarrow>
     fst iv < length valids \<and> fst iv < 256 \<and> (valids ! fst iv) (snd iv)"

lemma variant_consumes:
  assumes "\<And>i. i < length classes \<Longrightarrow> always_consumes (class_parse (classes ! i))"
  shows "always_consumes (variant_parse_byte classes)"
proof
  fix s b r c s'
  assume "variant_parse_byte classes s b = (Parse_complete r c, s')"
  with assms show "c = Consumed"
    by (cases s) (auto split: parse_result.splits prod.splits if_splits dest: always_consumesD)
qed

locale variant_over =
  fixes classes :: "('s, 'r) parser_class list"
    and valids :: "('r \<Rightarrow> bool) list"
    and encodes :: "('r \<Rightarrow> bytes) list"
  assumes lengths: "length valids = length classes" "length encodes = length classes"
    and elements: "i < length classes \<Longrightarrow>
      byte_parser (class_init (classes ! i)) (class_parse (classes ! i)) (valids ! i) (encodes ! i)"
begin

lemma consuming: "i < length classes \<Longrightarrow> always_consumes (class_parse (classes ! i))"
  using elements byte_parser.consumes by fast

lemma delegates_index:
  "delegates (variant_parse_byte classes) Variant_index integer_parse_byte
     (\<lambda>index. if unat index \<ge> length classes then (Invalid_input, variant_parser_init)
              else (Need_more_input, Variant_element (unat index) (class_init (classes ! unat index))))"
  by (intro delegatesI) auto

lemma delegates_element:
  "i < length classes \<Longrightarrow> delegates (variant_parse_byte classes) (Variant_element i) (class_parse (classes ! i))
     (\<lambda>v. (Parse_complete (i, v) Consumed, variant_parser_init))"
  using consuming [of i] by (intro delegatesI) (auto dest: always_consumesD)

lemma feed_variant_element:
  assumes "i < length classes"
  shows "feed (variant_parse_byte classes) (Variant_element i (class_init (classes ! i))) bs = Done iv rest
    \<longleftrightarrow> (\<exists>v. iv = (i, v) \<and> (valids ! i) v \<and> bs = (encodes ! i) v @ rest)"
proof -
  have "feed (variant_parse_byte classes) (Variant_element i (class_init (classes ! i))) bs = Done iv rest
    \<longleftrightarrow> (\<exists>v. iv = (i, v) \<and> feed (class_parse (classes ! i)) (class_init (classes ! i)) bs = Done v rest)"
    by (subst feed_delegates [OF delegates_element consuming])
      (use assms in \<open>cases "feed (class_parse (classes ! i)) (class_init (classes ! i)) bs"; auto\<close>)+
  then show ?thesis
    using byte_parser.accepts [OF elements [OF assms]] by simp
qed

lemma accepts_variant:
  "feed (variant_parse_byte classes) variant_parser_init bs = Done iv rest \<longleftrightarrow>
   variant_valid valids iv \<and> bs = variant_encode encodes iv @ rest"
proof -
  have "feed (variant_parse_byte classes) variant_parser_init bs = Done iv rest \<longleftrightarrow>
    (\<exists>index :: u8. feed integer_parse_byte integer_parser_init bs =
        Done index ((encodes ! unat index) (snd iv) @ rest) \<and>
      unat index < length classes \<and> fst iv = unat index \<and> (valids ! unat index) (snd iv))"
    unfolding variant_parser_init_def
    by (subst feed_delegates [OF delegates_index uint8.integer.consumes])
      (cases "feed integer_parse_byte (integer_parser_init :: 8 integer_parser) bs";
        cases iv; auto simp: feed_variant_element not_le split: if_splits)+
  also have "\<dots> \<longleftrightarrow> (\<exists>index :: u8. bs = write_integer index @ (encodes ! fst iv) (snd iv) @ rest \<and>
      fst iv < length classes \<and> fst iv = unat index \<and> (valids ! fst iv) (snd iv))"
    unfolding uint8.integer.accepts by metis
  also have "\<dots> \<longleftrightarrow> bs = write_integer (of_nat (fst iv) :: u8) @ (encodes ! fst iv) (snd iv) @ rest \<and>
      fst iv < length classes \<and> fst iv < 256 \<and> (valids ! fst iv) (snd iv)"
    using ex_u8_unat_iff [of "\<lambda>index. bs = write_integer index @
      (encodes ! fst iv) (snd iv) @ rest" "fst iv"] by auto
  finally show ?thesis
    using lengths by (auto simp: variant_valid_def variant_encode_def)
qed

sublocale variant: byte_parser variant_parser_init "variant_parse_byte classes"
  "variant_valid valids" "variant_encode encodes"
proof
  show "always_consumes (variant_parse_byte classes)"
    by (intro variant_consumes consuming)
qed (rule accepts_variant)

lemma variant_contract:
  "byte_parser variant_parser_init (variant_parse_byte classes) (variant_valid valids)
     (variant_encode encodes)"
  by (rule variant.byte_parser_axioms)

end

end
