(* ===== verification/Parser_Types.thy ===== *)
theory Parser_Types
  imports Wire_Types Utf8_Parser Vector_Parser Tuple_Parser Variant_Parser
begin

text \<open>
  The parser class that the generator composes for a wire type
  (\<open>warpcoil/cpp/generate/generate_parser_type.hpp\<close>, and the specialisations of
  \<open>structure_parser\<close> written by \<open>shared_code_generator::require_structure\<close>), and the values
  these parsers deliver.
  \<^item> \<open>parser_type\<close> is a template instantiation such as
    \<open>vector_parser<integer_parser<std::uint8_t>, tuple_parser<>>\<close>; \<open>parser_type_of\<close> is the
    instantiation \<open>generate_parser_type\<close> writes for a wire type.
  \<^item> \<open>parser_class_of\<close> is the class that instantiation names: its default constructed
    state, its \<open>parse_byte\<close> and its \<open>check_for_immediate_completion\<close>.
  \<^item> \<open>wire_value\<close> is a value of any of the generated C++ types.
  The result of the theory is that every parser class without empty tuples inside
  satisfies the contract \<open>byte_parser\<close> with the encoding \<open>encode\<close> of the wire protocol.
\<close>

subsection \<open>Types\<close>

datatype uint_type = Uint8 | Uint16 | Uint32 | Uint64

datatype parser_type =
    P_integer uint_type
  | P_variant "parser_type list"
  | P_tuple "parser_type list"
  | P_vector uint_type parser_type
  | P_utf8 uint_type
  | P_structure ident "parser_type list"

text \<open>
  The width chosen by \<open>generate_parser_type\<close> for an integer, and the one chosen by
  \<open>find_suitable_uint_cpp_type\<close> for its C++ type (and thus by the serialisation).
\<close>

definition parser_bits :: "integer_range \<Rightarrow> uint_type" where
  "parser_bits parsed =
     (if maximum parsed \<le> 0xff then Uint8
      else if maximum parsed \<le> 0xffff then Uint16
      else if maximum parsed \<le> 0xffffffff then Uint32
      else Uint64)"

definition find_suitable_uint_cpp_type :: "integer_range \<Rightarrow> uint_type" where
  "find_suitable_uint_cpp_type r =
     (if maximum r \<le> 0xff then Uint8
      else if maximum r \<le> 0xffff then Uint16
      else if maximum r \<le> 0xffffffff then Uint32
      else Uint64)"

definition generate_name_for_structure :: "wire_type structure_element list \<Rightarrow> ident" where
  "generate_name_for_structure elements =
     foldl (\<lambda>name e. name @ ''_'' @ element_name e) ''structure_to_do'' elements"

primrec parser_type_of :: "wire_type \<Rightarrow> parser_type" where
  "parser_type_of (Integer parsed) = P_integer (parser_bits parsed)"
| "parser_type_of (Variant elements) = P_variant (map parser_type_of elements)"
| "parser_type_of (Tuple elements) = P_tuple (map parser_type_of elements)"
| "parser_type_of (Vector len element) = P_vector (parser_bits len) (parser_type_of element)"
| "parser_type_of (Utf8 code_units) = P_utf8 (parser_bits code_units)"
| "parser_type_of (Structure elements) =
     P_structure (generate_name_for_structure elements)
       (map what (map (map_structure_element parser_type_of) elements))"

subsection \<open>Values and parser states\<close>

datatype wire_value =
    V_uint8 (the_uint8: u8)
  | V_uint16 (the_uint16: u16)
  | V_uint32 (the_uint32: u32)
  | V_uint64 (the_uint64: u64)
  | V_string (the_string: bytes)
  | V_vector (the_vector: "wire_value list")
  | V_tuple (the_tuple: "wire_value list")
  | V_variant nat wire_value
  | V_structure (the_structure: "wire_value list")

datatype parser_state =
    S_uint8 "8 integer_parser"
  | S_uint16 "16 integer_parser"
  | S_uint32 "32 integer_parser"
  | S_uint64 "64 integer_parser"
  | S_utf8 "parser_state utf8_parser"
  | S_vector "(parser_state, parser_state, wire_value) vector_parser"
  | S_tuple "(parser_state, wire_value) tuple_parser"
  | S_variant "parser_state variant_parser"
  | S_empty

type_synonym value_class = "(parser_state, wire_value) parser_class"

text \<open>Unsigned values as numbers; other values never occur where a number is needed.\<close>

primrec value_size :: "wire_value \<Rightarrow> nat" where
  "value_size (V_uint8 n) = unat n"
| "value_size (V_uint16 n) = unat n"
| "value_size (V_uint32 n) = unat n"
| "value_size (V_uint64 n) = unat n"
| "value_size (V_string s) = 0"
| "value_size (V_vector vs) = 0"
| "value_size (V_tuple vs) = 0"
| "value_size (V_variant i v) = 0"
| "value_size (V_structure vs) = 0"

primrec uint_value :: "uint_type \<Rightarrow> nat \<Rightarrow> wire_value" where
  "uint_value Uint8 n = V_uint8 (of_nat n)"
| "uint_value Uint16 n = V_uint16 (of_nat n)"
| "uint_value Uint32 n = V_uint32 (of_nat n)"
| "uint_value Uint64 n = V_uint64 (of_nat n)"

primrec is_uint :: "uint_type \<Rightarrow> wire_value \<Rightarrow> bool" where
  "is_uint Uint8 v = is_V_uint8 v"
| "is_uint Uint16 v = is_V_uint16 v"
| "is_uint Uint32 v = is_V_uint32 v"
| "is_uint Uint64 v = is_V_uint64 v"

primrec uint_encode :: "uint_type \<Rightarrow> wire_value \<Rightarrow> bytes" where
  "uint_encode Uint8 v = write_integer (the_uint8 v)"
| "uint_encode Uint16 v = write_integer (the_uint16 v)"
| "uint_encode Uint32 v = write_integer (the_uint32 v)"
| "uint_encode Uint64 v = write_integer (the_uint64 v)"

primrec uint_bits :: "uint_type \<Rightarrow> nat" where
  "uint_bits Uint8 = 8"
| "uint_bits Uint16 = 16"
| "uint_bits Uint32 = 32"
| "uint_bits Uint64 = 64"

text \<open>The value-initialised results that a tuple parser starts from.\<close>

primrec default_value :: "parser_type \<Rightarrow> wire_value" where
  "default_value (P_integer u) = uint_value u 0"
| "default_value (P_variant ts) = V_variant 0 (hd (map default_value ts))"
| "default_value (P_tuple ts) = V_tuple (map default_value ts)"
| "default_value (P_vector u t) = V_vector []"
| "default_value (P_utf8 u) = V_string []"
| "default_value (P_structure n ts) = V_structure (map default_value ts)"

subsection \<open>The composed parser classes\<close>

definition never_immediate :: "'s \<Rightarrow> 'r option" where
  "never_immediate s = None"

primrec integer_class :: "uint_type \<Rightarrow> value_class" where
  "integer_class Uint8 = Parser_class (S_uint8 integer_parser_init)
     (wrap_parse S_uint8 (\<lambda>s. case s of S_uint8 p \<Rightarrow> Some p | _ \<Rightarrow> None) V_uint8 integer_parse_byte)
     never_immediate"
| "integer_class Uint16 = Parser_class (S_uint16 integer_parser_init)
     (wrap_parse S_uint16 (\<lambda>s. case s of S_uint16 p \<Rightarrow> Some p | _ \<Rightarrow> None) V_uint16 integer_parse_byte)
     never_immediate"
| "integer_class Uint32 = Parser_class (S_uint32 integer_parser_init)
     (wrap_parse S_uint32 (\<lambda>s. case s of S_uint32 p \<Rightarrow> Some p | _ \<Rightarrow> None) V_uint32 integer_parse_byte)
     never_immediate"
| "integer_class Uint64 = Parser_class (S_uint64 integer_parser_init)
     (wrap_parse S_uint64 (\<lambda>s. case s of S_uint64 p \<Rightarrow> Some p | _ \<Rightarrow> None) V_uint64 integer_parse_byte)
     never_immediate"

definition utf8_class :: "(bytes \<Rightarrow> bool) \<Rightarrow> uint_type \<Rightarrow> value_class" where
  "utf8_class is_valid u = Parser_class (S_utf8 (utf8_parser_init (class_init (integer_class u))))
     (wrap_parse S_utf8 (\<lambda>s. case s of S_utf8 p \<Rightarrow> Some p | _ \<Rightarrow> None) V_string
        (utf8_parse_byte is_valid (class_parse (integer_class u)) value_size))
     never_immediate"

definition vector_class :: "uint_type \<Rightarrow> value_class \<Rightarrow> value_class" where
  "vector_class u element = Parser_class (S_vector (vector_parser_init (class_init (integer_class u))))
     (wrap_parse S_vector (\<lambda>s. case s of S_vector p \<Rightarrow> Some p | _ \<Rightarrow> None) V_vector
        (vector_parse_byte (class_parse (integer_class u)) value_size
           (class_init element) (class_parse element)))
     never_immediate"

definition empty_tuple_class :: "(wire_value list \<Rightarrow> wire_value) \<Rightarrow> value_class" where
  "empty_tuple_class f = Parser_class S_empty
     (wrap_parse id Some f empty_tuple_parse_byte)
     (\<lambda>s. map_option f (empty_tuple_check_for_immediate_completion s))"

definition tuple_class ::
  "(wire_value list \<Rightarrow> wire_value) \<Rightarrow> value_class list \<Rightarrow> wire_value list \<Rightarrow> value_class" where
  "tuple_class f elements defaults =
     (if elements = [] then empty_tuple_class f
      else Parser_class (S_tuple (tuple_parser_init elements defaults))
        (wrap_parse S_tuple (\<lambda>s. case s of S_tuple p \<Rightarrow> Some p | _ \<Rightarrow> None) f
           (basic_tuple_parse_byte elements))
        (\<lambda>s. case s of
             S_tuple p \<Rightarrow> map_option f (basic_tuple_check_for_immediate_completion elements p)
           | _ \<Rightarrow> None))"

definition variant_class :: "value_class list \<Rightarrow> value_class" where
  "variant_class elements = Parser_class (S_variant variant_parser_init)
     (wrap_parse S_variant (\<lambda>s. case s of S_variant p \<Rightarrow> Some p | _ \<Rightarrow> None)
        (\<lambda>(i, v). V_variant i v) (variant_parse_byte elements))
     never_immediate"

primrec parser_class_of :: "(bytes \<Rightarrow> bool) \<Rightarrow> parser_type \<Rightarrow> value_class" where
  "parser_class_of is_valid (P_integer u) = integer_class u"
| "parser_class_of is_valid (P_variant ts) = variant_class (map (parser_class_of is_valid) ts)"
| "parser_class_of is_valid (P_tuple ts) =
     tuple_class V_tuple (map (parser_class_of is_valid) ts) (map default_value ts)"
| "parser_class_of is_valid (P_vector u t) = vector_class u (parser_class_of is_valid t)"
| "parser_class_of is_valid (P_utf8 u) = utf8_class is_valid u"
| "parser_class_of is_valid (P_structure n ts) =
     tuple_class V_structure (map (parser_class_of is_valid) ts) (map default_value ts)"

subsection \<open>The wire format\<close>

primrec encode :: "parser_type \<Rightarrow> wire_value \<Rightarrow> bytes" where
  "encode (P_integer u) v = uint_encode u v"
| "encode (P_variant ts) v =
     (case v of V_variant i w \<Rightarrow> variant_encode (map encode ts) (i, w) | _ \<Rightarrow> [])"
| "encode (P_tuple ts) v = tuple_encode (map encode ts) (the_tuple v)"
| "encode (P_vector u t) v = vector_encode (uint_encode u) (uint_value u) (encode t) (the_vector v)"
| "encode (P_utf8 u) v = utf8_encode (uint_encode u) (uint_value u) (the_string v)"
| "encode (P_structure n ts) v = tuple_encode (map encode ts) (the_structure v)"

definition size_fits :: "uint_type \<Rightarrow> nat \<Rightarrow> bool" where
  "size_fits u n \<longleftrightarrow> n < 2 ^ uint_bits u"

primrec value_ok :: "(bytes \<Rightarrow> bool) \<Rightarrow> parser_type \<Rightarrow> wire_value \<Rightarrow> bool" where
  "value_ok is_valid (P_integer u) v = is_uint u v"
| "value_ok is_valid (P_variant ts) v =
     (case v of V_variant i w \<Rightarrow> variant_valid (map (value_ok is_valid) ts) (i, w) | _ \<Rightarrow> False)"
| "value_ok is_valid (P_tuple ts) v =
     (is_V_tuple v \<and> tuple_valid (map (value_ok is_valid) ts) (the_tuple v))"
| "value_ok is_valid (P_vector u t) v =
     (is_V_vector v \<and> vector_valid (size_fits u) (value_ok is_valid t) (the_vector v))"
| "value_ok is_valid (P_utf8 u) v =
     (is_V_string v \<and> utf8_valid is_valid (size_fits u) (the_string v))"
| "value_ok is_valid (P_structure n ts) v =
     (is_V_structure v \<and> tuple_valid (map (value_ok is_valid) ts) (the_structure v))"

text \<open>Types whose values all take at least one octet: no empty tuple or structure inside.\<close>

primrec no_empty :: "parser_type \<Rightarrow> bool" where
  "no_empty (P_integer u) = True"
| "no_empty (P_variant ts) = list_all id (map no_empty ts)"
| "no_empty (P_tuple ts) = (ts \<noteq> [] \<and> list_all id (map no_empty ts))"
| "no_empty (P_vector u t) = no_empty t"
| "no_empty (P_utf8 u) = True"
| "no_empty (P_structure n ts) = (ts \<noteq> [] \<and> list_all id (map no_empty ts))"

abbreviation class_contract ::
  "('s, 'r) parser_class \<Rightarrow> ('r \<Rightarrow> bool) \<Rightarrow> ('r \<Rightarrow> bytes) \<Rightarrow> bool" where
  "class_contract c valid enc \<equiv> byte_parser (class_init c) (class_parse c) valid enc"

lemma collapse_iff [simp]:
  "V_uint8 (the_uint8 v) = v \<longleftrightarrow> is_V_uint8 v"
  "V_uint16 (the_uint16 v) = v \<longleftrightarrow> is_V_uint16 v"
  "V_uint32 (the_uint32 v) = v \<longleftrightarrow> is_V_uint32 v"
  "V_uint64 (the_uint64 v) = v \<longleftrightarrow> is_V_uint64 v"
  "V_string (the_string v) = v \<longleftrightarrow> is_V_string v"
  "V_vector (the_vector v) = v \<longleftrightarrow> is_V_vector v"
  "V_tuple (the_tuple v) = v \<longleftrightarrow> is_V_tuple v"
  "V_structure (the_structure v) = v \<longleftrightarrow> is_V_structure v"
  by (cases v; simp)+

lemma integer_class_contract: "class_contract (integer_class u) (is_uint u) (uint_encode u)"
proof (cases u)
  case Uint8
  have "class_contract (integer_class Uint8) (\<lambda>v. V_uint8 (the_uint8 v) = v \<and> True)
      (\<lambda>v. write_integer (the_uint8 v))"
    using byte_parser_wrap [OF uint8.integer.byte_parser_axioms,
        of "\<lambda>s. case s of S_uint8 p \<Rightarrow> Some p | _ \<Rightarrow> None" S_uint8 the_uint8 V_uint8] by simp
  then show ?thesis
    unfolding Uint8 by (rule byte_parser_cong) simp_all
next
  case Uint16
  have "class_contract (integer_class Uint16) (\<lambda>v. V_uint16 (the_uint16 v) = v \<and> True)
      (\<lambda>v. write_integer (the_uint16 v))"
    using byte_parser_wrap [OF uint16.integer.byte_parser_axioms,
        of "\<lambda>s. case s of S_uint16 p \<Rightarrow> Some p | _ \<Rightarrow> None" S_uint16 the_uint16 V_uint16] by simp
  then show ?thesis
    unfolding Uint16 by (rule byte_parser_cong) simp_all
next
  case Uint32
  have "class_contract (integer_class Uint32) (\<lambda>v. V_uint32 (the_uint32 v) = v \<and> True)
      (\<lambda>v. write_integer (the_uint32 v))"
    using byte_parser_wrap [OF uint32.integer.byte_parser_axioms,
        of "\<lambda>s. case s of S_uint32 p \<Rightarrow> Some p | _ \<Rightarrow> None" S_uint32 the_uint32 V_uint32] by simp
  then show ?thesis
    unfolding Uint32 by (rule byte_parser_cong) simp_all
next
  case Uint64
  have "class_contract (integer_class Uint64) (\<lambda>v. V_uint64 (the_uint64 v) = v \<and> True)
      (\<lambda>v. write_integer (the_uint64 v))"
    using byte_parser_wrap [OF uint64.integer.byte_parser_axioms,
        of "\<lambda>s. case s of S_uint64 p \<Rightarrow> Some p | _ \<Rightarrow> None" S_uint64 the_uint64 V_uint64] by simp
  then show ?thesis
    unfolding Uint64 by (rule byte_parser_cong) simp_all
qed

lemma uint_value_size [simp]: "is_uint u n \<Longrightarrow> uint_value u (value_size n) = n"
  by (cases u; cases n) simp_all

text \<open>The integer classes are the length parsers of the model, for vectors and for strings alike.\<close>

interpretation uint_length: length_parser "class_init (integer_class u)" "class_parse (integer_class u)"
  "is_uint u" "uint_encode u" value_size "uint_value u" for u
  by (intro length_parser.intro integer_class_contract length_parser_axioms.intro uint_value_size)

interpretation uint_string: utf8_over_length "class_init (integer_class u)"
  "class_parse (integer_class u)" "is_uint u" "uint_encode u" value_size "uint_value u" is_valid
  for u is_valid
  by (intro utf8_over_length.intro uint_length.length_parser_axioms)

lemma representable_uint:
  "representable (is_uint u) value_size (uint_value u) = size_fits u"
proof
  fix n
  show "representable (is_uint u) value_size (uint_value u) n = size_fits u n"
    by (cases u) (simp_all add: representable_def size_fits_def unsigned_of_nat take_bit_nat_eq_self_iff)
qed

lemma utf8_class_contract:
  "class_contract (utf8_class is_valid u)
     (\<lambda>v. is_V_string v \<and> utf8_valid is_valid (size_fits u) (the_string v))
     (\<lambda>v. utf8_encode (uint_encode u) (uint_value u) (the_string v))"
proof -
  have "byte_parser (utf8_parser_init (class_init (integer_class u)))
      (utf8_parse_byte is_valid (class_parse (integer_class u)) value_size)
      (utf8_valid is_valid (size_fits u)) (utf8_encode (uint_encode u) (uint_value u))"
    using uint_string.utf8_contract [where is_valid = is_valid and u = u]
    unfolding representable_uint .
  then show ?thesis
    unfolding utf8_class_def parser_class.sel
    by (rule byte_parser_cong [OF byte_parser_wrap [where g = the_string]]) simp_all
qed

lemma vector_class_contract:
  assumes "class_contract c valid enc"
  shows "class_contract (vector_class u c)
     (\<lambda>v. is_V_vector v \<and> vector_valid (size_fits u) valid (the_vector v))
     (\<lambda>v. vector_encode (uint_encode u) (uint_value u) enc (the_vector v))"
proof -
  have "vector_over (class_init (integer_class u)) (class_parse (integer_class u)) (is_uint u)
      (uint_encode u) value_size (uint_value u) (class_init c) (class_parse c) valid enc"
    by (intro vector_over.intro uint_length.length_parser_axioms assms)
  then have "byte_parser (vector_parser_init (class_init (integer_class u)))
      (vector_parse_byte (class_parse (integer_class u)) value_size (class_init c) (class_parse c))
      (vector_valid (size_fits u) valid) (vector_encode (uint_encode u) (uint_value u) enc)"
    using vector_over.vector_contract by (metis representable_uint)
  then show ?thesis
    unfolding vector_class_def parser_class.sel
    by (rule byte_parser_cong [OF byte_parser_wrap [where g = the_vector]]) simp_all
qed

lemma tuple_class_contract:
  assumes "cs \<noteq> []" "length valids = length cs" "length encs = length cs" "length defaults = length cs"
    and "\<And>i. i < length cs \<Longrightarrow> class_contract (cs ! i) (valids ! i) (encs ! i)"
    and "\<And>vs. g (f vs) = vs"
  shows "class_contract (tuple_class f cs defaults)
     (\<lambda>v. f (g v) = v \<and> tuple_valid valids (g v)) (\<lambda>v. tuple_encode encs (g v))"
proof -
  have "tuple_over cs valids encs defaults"
    using assms by unfold_locales (auto simp: byte_parser_def)
  then have "byte_parser (tuple_parser_init cs defaults) (basic_tuple_parse_byte cs)
      (tuple_valid valids) (tuple_encode encs)"
    by (rule tuple_over.tuple_contract)
  then show ?thesis
    using assms(1,6) by (auto simp: tuple_class_def intro!: byte_parser_wrap)
qed

lemma variant_class_contract:
  assumes "length valids = length cs" "length encs = length cs"
    and "\<And>i. i < length cs \<Longrightarrow> class_contract (cs ! i) (valids ! i) (encs ! i)"
  shows "class_contract (variant_class cs)
     (\<lambda>v. case v of V_variant i w \<Rightarrow> variant_valid valids (i, w) | _ \<Rightarrow> False)
     (\<lambda>v. case v of V_variant i w \<Rightarrow> variant_encode encs (i, w) | _ \<Rightarrow> [])"
proof -
  define g :: "wire_value \<Rightarrow> nat \<times> wire_value" where
    "g v = (case v of V_variant i w \<Rightarrow> (i, w) | _ \<Rightarrow> (0, v))" for v
  have "variant_over cs valids encs"
    using assms by unfold_locales (auto simp: byte_parser_def)
  then have "byte_parser variant_parser_init (variant_parse_byte cs)
      (variant_valid valids) (variant_encode encs)"
    by (rule variant_over.variant_contract)
  then have "class_contract (variant_class cs)
      (\<lambda>v. (case g v of (i, w) \<Rightarrow> V_variant i w) = v \<and> variant_valid valids (g v))
      (\<lambda>v. variant_encode encs (g v))"
    unfolding variant_class_def parser_class.sel
    by (rule byte_parser_wrap) (auto simp: g_def)
  then show ?thesis
    by (rule byte_parser_cong) (auto simp: g_def split: wire_value.splits)
qed

text \<open>
  The template classes at the parameters the program itself instantiates them with: a vector of
  strings, the header of a request (identifier and method name), and a variant of two integers.
\<close>

interpretation string_vector: vector_over "class_init (integer_class u)" "class_parse (integer_class u)"
  "is_uint u" "uint_encode u" value_size "uint_value u"
  "class_init (utf8_class is_valid u')" "class_parse (utf8_class is_valid u')"
  "\<lambda>v. is_V_string v \<and> utf8_valid is_valid (size_fits u') (the_string v)"
  "\<lambda>v. utf8_encode (uint_encode u') (uint_value u') (the_string v)" for u u' is_valid
  by (intro vector_over.intro uint_length.length_parser_axioms utf8_class_contract)

interpretation request_header_tuple: tuple_over "[integer_class Uint64, utf8_class is_valid Uint8]"
  "[is_uint Uint64, \<lambda>v. is_V_string v \<and> utf8_valid is_valid (size_fits Uint8) (the_string v)]"
  "[uint_encode Uint64, \<lambda>v. utf8_encode (uint_encode Uint8) (uint_value Uint8) (the_string v)]"
  "[V_uint64 0, V_string []]" for is_valid
  by (rule tuple_over.intro)
    (auto simp del: integer_class.simps simp: less_Suc_eq numeral_2_eq_2
      intro: integer_class_contract utf8_class_contract)

interpretation integer_variant: variant_over "map integer_class us" "map is_uint us" "map uint_encode us"
  for us
  by (rule variant_over.intro) (simp_all add: integer_class_contract)

text \<open>Every composed parser class accepts exactly the wire format of its type.\<close>

lemma parser_class_contract:
  "no_empty p \<Longrightarrow>
   class_contract (parser_class_of is_valid p) (value_ok is_valid p) (encode p)"
proof (induction p)
  case (P_integer u)
  show ?case
    unfolding parser_class_of.simps
    by (rule byte_parser_cong [OF integer_class_contract]) simp_all
next
  case (P_variant ts)
  then have "class_contract (variant_class (map (parser_class_of is_valid) ts))
     (\<lambda>v. case v of V_variant i w \<Rightarrow> variant_valid (map (value_ok is_valid) ts) (i, w) | _ \<Rightarrow> False)
     (\<lambda>v. case v of V_variant i w \<Rightarrow> variant_encode (map encode ts) (i, w) | _ \<Rightarrow> [])"
    by (intro variant_class_contract) (auto simp: list_all_length)
  then show ?case
    unfolding parser_class_of.simps by (rule byte_parser_cong) simp_all
next
  case (P_tuple ts)
  then have "class_contract (tuple_class V_tuple (map (parser_class_of is_valid) ts) (map default_value ts))
     (\<lambda>v. V_tuple (the_tuple v) = v \<and> tuple_valid (map (value_ok is_valid) ts) (the_tuple v))
     (\<lambda>v. tuple_encode (map encode ts) (the_tuple v))"
    by (intro tuple_class_contract) (auto simp: list_all_length)
  then show ?case
    unfolding parser_class_of.simps by (rule byte_parser_cong) simp_all
next
  case (P_vector u t)
  then show ?case
    unfolding parser_class_of.simps
    by (intro byte_parser_cong [OF vector_class_contract]) simp_all
next
  case (P_utf8 u)
  show ?case
    unfolding parser_class_of.simps by (rule byte_parser_cong [OF utf8_class_contract]) simp_all
next
  case (P_structure n ts)
  then have "class_contract
     (tuple_class V_structure (map (parser_class_of is_valid) ts) (map default_value ts))
     (\<lambda>v. V_structure (the_structure v) = v \<and> tuple_valid (map (value_ok is_valid) ts) (the_structure v))
     (\<lambda>v. tuple_encode (map encode ts) (the_structure v))"
    by (intro tuple_class_contract) (auto simp: list_all_length)
  then show ?case
    unfolding parser_class_of.simps by (rule byte_parser_cong) simp_all
qed

end
