(* ===== verification/Begin_Parse_Value.thy ===== *)
theory Begin_Parse_Value
  imports Parser_Types
begin

text \<open>
  \<open>warpcoil/cpp/begin_parse_value.hpp\<close>: the asynchronous operation that feeds a parser from
  a receive buffer and starts a read of up to 512 octets whenever the buffer is used up.
  \<open>beast::streambuf\<close> is its readable octets: \<open>data()\<close> lists them in order (in one or more
  pieces), \<open>consume\<close> drops from the front, \<open>commit\<close> appends what a read has delivered.
  \<open>start\<close> returns what it does last: a call of the result handler, directly or through
  \<open>asio_handler_invoke\<close>, or the start of a read.
\<close>

record 's parse_operation =
  receive_buffer :: bytes
  parser :: 's

datatype invocation = Direct | Via_asio_handler_invoke

datatype 'r parse_event =
    On_result invocation "error_code + 'r"
  | Async_read_some nat

datatype 'r loop_exit = Loop_complete 'r | Loop_invalid | Loop_more

text \<open>The loop over the octets in the buffer, with the counter \<open>consumed\<close>.\<close>

fun parse_loop :: "('s, 'r) byte_step \<Rightarrow> 's \<Rightarrow> bytes \<Rightarrow> nat \<Rightarrow> 's \<times> nat \<times> 'r loop_exit" where
  "parse_loop parse s [] consumed = (s, consumed, Loop_more)"
| "parse_loop parse s (b # bs) consumed =
     (case parse s b of
        (Parse_complete r c, s') \<Rightarrow>
          (s', (case c of Consumed \<Rightarrow> consumed + 1 | Does_not_consume \<Rightarrow> consumed), Loop_complete r)
      | (Need_more_input, s') \<Rightarrow> parse_loop parse s' bs (consumed + 1)
      | (Invalid_input, s') \<Rightarrow> (s', consumed, Loop_invalid))"

definition start ::
  "('s, 'r) parser_class \<Rightarrow> bool \<Rightarrow> 's parse_operation \<Rightarrow> 's parse_operation \<times> 'r parse_event" where
  "start c is_surely_called_in_handler_context op =
     (let invoke = (if is_surely_called_in_handler_context then Direct else Via_asio_handler_invoke)
      in case class_immediate c (parser op) of
           Some completed \<Rightarrow> (op, On_result invoke (Inr completed))
         | None \<Rightarrow>
             (case parse_loop (class_parse c) (parser op) (receive_buffer op) 0 of
                (s, consumed, Loop_complete message) \<Rightarrow>
                  (op\<lparr>receive_buffer := drop consumed (receive_buffer op), parser := s\<rparr>,
                   On_result invoke (Inr message))
              | (s, consumed, Loop_invalid) \<Rightarrow>
                  (op\<lparr>parser := s\<rparr>, On_result invoke (Inl Invalid_input_error))
              | (s, consumed, Loop_more) \<Rightarrow>
                  (op\<lparr>receive_buffer := drop consumed (receive_buffer op), parser := s\<rparr>,
                   Async_read_some 512)))"

text \<open>\<open>operator()(error_code ec, std::size_t read)\<close>, the completion handler of the read.\<close>

definition on_read ::
  "('s, 'r) parser_class \<Rightarrow> error_code option \<Rightarrow> bytes \<Rightarrow> 's parse_operation \<Rightarrow>
    's parse_operation \<times> 'r parse_event" where
  "on_read c ec read op =
     (case ec of
        Some e \<Rightarrow> (op, On_result Direct (Inl e))
      | None \<Rightarrow> start c True (op\<lparr>receive_buffer := receive_buffer op @ read\<rparr>))"

definition begin_parse_value ::
  "('s, 'r) parser_class \<Rightarrow> bytes \<Rightarrow> 's parse_operation \<times> 'r parse_event" where
  "begin_parse_value c buffer = start c False \<lparr>receive_buffer = buffer, parser = class_init c\<rparr>"

text \<open>
  A whole operation against the completions of its reads, in order; the third component is
  the reads that were never asked for.
\<close>

fun run_reads ::
  "('s, 'r) parser_class \<Rightarrow> 's parse_operation \<times> 'r parse_event \<Rightarrow> (error_code option \<times> bytes) list \<Rightarrow>
    's parse_operation \<times> 'r parse_event \<times> (error_code option \<times> bytes) list" where
  "run_reads c (op, On_result i r) reads = (op, On_result i r, reads)"
| "run_reads c (op, Async_read_some n) [] = (op, Async_read_some n, [])"
| "run_reads c (op, Async_read_some n) ((ec, read) # reads) = run_reads c (on_read c ec read op) reads"

abbreviation delivered :: "bytes list \<Rightarrow> (error_code option \<times> bytes) list" where
  "delivered chunks \<equiv> map (Pair None) chunks"

text \<open>
  \<open>reached_by c bs s\<close>: the parser has seen \<open>bs\<close>, wants more and is now in the state \<open>s\<close>. A
  class of the second kind has nothing to deliver before an octet arrives.
\<close>

definition reached_by :: "('s, 'r) parser_class \<Rightarrow> bytes \<Rightarrow> 's \<Rightarrow> bool" where
  "reached_by c bs s \<longleftrightarrow> feed (class_parse c) (class_init c) bs = Pending s"

definition never_completes_immediately :: "('s, 'r) parser_class \<Rightarrow> bool" where
  "never_completes_immediately c \<longleftrightarrow> (\<forall>bs s. reached_by c bs s \<longrightarrow> class_immediate c s = None)"

lemma reached_by_init: "reached_by c [] (class_init c)"
  by (simp add: reached_by_def)

lemma reached_by_append:
  "reached_by c xs s \<Longrightarrow> feed (class_parse c) s ys = Pending s' \<Longrightarrow> reached_by c (xs @ ys) s'"
  by (simp add: reached_by_def feed_append)

lemma parse_loop_feed:
  "case feed parse s bs of
     Done r rest \<Rightarrow> \<exists>s' k. parse_loop parse s bs n = (s', n + k, Loop_complete r) \<and> rest = drop k bs
   | Failed \<Rightarrow> \<exists>s' k. parse_loop parse s bs n = (s', k, Loop_invalid)
   | Pending s' \<Rightarrow> parse_loop parse s bs n = (s', n + length bs, Loop_more)"
proof (induction bs arbitrary: s n)
  case (Cons b bs)
  obtain res s' where step: "parse s b = (res, s')" by (cases "parse s b")
  show ?case
  proof (cases res)
    case (Parse_complete r c)
    show ?thesis
    proof (cases c)
      case Consumed
      with step Parse_complete show ?thesis by (auto intro!: exI [of _ 1])
    next
      case Does_not_consume
      with step Parse_complete show ?thesis by (auto intro!: exI [of _ 0])
    qed
  next
    case Need_more_input
    with step Cons.IH [of s' "Suc n"] show ?thesis
      by (auto split: feed_result.splits)
  next
    case Invalid_input
    with step show ?thesis by simp
  qed
qed simp

lemma start_feed:
  assumes "never_completes_immediately c" and "reached_by c seen (parser op)"
  shows "case feed (class_parse c) (parser op) (receive_buffer op) of
     Done r rest \<Rightarrow> \<exists>s'. start c sure op =
       (\<lparr>receive_buffer = rest, parser = s'\<rparr>,
        On_result (if sure then Direct else Via_asio_handler_invoke) (Inr r))
   | Failed \<Rightarrow> \<exists>s'. start c sure op =
       (\<lparr>receive_buffer = receive_buffer op, parser = s'\<rparr>,
        On_result (if sure then Direct else Via_asio_handler_invoke) (Inl Invalid_input_error))
   | Pending s' \<Rightarrow> start c sure op = (\<lparr>receive_buffer = [], parser = s'\<rparr>, Async_read_some 512)"
  using parse_loop_feed [of "class_parse c" "parser op" "receive_buffer op" 0] assms
  by (cases op) (auto simp: start_def never_completes_immediately_def split: feed_result.splits)

text \<open>
  The specification: the outcome is that of feeding everything the buffer and the reads
  hold, in one piece.
\<close>

lemma run_reads_feed:
  assumes "never_completes_immediately c"
  shows "reached_by c seen (parser op) \<Longrightarrow>
    case feed (class_parse c) (parser op) (receive_buffer op @ concat chunks) of
     Done r rest \<Rightarrow> \<exists>op' i unread. run_reads c (start c sure op) (delivered chunks) =
         (op', On_result i (Inr r), delivered unread) \<and> receive_buffer op' @ concat unread = rest
   | Failed \<Rightarrow> \<exists>op' i unread. run_reads c (start c sure op) (delivered chunks) =
         (op', On_result i (Inl Invalid_input_error), delivered unread)
   | Pending s' \<Rightarrow> run_reads c (start c sure op) (delivered chunks) =
         (\<lparr>receive_buffer = [], parser = s'\<rparr>, Async_read_some 512, [])"
proof (induction chunks arbitrary: seen op sure)
  case Nil
  show ?case
    using start_feed [OF assms Nil, of sure] by (auto split: feed_result.splits)
next
  case (Cons chunk chunks)
  show ?case
  proof (cases "feed (class_parse c) (parser op) (receive_buffer op)")
    case (Pending s')
    then have "start c sure op = (\<lparr>receive_buffer = [], parser = s'\<rparr>, Async_read_some 512)"
      using start_feed [OF assms Cons.prems, of sure] by simp
    then have run: "run_reads c (start c sure op) (delivered (chunk # chunks)) =
        run_reads c (start c True \<lparr>receive_buffer = chunk, parser = s'\<rparr>) (delivered chunks)"
      by (simp add: on_read_def)
    have "feed (class_parse c) (parser op) (receive_buffer op @ concat (chunk # chunks)) =
        feed (class_parse c) s' (chunk @ concat chunks)"
      using Pending by (simp add: feed_append)
    moreover have "reached_by c (seen @ receive_buffer op) s'"
      using Cons.prems Pending by (rule reached_by_append)
    ultimately show ?thesis
      using Cons.IH [where op = "\<lparr>receive_buffer = chunk, parser = s'\<rparr>" and sure = True]
      unfolding run by simp
  next
    case (Done r rest)
    then obtain s' where "start c sure op = (\<lparr>receive_buffer = rest, parser = s'\<rparr>,
        On_result (if sure then Direct else Via_asio_handler_invoke) (Inr r))"
      using start_feed [OF assms Cons.prems, of sure] by auto
    with Done show ?thesis
      by (auto simp: feed_append intro!: exI [of _ "chunk # chunks"])
  next
    case Failed
    then obtain s' where "start c sure op = (\<lparr>receive_buffer = receive_buffer op, parser = s'\<rparr>,
        On_result (if sure then Direct else Via_asio_handler_invoke) (Inl Invalid_input_error))"
      using start_feed [OF assms Cons.prems, of sure] by auto
    with Failed show ?thesis
      by (auto simp: feed_append intro!: exI [of _ "chunk # chunks"])
  qed
qed

subsection \<open>The composed parser classes\<close>

lemma feed_single_element:
  "feed (basic_tuple_parse_byte [c]) (Tuple_parser 0 s res) bs = Pending q \<Longrightarrow>
   \<exists>s'. q = Tuple_parser 0 s' res \<and> feed (class_parse c) s bs = Pending s'"
proof (induction bs arbitrary: s)
  case (Cons b bs)
  then show ?case
    by (cases "class_parse c s b"; cases "fst (class_parse c s b)")
      (auto simp: basic_tuple_parse_byte_def indexed_parse_def go_to_next_state_def
        split: input_consumption.splits)
qed simp

lemma tuple_never_immediate:
  assumes "cs \<noteq> []" and "\<And>c. c \<in> set cs \<Longrightarrow> never_completes_immediately c"
  shows "never_completes_immediately (tuple_class f cs defaults)"
  unfolding never_completes_immediately_def
proof (intro allI impI)
  fix bs s
  assume "reached_by (tuple_class f cs defaults) bs s"
  with assms(1) obtain q where s: "s = S_tuple q"
    and q: "feed (basic_tuple_parse_byte cs) (tuple_parser_init cs defaults) bs = Pending q"
    by (auto simp: reached_by_def tuple_class_def feed_wrap_parse [where wrap = S_tuple])
      (cases "feed (basic_tuple_parse_byte cs) (tuple_parser_init cs defaults) bs"; auto)
  have "basic_tuple_check_for_immediate_completion cs q = None"
  proof (cases "length cs = 1")
    case True
    then obtain c where c: "cs = [c]" by (auto simp: length_one_conv)
    with q obtain s' where "q = Tuple_parser 0 s' defaults" "reached_by c bs s'"
      by (auto simp: tuple_parser_init_def reached_by_def dest: feed_single_element)
    with c assms(2) [of c] show ?thesis
      by (auto simp: basic_tuple_check_for_immediate_completion_def never_completes_immediately_def)
  next
    case False
    then show ?thesis by (simp add: basic_tuple_check_for_immediate_completion_def)
  qed
  with s assms(1) show "class_immediate (tuple_class f cs defaults) s = None"
    by (simp add: tuple_class_def)
qed

lemma no_empty_never_immediate:
  "no_empty p \<Longrightarrow> never_completes_immediately (parser_class_of is_valid p)"
proof (induction p)
  case (P_integer u)
  then show ?case
    by (cases u) (simp_all add: never_completes_immediately_def never_immediate_def)
next
  case (P_tuple ts)
  then show ?case by (auto simp: list_all_iff intro!: tuple_never_immediate)
next
  case (P_structure n ts)
  then show ?case by (auto simp: list_all_iff intro!: tuple_never_immediate)
qed (simp_all add: never_completes_immediately_def never_immediate_def variant_class_def
    vector_class_def utf8_class_def)

subsection \<open>Values that take no octet\<close>

text \<open>
  On its own, outside any other type, an empty tuple or structure is parsed without looking at the
  stream: \<open>check_for_immediate_completion\<close> delivers it.
\<close>

definition takes_nothing :: "parser_type \<Rightarrow> bool" where
  "takes_nothing p \<longleftrightarrow> (case p of P_tuple ts \<Rightarrow> ts = [] | P_structure n ts \<Rightarrow> ts = [] | _ \<Rightarrow> False)"

definition parsed_alone :: "parser_type \<Rightarrow> bool" where
  "parsed_alone p \<longleftrightarrow> no_empty p \<or> takes_nothing p"

lemma begin_parse_nothing:
  assumes "takes_nothing p"
  shows "\<exists>i v op. begin_parse_value (parser_class_of is_valid p) bs = (op, On_result i (Inr v)) \<and>
    receive_buffer op = bs \<and> value_ok is_valid p v \<and> encode p v = []"
  using assms
  by (auto simp: takes_nothing_def begin_parse_value_def start_def tuple_class_def empty_tuple_class_def
      empty_tuple_check_for_immediate_completion_def tuple_valid_def tuple_encode_def
      split: parser_type.splits)

end
