(* ===== verification/Value_Serialization.thy ===== *)
theory Value_Serialization
  imports Parser_Types
begin

text \<open>
  \<open>warpcoil/cpp/generate/generate_value_serialization.hpp\<close>: the C++ statements that write a
  value of a wire type to a sink.
  \<^item> \<open>value_serialization\<close> is the generator: the statements it writes for a type and the
    expression that denotes the value, as abstract syntax.
  \<^item> \<open>exec\<close> is what these statements do: the octets they append to the sink, and whether
    they run to the end or leave through \<open>return_invalid_input_error\<close>. Octets appended
    before such a return stay in the sink.
  \<^item> \<open>serialize\<close> is the specification, by recursion on the type and the value.
  The statements implement the specification, and a serialisation that succeeds has
  written the encoding that the generated parser accepts.
\<close>

subsection \<open>The generated statements\<close>

datatype cpp_expr =
    E_var ident
  | E_index cpp_expr                \<comment> \<open>\<open>e.index()\<close>\<close>
  | E_try_get wire_type cpp_expr    \<comment> \<open>\<open>(*Si::try_get_ptr<T>(e))\<close>\<close>
  | E_get nat cpp_expr              \<comment> \<open>\<open>std::get<i>(e)\<close>\<close>
  | E_size cpp_expr                 \<comment> \<open>\<open>e.size()\<close>\<close>
  | E_member nat ident cpp_expr     \<comment> \<open>\<open>e.name\<close>, the member at a position\<close>

datatype cpp_stmt =
    S_check_maximum cpp_expr u64            \<comment> \<open>\<open>if ((e) > max) { return error; }\<close>\<close>
  | S_check_range cpp_expr u64 u64          \<comment> \<open>\<open>if (((e) < min) || ((e) > max)) { return error; }\<close>\<close>
  | S_write_integer uint_type cpp_expr      \<comment> \<open>\<open>write_integer(sink, static_cast<T>(e));\<close>\<close>
  | S_switch cpp_expr "cpp_stmt list list"  \<comment> \<open>\<open>switch (e) { case 0: ... break; ... }\<close>\<close>
  | S_for cpp_expr "cpp_stmt list"          \<comment> \<open>\<open>for (auto const &element : e) { ... }\<close>\<close>
  | S_check_utf8 cpp_expr                   \<comment> \<open>\<open>if (!utf8::is_valid(e.begin(), e.end())) { return error; }\<close>\<close>
  | S_append cpp_expr                       \<comment> \<open>\<open>Si::append(sink, the code units of e);\<close>\<close>

definition integer_serialization :: "integer_range \<Rightarrow> cpp_expr \<Rightarrow> cpp_stmt list" where
  "integer_serialization r e =
     [if minimum r = 0 then S_check_maximum e (maximum r)
      else S_check_range e (minimum r) (maximum r),
      S_write_integer (find_suitable_uint_cpp_type r) e]"

function value_serialization :: "wire_type \<Rightarrow> cpp_expr \<Rightarrow> cpp_stmt list" where
  "value_serialization (Integer r) e = integer_serialization r e"
| "value_serialization (Variant elements) e =
     integer_serialization (Integer_range 0 (of_nat (length elements) - 1)) (E_index e) @
     [S_switch (E_index e)
        (map (\<lambda>element. value_serialization element (E_try_get element e)) elements)]"
| "value_serialization (Tuple elements) e =
     concat (map (\<lambda>(i, element). value_serialization element (E_get i e))
       (zip [0..<length elements] elements))"
| "value_serialization (Vector len element) e =
     integer_serialization len (E_size e) @
     [S_for e (value_serialization element (E_var ''element''))]"
| "value_serialization (Utf8 code_units) e =
     [S_check_utf8 e] @ integer_serialization code_units (E_size e) @ [S_append e]"
| "value_serialization (Structure elements) e =
     concat (map (\<lambda>(i, element). value_serialization (what element) (E_member i (element_name element) e))
       (zip [0..<length elements] elements))"
  by pat_completeness auto
termination
  by (relation "measure (\<lambda>(t, e). size t)")
    (auto simp: list_element_size structure_element_size dest: set_zip_rightD)

subsection \<open>Their execution\<close>

datatype exec_status = Completed | Returned_error | Stuck

type_synonym exec_result = "bytes \<times> exec_status"

text \<open>Statements in sequence: the first that does not complete ends it.\<close>

fun in_sequence :: "exec_result list \<Rightarrow> exec_result" where
  "in_sequence [] = ([], Completed)"
| "in_sequence ((w, st) # rs) =
     (if st = Completed then (case in_sequence rs of (w', st') \<Rightarrow> (w @ w', st')) else (w, st))"

type_synonym cpp_env = "ident \<Rightarrow> wire_value option"

primrec eval :: "cpp_env \<Rightarrow> cpp_expr \<Rightarrow> wire_value option" where
  "eval env (E_var x) = env x"
| "eval env (E_index e) = None"
| "eval env (E_try_get t e) = (case eval env e of Some (V_variant i v) \<Rightarrow> Some v | _ \<Rightarrow> None)"
| "eval env (E_get i e) =
     (case eval env e of Some (V_tuple vs) \<Rightarrow> if i < length vs then Some (vs ! i) else None | _ \<Rightarrow> None)"
| "eval env (E_size e) = None"
| "eval env (E_member i name e) =
     (case eval env e of Some (V_structure vs) \<Rightarrow> if i < length vs then Some (vs ! i) else None | _ \<Rightarrow> None)"

text \<open>The value of an expression of an unsigned type.\<close>

definition eval_number :: "cpp_env \<Rightarrow> cpp_expr \<Rightarrow> nat option" where
  "eval_number env e =
     (case e of
        E_index e' \<Rightarrow> (case eval env e' of Some (V_variant i v) \<Rightarrow> Some i | _ \<Rightarrow> None)
      | E_size e' \<Rightarrow>
          (case eval env e' of
             Some (V_vector vs) \<Rightarrow> Some (length vs)
           | Some (V_string s) \<Rightarrow> Some (length s)
           | _ \<Rightarrow> None)
      | _ \<Rightarrow> map_option value_size (eval env e))"

primrec exec :: "(bytes \<Rightarrow> bool) \<Rightarrow> cpp_stmt \<Rightarrow> cpp_env \<Rightarrow> exec_result" where
  "exec is_valid (S_check_maximum e high) = (\<lambda>env.
     case eval_number env e of
       None \<Rightarrow> ([], Stuck)
     | Some n \<Rightarrow> ([], if n > unat high then Returned_error else Completed))"
| "exec is_valid (S_check_range e low high) = (\<lambda>env.
     case eval_number env e of
       None \<Rightarrow> ([], Stuck)
     | Some n \<Rightarrow> ([], if n < unat low \<or> n > unat high then Returned_error else Completed))"
| "exec is_valid (S_write_integer u e) = (\<lambda>env.
     case eval_number env e of
       None \<Rightarrow> ([], Stuck)
     | Some n \<Rightarrow> (uint_encode u (uint_value u n), Completed))"
| "exec is_valid (S_switch e cases) = (\<lambda>env.
     case eval_number env e of
       None \<Rightarrow> ([], Stuck)
     | Some k \<Rightarrow>
         if k < length cases
         then in_sequence (map (\<lambda>s. s env) (map (map (exec is_valid)) cases ! k))
         else ([], Completed))"
| "exec is_valid (S_for e body) = (\<lambda>env.
     case eval env e of
       Some (V_vector vs) \<Rightarrow>
         in_sequence (map (\<lambda>v. in_sequence
           (map (\<lambda>s. s (env(''element'' \<mapsto> v))) (map (exec is_valid) body))) vs)
     | _ \<Rightarrow> ([], Stuck))"
| "exec is_valid (S_check_utf8 e) = (\<lambda>env.
     case eval env e of
       Some (V_string s) \<Rightarrow> ([], if is_valid s then Completed else Returned_error)
     | _ \<Rightarrow> ([], Stuck))"
| "exec is_valid (S_append e) = (\<lambda>env.
     case eval env e of
       Some (V_string s) \<Rightarrow> (s, Completed)
     | _ \<Rightarrow> ([], Stuck))"

definition exec_all :: "(bytes \<Rightarrow> bool) \<Rightarrow> cpp_stmt list \<Rightarrow> cpp_env \<Rightarrow> exec_result" where
  "exec_all is_valid ss env = in_sequence (map (\<lambda>s. exec is_valid s env) ss)"

subsection \<open>The specification\<close>

definition serialize_integer :: "integer_range \<Rightarrow> nat \<Rightarrow> exec_result" where
  "serialize_integer r n =
     (if unat (minimum r) \<le> n \<and> n \<le> unat (maximum r)
      then (uint_encode (parser_bits r) (uint_value (parser_bits r) n), Completed)
      else ([], Returned_error))"

primrec serialize :: "(bytes \<Rightarrow> bool) \<Rightarrow> wire_type \<Rightarrow> wire_value \<Rightarrow> exec_result" where
  "serialize is_valid (Integer r) v = serialize_integer r (value_size v)"
| "serialize is_valid (Variant ts) v =
     (case v of
        V_variant i w \<Rightarrow>
          in_sequence [serialize_integer (Integer_range 0 (of_nat (length ts) - 1)) i,
            (map (serialize is_valid) ts ! i) w]
      | _ \<Rightarrow> ([], Stuck))"
| "serialize is_valid (Tuple ts) v =
     in_sequence (map2 (\<lambda>f w. f w) (map (serialize is_valid) ts) (the_tuple v))"
| "serialize is_valid (Vector len t) v =
     in_sequence (serialize_integer len (length (the_vector v)) #
       map (serialize is_valid t) (the_vector v))"
| "serialize is_valid (Utf8 code_units) v =
     in_sequence [([], if is_valid (the_string v) then Completed else Returned_error),
       serialize_integer code_units (length (the_string v)), (the_string v, Completed)]"
| "serialize is_valid (Structure es) v =
     in_sequence (map2 (\<lambda>f w. f w) (map what (map (map_structure_element (serialize is_valid)) es))
       (the_structure v))"

text \<open>Values of the C++ type that the generator uses for a wire type.\<close>

primrec has_type :: "wire_type \<Rightarrow> wire_value \<Rightarrow> bool" where
  "has_type (Integer r) v = is_uint (find_suitable_uint_cpp_type r) v"
| "has_type (Variant ts) v =
     (case v of V_variant i w \<Rightarrow> i < length ts \<and> (map has_type ts ! i) w | _ \<Rightarrow> False)"
| "has_type (Tuple ts) v = (is_V_tuple v \<and> list_all2 (\<lambda>p w. p w) (map has_type ts) (the_tuple v))"
| "has_type (Vector len t) v = (is_V_vector v \<and> list_all (has_type t) (the_vector v))"
| "has_type (Utf8 code_units) v = is_V_string v"
| "has_type (Structure es) v =
     (is_V_structure v \<and>
      list_all2 (\<lambda>p w. p w) (map what (map (map_structure_element has_type) es)) (the_structure v))"

subsection \<open>The statements implement the specification\<close>

lemma in_sequence_singleton [simp]: "in_sequence [r] = r"
  by (cases r) simp

lemma in_sequence_Cons: "in_sequence (r # rs) = in_sequence [r, in_sequence rs]"
  by (cases r; cases "in_sequence rs") simp

lemma in_sequence_append:
  "in_sequence (xs @ ys) = in_sequence [in_sequence xs, in_sequence ys]"
  by (induction xs rule: in_sequence.induct) (auto split: prod.splits)

lemma in_sequence_concat: "in_sequence (concat rss) = in_sequence (map in_sequence rss)"
proof (induction rss)
  case (Cons rs rss)
  then show ?case
    by (simp add: in_sequence_append in_sequence_Cons [of _ "map in_sequence rss"]
        del: in_sequence.simps)
qed simp

lemma exec_all_append:
  "exec_all is_valid (xs @ ys) env = in_sequence [exec_all is_valid xs env, exec_all is_valid ys env]"
  by (simp add: exec_all_def in_sequence_append)

lemma exec_all_concat:
  "exec_all is_valid (concat sss) env = in_sequence (map (\<lambda>ss. exec_all is_valid ss env) sss)"
  by (simp add: exec_all_def map_concat in_sequence_concat comp_def)

lemma parser_bits_suitable: "parser_bits r = find_suitable_uint_cpp_type r"
  by (simp add: parser_bits_def find_suitable_uint_cpp_type_def)

lemma exec_integer_serialization:
  assumes "eval_number env e = Some n"
  shows "exec_all is_valid (integer_serialization r e) env = serialize_integer r n"
  using assms
  by (auto simp: exec_all_def integer_serialization_def serialize_integer_def parser_bits_suitable)

lemma eval_number_value: "eval env e = Some v \<Longrightarrow> eval_number env e = Some (value_size v)"
  by (cases e) (auto simp: eval_number_def)

lemma value_serialization_correct:
  "has_type t v \<Longrightarrow> eval env e = Some v \<Longrightarrow>
   exec_all is_valid (value_serialization t e) env = serialize is_valid t v"
proof (induction t arbitrary: v e env)
  case (Integer r)
  then show ?case by (simp add: exec_integer_serialization eval_number_value)
next
  case (Variant ts)
  then obtain i w where v: "v = V_variant i w" "i < length ts" "has_type (ts ! i) w"
    by (auto split: wire_value.splits)
  with Variant.prems have n: "eval_number env (E_index e) = Some i"
    by (simp add: eval_number_def)
  have "exec_all is_valid (value_serialization (ts ! i) (E_try_get (ts ! i) e)) env =
      serialize is_valid (ts ! i) w"
    using v Variant.prems by (intro Variant.IH) auto
  then have switch: "exec_all is_valid [S_switch (E_index e)
      (map (\<lambda>element. value_serialization element (E_try_get element e)) ts)] env =
      serialize is_valid (ts ! i) w"
    using v n by (simp add: exec_all_def comp_def)
  show ?case
    using v by (simp add: exec_all_append exec_integer_serialization [OF n] switch
        del: in_sequence.simps)
next
  case (Tuple ts)
  from Tuple.prems obtain vs where v: "v = V_tuple vs" "length vs = length ts"
    and each: "\<And>i. i < length ts \<Longrightarrow> has_type (ts ! i) (vs ! i)"
    by (cases v) (auto simp: list_all2_conv_all_nth)
  have "map (\<lambda>ss. exec_all is_valid ss env)
      (map (\<lambda>(i, element). value_serialization element (E_get i e)) (zip [0..<length ts] ts)) =
      map2 (\<lambda>f w. f w) (map (serialize is_valid) ts) vs"
  proof (rule nth_equalityI)
    fix i assume "i < length (map (\<lambda>ss. exec_all is_valid ss env)
      (map (\<lambda>(i, element). value_serialization element (E_get i e)) (zip [0..<length ts] ts)))"
    then have i: "i < length ts" by simp
    then have "exec_all is_valid (value_serialization (ts ! i) (E_get i e)) env =
        serialize is_valid (ts ! i) (vs ! i)"
      using v Tuple.prems each by (intro Tuple.IH) auto
    with i v show "map (\<lambda>ss. exec_all is_valid ss env)
        (map (\<lambda>(i, element). value_serialization element (E_get i e)) (zip [0..<length ts] ts)) ! i =
        map2 (\<lambda>f w. f w) (map (serialize is_valid) ts) vs ! i" by simp
  qed (simp add: v)
  then show ?case
    by (simp only: value_serialization.simps exec_all_concat serialize.simps v wire_value.sel)
next
  case (Vector len t)
  then obtain vs where v: "v = V_vector vs" "list_all (has_type t) vs"
    by (cases v) auto
  with Vector.prems have n: "eval_number env (E_size e) = Some (length vs)"
    by (simp add: eval_number_def)
  have each: "exec_all is_valid (value_serialization t (E_var ''element'')) (env(''element'' \<mapsto> w)) =
      serialize is_valid t w" if "w \<in> set vs" for w
    using v that by (intro Vector.IH) (auto simp: list_all_iff)
  then have loop: "exec_all is_valid [S_for e (value_serialization t (E_var ''element''))] env =
      in_sequence (map (serialize is_valid t) vs)"
    using Vector.prems v
    by (simp add: exec_all_def comp_def cong: list.map_cong)
  show ?case
    using v by (simp add: exec_all_append exec_integer_serialization [OF n] loop
        in_sequence_Cons [of _ "map _ _"] del: in_sequence.simps)
next
  case (Utf8 code_units)
  then obtain s where v: "v = V_string s" by (cases v) auto
  with Utf8.prems have n: "eval_number env (E_size e) = Some (length s)"
    by (simp add: eval_number_def)
  have "exec_all is_valid [S_check_utf8 e] env = ([], if is_valid s then Completed else Returned_error)"
    "exec_all is_valid [S_append e] env = (s, Completed)"
    using Utf8.prems v by (simp_all add: exec_all_def)
  then show ?case
    using v
    by (simp add: exec_all_append [of _ "[_]"] exec_all_append exec_integer_serialization [OF n]
        split: prod.splits del: append.simps)
next
  case (Structure es)
  from Structure.prems obtain vs where v: "v = V_structure vs" "length vs = length es"
    and each: "\<And>i. i < length es \<Longrightarrow> has_type (what (es ! i)) (vs ! i)"
    by (cases v) (auto simp: list_all2_conv_all_nth structure_element.map_sel)
  have "map (\<lambda>ss. exec_all is_valid ss env)
      (map (\<lambda>(i, x). value_serialization (what x) (E_member i (element_name x) e))
        (zip [0..<length es] es)) =
      map2 (\<lambda>f w. f w) (map what (map (map_structure_element (serialize is_valid)) es)) vs"
  proof (rule nth_equalityI)
    fix i assume "i < length (map (\<lambda>ss. exec_all is_valid ss env)
      (map (\<lambda>(i, x). value_serialization (what x) (E_member i (element_name x) e))
        (zip [0..<length es] es)))"
    then have i: "i < length es" by simp
    then have "exec_all is_valid
        (value_serialization (what (es ! i)) (E_member i (element_name (es ! i)) e)) env =
        serialize is_valid (what (es ! i)) (vs ! i)"
      using v Structure.prems each
      by (intro Structure.IH [OF nth_mem [OF i]]) (auto simp: structure_element.set_sel)
    with i v show "map (\<lambda>ss. exec_all is_valid ss env)
        (map (\<lambda>(i, x). value_serialization (what x) (E_member i (element_name x) e))
          (zip [0..<length es] es)) ! i =
        map2 (\<lambda>f w. f w) (map what (map (map_structure_element (serialize is_valid)) es)) vs ! i"
      by (simp add: structure_element.map_sel)
  qed (simp add: v)
  then show ?case
    by (simp only: value_serialization.simps exec_all_concat serialize.simps v wire_value.sel)
qed

subsection \<open>Success writes the wire format\<close>

text \<open>
  The types for which parser and serialisation agree: no empty tuple or structure inside,
  and at most 256 alternatives in a variant (the parser reads an index of one octet).
\<close>

primrec wire_ok :: "wire_type \<Rightarrow> bool" where
  "wire_ok (Integer r) = True"
| "wire_ok (Variant ts) = (ts \<noteq> [] \<and> length ts \<le> 256 \<and> list_all id (map wire_ok ts))"
| "wire_ok (Tuple ts) = (ts \<noteq> [] \<and> list_all id (map wire_ok ts))"
| "wire_ok (Vector len t) = wire_ok t"
| "wire_ok (Utf8 code_units) = True"
| "wire_ok (Structure es) =
     (es \<noteq> [] \<and> list_all id (map what (map (map_structure_element wire_ok) es)))"

lemma wire_ok_no_empty: "wire_ok t \<Longrightarrow> no_empty (parser_type_of t)"
proof (induction t)
  case (Structure es)
  then show ?case
    by (auto simp: list_all_iff structure_element.map_sel structure_element.set_sel)
qed (auto simp: list_all_iff)

lemma in_sequence_Completed_Cons:
  "in_sequence (r # rs) = (w, Completed) \<longleftrightarrow>
   (\<exists>w1 w2. r = (w1, Completed) \<and> in_sequence rs = (w2, Completed) \<and> w = w1 @ w2)"
  by (cases r) (auto split: prod.splits)

lemma in_sequence_Completed:
  "in_sequence rs = (w, Completed) \<longleftrightarrow>
   list_all (\<lambda>r. snd r = Completed) rs \<and> w = concat (map fst rs)"
proof (induction rs arbitrary: w)
  case (Cons r rs)
  then show ?case by (cases r) (auto simp del: in_sequence.simps simp: in_sequence_Completed_Cons)
qed auto

lemma serialize_integer_Completed:
  assumes "serialize_integer r n = (w, Completed)"
  shows "w = uint_encode (parser_bits r) (uint_value (parser_bits r) n)"
    and "size_fits (parser_bits r) n" and "n \<le> unat (maximum r)" and "unat (minimum r) \<le> n"
proof -
  from assms show "w = uint_encode (parser_bits r) (uint_value (parser_bits r) n)"
    and le: "n \<le> unat (maximum r)" and "unat (minimum r) \<le> n"
    by (auto simp: serialize_integer_def split: if_splits)
  have "maximum r \<le> 255 \<Longrightarrow> unat (maximum r) \<le> 255"
    "maximum r \<le> 65535 \<Longrightarrow> unat (maximum r) \<le> 65535"
    "maximum r \<le> 4294967295 \<Longrightarrow> unat (maximum r) \<le> 4294967295"
    by (simp_all add: word_le_nat_alt)
  moreover have "unat (maximum r) < 2 ^ 64"
    using unsigned_less [of "maximum r"] by simp
  ultimately show "size_fits (parser_bits r) n"
    using le by (auto simp: size_fits_def parser_bits_def)
qed

lemma variant_index_bits:
  assumes "0 < n" and "n \<le> 256"
  shows "parser_bits (Integer_range 0 (of_nat n - 1)) = Uint8"
proof -
  from assms obtain m where m: "n = Suc m" "m < 256" by (cases n) auto
  then have "(of_nat m :: u64) \<le> 255"
    by (simp add: word_le_nat_alt unsigned_of_nat take_bit_nat_eq_self)
  with m show ?thesis by (simp add: parser_bits_def)
qed

lemma serialize_encodes:
  "wire_ok t \<Longrightarrow> has_type t v \<Longrightarrow> serialize is_valid t v = (w, Completed) \<Longrightarrow>
   value_ok is_valid (parser_type_of t) v \<and> w = encode (parser_type_of t) v"
proof (induction t arbitrary: v w)
  case (Integer r)
  then show ?case
    using serialize_integer_Completed(1) [of r "value_size v" w]
    by (simp add: parser_bits_suitable uint_value_size)
next
  case (Variant ts)
  then obtain i x where v: "v = V_variant i x" "i < length ts" "has_type (ts ! i) x"
    by (auto split: wire_value.splits)
  from Variant.prems(3) v obtain w1 w2 where
    w: "serialize_integer (Integer_range 0 (of_nat (length ts) - 1)) i = (w1, Completed)"
      "serialize is_valid (ts ! i) x = (w2, Completed)" "w = w1 @ w2"
    by (auto simp: in_sequence_Completed_Cons simp del: in_sequence.simps)
  have "value_ok is_valid (parser_type_of (ts ! i)) x \<and> w2 = encode (parser_type_of (ts ! i)) x"
    using Variant.prems(1) v w(2) by (intro Variant.IH) (auto simp: list_all_length)
  moreover have "w1 = write_integer (of_nat i :: u8)"
    using serialize_integer_Completed(1) [OF w(1)] Variant.prems(1)
    by (simp add: variant_index_bits)
  ultimately show ?case
    using v w Variant.prems(1) by (simp add: variant_valid_def variant_encode_def)
next
  case (Tuple ts)
  from Tuple.prems obtain vs where v: "v = V_tuple vs" "length vs = length ts"
    and each: "\<And>i. i < length ts \<Longrightarrow> has_type (ts ! i) (vs ! i)"
    by (cases v) (auto simp: list_all2_conv_all_nth)
  from Tuple.prems(3) have completed: "i < length ts \<Longrightarrow>
      serialize is_valid (ts ! i) (vs ! i) = (fst (serialize is_valid (ts ! i) (vs ! i)), Completed)"
    and w: "w = concat (map fst (map2 (\<lambda>f w. f w) (map (serialize is_valid) ts) vs))" for i
    using v unfolding serialize.simps in_sequence_Completed
    by (auto simp: list_all_length prod_eq_iff)
  have ok: "value_ok is_valid (parser_type_of (ts ! i)) (vs ! i) \<and>
      fst (serialize is_valid (ts ! i) (vs ! i)) = encode (parser_type_of (ts ! i)) (vs ! i)"
    if "i < length ts" for i
    using Tuple.prems(1) each completed that by (intro Tuple.IH) (auto simp: list_all_length)
  then have "map fst (map2 (\<lambda>f w. f w) (map (serialize is_valid) ts) vs) =
      map2 (\<lambda>e v. e v) (map encode (map parser_type_of ts)) vs"
    using v by (intro nth_equalityI) auto
  then show ?case
    using v w ok by (auto simp: tuple_valid_def tuple_encode_def list_all2_conv_all_nth)
next
  case (Vector len t)
  then obtain vs where v: "v = V_vector vs" "list_all (has_type t) vs"
    by (cases v) auto
  from Vector.prems(3) obtain w1 w2 where
    w: "serialize_integer len (length vs) = (w1, Completed)"
      "in_sequence (map (serialize is_valid t) vs) = (w2, Completed)" "w = w1 @ w2"
    unfolding v(1) serialize.simps wire_value.sel in_sequence_Completed_Cons by blast
  have w2: "list_all (\<lambda>r. snd r = Completed) (map (serialize is_valid t) vs)"
    "w2 = concat (map fst (map (serialize is_valid t) vs))"
    using w(2) unfolding in_sequence_Completed by blast+
  have "value_ok is_valid (parser_type_of t) x \<and> fst (serialize is_valid t x) = encode (parser_type_of t) x"
    if "x \<in> set vs" for x
    using Vector.prems(1) v(2) w2(1) that by (intro Vector.IH) (auto simp: list_all_iff prod_eq_iff)
  then have "list_all (value_ok is_valid (parser_type_of t)) vs"
    "map fst (map (serialize is_valid t) vs) = map (encode (parser_type_of t)) vs"
    by (auto simp: list_all_iff)
  then show ?case
    using v w(3) w2(2) serialize_integer_Completed(1,2) [OF w(1)]
    by (simp add: vector_valid_def vector_encode_def del: map_map)
next
  case (Utf8 code_units)
  then obtain s where v: "v = V_string s" by (cases v) auto
  from Utf8.prems(3) v obtain w1 where
    w: "serialize_integer code_units (length s) = (w1, Completed)" "is_valid s" "w = w1 @ s"
    by (auto simp: in_sequence_Completed_Cons split: if_splits simp del: in_sequence.simps)
  then show ?case
    using v serialize_integer_Completed(1,2) [OF w(1)]
    by (simp add: utf8_valid_def utf8_encode_def)
next
  case (Structure es)
  from Structure.prems obtain vs where v: "v = V_structure vs" "length vs = length es"
    and each: "\<And>i. i < length es \<Longrightarrow> has_type (what (es ! i)) (vs ! i)"
    by (cases v) (auto simp: list_all2_conv_all_nth structure_element.map_sel)
  define ts where "ts = map what es"
  have ts: "map what (map (map_structure_element f) es) = map f ts" for f
    by (simp add: ts_def structure_element.map_sel)
  from Structure.prems(3) v have completed: "i < length es \<Longrightarrow>
      serialize is_valid (ts ! i) (vs ! i) = (fst (serialize is_valid (ts ! i) (vs ! i)), Completed)"
    and w: "w = concat (map fst (map2 (\<lambda>f w. f w) (map (serialize is_valid) ts) vs))" for i
    unfolding serialize.simps ts in_sequence_Completed
    by (auto simp: list_all_length prod_eq_iff ts_def)
  have ok: "value_ok is_valid (parser_type_of (ts ! i)) (vs ! i) \<and>
      fst (serialize is_valid (ts ! i) (vs ! i)) = encode (parser_type_of (ts ! i)) (vs ! i)"
    if i: "i < length es" for i
    using Structure.prems(1) each completed i unfolding wire_ok.simps ts
    by (intro Structure.IH [OF nth_mem [OF i]])
      (auto simp: list_all_length ts_def structure_element.set_sel)
  then have "map fst (map2 (\<lambda>f w. f w) (map (serialize is_valid) ts) vs) =
      map2 (\<lambda>e v. e v) (map encode (map parser_type_of ts)) vs"
    using v by (intro nth_equalityI) (auto simp: ts_def)
  then show ?case
    using v w ok unfolding parser_type_of.simps ts
    by (auto simp: tuple_valid_def tuple_encode_def list_all2_conv_all_nth ts_def)
qed

end
