(* ===== verification/Trace_Machine.thy ===== *)
theory Trace_Machine
  imports Warpcoil_Prelude
begin

text \<open>
  The stateful components react to inputs (calls of their members, completions of the
  transport): a step takes a state and an input to the next state and the events it causes,
  or fails at an \<open>assert\<close>. \<open>run\<close> performs a list of inputs and collects the events; the
  locale \<open>traced_invariant\<close> lifts an invariant between a state and the events so far from
  one step to a run.
\<close>

type_synonym ('f, 's, 'e) step_result = "'f + ('s \<times> 'e list)"

text \<open>Doing one thing after another, the events in order.\<close>

definition and_then ::
  "('f, 's, 'e) step_result \<Rightarrow> ('s \<Rightarrow> ('f, 't, 'e) step_result) \<Rightarrow> ('f, 't, 'e) step_result" where
  "and_then m f =
     (case m of
        Inl e \<Rightarrow> Inl e
      | Inr (s, es) \<Rightarrow>
          (case f s of
             Inl e \<Rightarrow> Inl e
           | Inr (t, es') \<Rightarrow> Inr (t, es @ es')))"

lemma and_then_simps [simp]:
  "and_then (Inl e) f = Inl e"
  "and_then (Inr (s, [])) f = f s"
  by (simp_all add: and_then_def split: sum.splits prod.splits)

lemma and_then_Inr_iff:
  "and_then m f = Inr (t, es) \<longleftrightarrow>
   (\<exists>s es1 es2. m = Inr (s, es1) \<and> f s = Inr (t, es2) \<and> es = es1 @ es2)"
  by (auto simp: and_then_def split: sum.splits prod.splits)

lemma and_then_Inl_iff:
  "and_then m f = Inl e \<longleftrightarrow> m = Inl e \<or> (\<exists>s es. m = Inr (s, es) \<and> f s = Inl e)"
  by (auto simp: and_then_def split: sum.splits prod.splits)

fun run :: "('s \<Rightarrow> 'i \<Rightarrow> ('f, 's, 'e) step_result) \<Rightarrow> 's \<Rightarrow> 'i list \<Rightarrow> ('f, 's, 'e) step_result" where
  "run step s [] = Inr (s, [])"
| "run step s (i # is) = and_then (step s i) (\<lambda>s'. run step s' is)"

lemma run_append: "run step s (xs @ ys) = and_then (run step s xs) (\<lambda>s'. run step s' ys)"
  by (induction xs arbitrary: s) (auto simp: and_then_def split: sum.splits prod.splits)

locale traced_invariant =
  fixes step :: "'s \<Rightarrow> 'i \<Rightarrow> ('f, 's, 'e) step_result"
    and inv :: "'e list \<Rightarrow> 's \<Rightarrow> bool"
  assumes inv_step: "inv tr s \<Longrightarrow> step s i = Inr (s', es) \<Longrightarrow> inv (tr @ es) s'"
begin

lemma inv_run: "inv tr s \<Longrightarrow> run step s is = Inr (s', es) \<Longrightarrow> inv (tr @ es) s'"
proof (induction "is" arbitrary: tr s es)
  case (Cons i "is")
  from Cons.prems(2) obtain s1 es1 es2 where
    "step s i = Inr (s1, es1)" "run step s1 is = Inr (s', es2)" "es = es1 @ es2"
    by (auto simp: and_then_Inr_iff)
  with Cons.IH [of "tr @ es1" s1 es2] inv_step [OF Cons.prems(1)] show ?case by simp
qed simp

end

text \<open>
  A machine whose only failures are those the caller is answerable for: \<open>blame\<close> says which.
\<close>

locale blamed_failures = traced_invariant step inv
  for step :: "'s \<Rightarrow> 'i \<Rightarrow> ('f, 's, 'e) step_result" and inv :: "'e list \<Rightarrow> 's \<Rightarrow> bool" +
  fixes blame :: "'f \<Rightarrow> bool"
  assumes step_blame: "inv tr s \<Longrightarrow> step s i = Inl f \<Longrightarrow> blame f"
begin

lemma run_blame: "inv tr s \<Longrightarrow> run step s is = Inl f \<Longrightarrow> blame f"
proof (induction "is" arbitrary: tr s)
  case (Cons i "is")
  from Cons.prems(2) consider "step s i = Inl f"
    | s1 es1 where "step s i = Inr (s1, es1)" "run step s1 is = Inl f"
    by (auto simp: and_then_Inl_iff)
  then show ?case
    using step_blame Cons.IH inv_step Cons.prems(1) by cases blast+
qed simp

end

end
