(* ===== verification/Buffered_Writer.thy ===== *)
theory Buffered_Writer
  imports Trace_Machine
begin

text \<open>
  \<open>warpcoil/cpp/buffered_writer.hpp\<close>: octets are appended to a buffer and sent with one
  \<open>async_write\<close> at a time; calls of \<open>send_buffer\<close> during a write queue their handlers for
  the next write.
  \<^item> A chain of \<open>result_handler\<close> objects (each owning the \<open>next\<close> one) is the list of the
    handlers, newest first.
  \<^item> The cell that the running write and \<open>state\<close> share through \<open>buffer_handler_queue\<close> is
    the field \<open>handler_queue\<close> of the outstanding write.
  \<^item> Handlers are code of the client: a handler is a value of a type \<open>'h\<close>, and the argument
    \<open>react\<close> says which members of the writer it calls when it is invoked.
  \<^item> \<open>boost::asio::async_write\<close> never invokes its handler from within the call, so its
    completion is a separate input of the machine.
\<close>

datatype send_state = Not_sending | Sending (being_written: bytes)

record 'h outstanding_write =
  write_data :: bytes
  write_handlers :: "'h list"
  handler_queue :: "'h list"

record 'h buffered_writer =
  buffer :: bytes
  state :: send_state
  outstanding :: "'h outstanding_write option"

datatype 'h writer_op = Append bytes | Send_buffer 'h

datatype 'h writer_input = Member_call "'h writer_op" | Write_completes "error_code option"

datatype 'h writer_event =
    Appended bytes
  | Sent 'h
  | Write_started bytes
  | Write_completed bytes "error_code option"
  | Handler_called 'h "error_code option"

text \<open>Which \<open>assert\<close> fails; the last is a completion without a write.\<close>

datatype writer_failure = Send_of_empty_buffer | Continue_without_data | Weak_pointer_expired
  | No_write_outstanding

type_synonym 'h writer_result = "(writer_failure, 'h buffered_writer, 'h writer_event) step_result"

definition buffered_writer_init :: "'h buffered_writer" where
  "buffered_writer_init = \<lparr>buffer = [], state = Not_sending, outstanding = None\<rparr>"

definition append_to_sink :: "bytes \<Rightarrow> 'h buffered_writer \<Rightarrow> 'h writer_result" where
  "append_to_sink bs w = Inr (w\<lparr>buffer := buffer w @ bs\<rparr>, [Appended bs])"

text \<open>
  \<open>prepare_send_state\<close> moves the buffer into the new \<open>sending\<close> state; the caller starts the
  write of it, whose completion will call \<open>handlers\<close>.
\<close>

definition prepare_send_state :: "'h list \<Rightarrow> 'h buffered_writer \<Rightarrow> 'h writer_result" where
  "prepare_send_state handlers w =
     (let being = buffer w
      in Inr (w\<lparr>buffer := [], state := Sending being,
            outstanding := Some \<lparr>write_data = being, write_handlers = handlers, handler_queue = []\<rparr>\<rparr>,
          [Write_started being]))"

definition send_buffer :: "'h \<Rightarrow> 'h buffered_writer \<Rightarrow> 'h writer_result" where
  "send_buffer h w =
     (if buffer w = [] then Inl Send_of_empty_buffer
      else and_then (Inr (w, [Sent h])) (\<lambda>w.
        case state w of
          Not_sending \<Rightarrow> prepare_send_state [h] w
        | Sending _ \<Rightarrow>
            (case outstanding w of
               None \<Rightarrow> Inl Weak_pointer_expired
             | Some wr \<Rightarrow>
                 Inr (w\<lparr>outstanding := Some (wr\<lparr>handler_queue := h # handler_queue wr\<rparr>)\<rparr>, []))))"

fun perform :: "'h writer_op \<Rightarrow> 'h buffered_writer \<Rightarrow> 'h writer_result" where
  "perform (Append bs) w = append_to_sink bs w"
| "perform (Send_buffer h) w = send_buffer h w"

text \<open>An invocation of one handler, with everything the handler does.\<close>

definition call_handler ::
  "('h \<Rightarrow> error_code option \<Rightarrow> 'h writer_op list) \<Rightarrow> error_code option \<Rightarrow> 'h \<Rightarrow> 'h buffered_writer \<Rightarrow>
    'h writer_result" where
  "call_handler react ec h w =
     and_then (Inr (w, [Handler_called h ec])) (\<lambda>w. run (\<lambda>w op. perform op w) w (react h ec))"

text \<open>\<open>result_handler::handle_result\<close>: the older handlers of the chain first.\<close>

fun handle_result ::
  "('h \<Rightarrow> error_code option \<Rightarrow> 'h writer_op list) \<Rightarrow> error_code option \<Rightarrow> 'h list \<Rightarrow> 'h buffered_writer \<Rightarrow>
    'h writer_result" where
  "handle_result react ec [] w = Inr (w, [])"
| "handle_result react ec (handler # next) w =
     and_then (handle_result react ec next w) (call_handler react ec handler)"

definition continue_send :: "'h buffered_writer \<Rightarrow> 'h writer_result" where
  "continue_send w =
     (case outstanding w of
        None \<Rightarrow> Inl Continue_without_data
      | Some wr \<Rightarrow>
          if handler_queue wr = [] \<or> buffer w = [] \<or> write_data wr = [] then Inl Continue_without_data
          else prepare_send_state (handler_queue wr) w)"

definition finish_send ::
  "('h \<Rightarrow> error_code option \<Rightarrow> 'h writer_op list) \<Rightarrow> error_code option \<Rightarrow> 'h buffered_writer \<Rightarrow>
    'h writer_result" where
  "finish_send react ec w =
     (case outstanding w of
        None \<Rightarrow> Inl No_write_outstanding
      | Some wr \<Rightarrow>
          and_then (Inr (w, [Write_completed (write_data wr) ec])) (\<lambda>w.
            if buffer w = []
            then handle_result react ec (write_handlers wr)
                   (w\<lparr>state := Not_sending, outstanding := None\<rparr>)
            else if handler_queue wr \<noteq> []
            then and_then (handle_result react ec (write_handlers wr) w) continue_send
            else handle_result react ec (write_handlers wr)
                   (w\<lparr>state := Not_sending, outstanding := None\<rparr>)))"

fun writer_step ::
  "('h \<Rightarrow> error_code option \<Rightarrow> 'h writer_op list) \<Rightarrow> 'h buffered_writer \<Rightarrow> 'h writer_input \<Rightarrow>
    'h writer_result" where
  "writer_step react w (Member_call op) = perform op w"
| "writer_step react w (Write_completes ec) = finish_send react ec w"

subsection \<open>What a trace says\<close>

definition appended :: "'h writer_event list \<Rightarrow> bytes" where
  "appended tr = concat (map (\<lambda>e. case e of Appended bs \<Rightarrow> bs | _ \<Rightarrow> []) tr)"

definition started :: "'h writer_event list \<Rightarrow> bytes" where
  "started tr = concat (map (\<lambda>e. case e of Write_started bs \<Rightarrow> bs | _ \<Rightarrow> []) tr)"

definition completed :: "'h writer_event list \<Rightarrow> bytes" where
  "completed tr = concat (map (\<lambda>e. case e of Write_completed bs ec \<Rightarrow> bs | _ \<Rightarrow> []) tr)"

definition sent :: "'h writer_event list \<Rightarrow> 'h list" where
  "sent tr = concat (map (\<lambda>e. case e of Sent h \<Rightarrow> [h] | _ \<Rightarrow> []) tr)"

definition called :: "'h writer_event list \<Rightarrow> 'h list" where
  "called tr = concat (map (\<lambda>e. case e of Handler_called h ec \<Rightarrow> [h] | _ \<Rightarrow> []) tr)"

text \<open>
  For each call of \<open>send_buffer\<close> the number of octets appended before it, and for each
  handler invocation the number of octets whose write had completed.
\<close>

fun sent_offsets_from :: "nat \<Rightarrow> 'h writer_event list \<Rightarrow> nat list" where
  "sent_offsets_from n [] = []"
| "sent_offsets_from n (e # tr) =
     (case e of
        Appended bs \<Rightarrow> sent_offsets_from (n + length bs) tr
      | Sent h \<Rightarrow> n # sent_offsets_from n tr
      | _ \<Rightarrow> sent_offsets_from n tr)"

fun called_offsets_from :: "nat \<Rightarrow> 'h writer_event list \<Rightarrow> nat list" where
  "called_offsets_from n [] = []"
| "called_offsets_from n (e # tr) =
     (case e of
        Write_completed bs ec \<Rightarrow> called_offsets_from (n + length bs) tr
      | Handler_called h ec \<Rightarrow> n # called_offsets_from n tr
      | _ \<Rightarrow> called_offsets_from n tr)"

abbreviation "sent_offsets tr \<equiv> sent_offsets_from 0 tr"
abbreviation "called_offsets tr \<equiv> called_offsets_from 0 tr"

lemma trace_simps [simp]:
  "appended [] = []" "started [] = []" "completed [] = []" "sent [] = []" "called [] = []"
  "appended (xs @ ys) = appended xs @ appended ys"
  "started (xs @ ys) = started xs @ started ys"
  "completed (xs @ ys) = completed xs @ completed ys"
  "sent (xs @ ys) = sent xs @ sent ys"
  "called (xs @ ys) = called xs @ called ys"
  "appended (e # tr) = (case e of Appended bs \<Rightarrow> bs | _ \<Rightarrow> []) @ appended tr"
  "started (e # tr) = (case e of Write_started bs \<Rightarrow> bs | _ \<Rightarrow> []) @ started tr"
  "completed (e # tr) = (case e of Write_completed bs ec \<Rightarrow> bs | _ \<Rightarrow> []) @ completed tr"
  "sent (e # tr) = (case e of Sent h \<Rightarrow> [h] | _ \<Rightarrow> []) @ sent tr"
  "called (e # tr) = (case e of Handler_called h ec \<Rightarrow> [h] | _ \<Rightarrow> []) @ called tr"
  by (simp_all add: appended_def started_def completed_def sent_def called_def)

lemma sent_offsets_append [simp]:
  "sent_offsets_from n (xs @ ys) =
   sent_offsets_from n xs @ sent_offsets_from (n + length (appended xs)) ys"
  by (induction xs arbitrary: n) (auto split: writer_event.splits simp: add.assoc)

lemma called_offsets_append [simp]:
  "called_offsets_from n (xs @ ys) =
   called_offsets_from n xs @ called_offsets_from (n + length (completed xs)) ys"
  by (induction xs arbitrary: n) (auto split: writer_event.splits simp: add.assoc)

lemma length_sent_offsets [simp]: "length (sent_offsets_from n tr) = length (sent tr)"
  by (induction tr arbitrary: n) (auto split: writer_event.splits)

lemma length_called_offsets [simp]: "length (called_offsets_from n tr) = length (called tr)"
  by (induction tr arbitrary: n) (auto split: writer_event.splits)

lemma sent_offset_le: "m \<in> set (sent_offsets_from n tr) \<Longrightarrow> m \<le> n + length (appended tr)"
proof (induction tr arbitrary: n)
  case (Cons e tr)
  then show ?case
    using Cons.IH by (cases e) (fastforce simp: add.assoc)+
qed simp

lemma sent_offset_nth: "k < length (sent tr) \<Longrightarrow> sent_offsets tr ! k \<le> length (appended tr)"
  using sent_offset_le [of "sent_offsets tr ! k" 0 tr] by simp

subsection \<open>The invariant\<close>

text \<open>
  \<open>completing\<close> holds while the handlers of a completed write run and another write is
  about to follow it; \<open>in_hand\<close> are the handlers of that chain still to be called.
\<close>

definition flight :: "bool \<Rightarrow> 'h buffered_writer \<Rightarrow> bytes" where
  "flight completing w =
     (case outstanding w of None \<Rightarrow> [] | Some wr \<Rightarrow> if completing then [] else write_data wr)"

definition current :: "bool \<Rightarrow> 'h buffered_writer \<Rightarrow> 'h list" where
  "current completing w =
     (case outstanding w of None \<Rightarrow> [] | Some wr \<Rightarrow> if completing then [] else rev (write_handlers wr))"

definition queued :: "'h buffered_writer \<Rightarrow> 'h list" where
  "queued w = (case outstanding w of None \<Rightarrow> [] | Some wr \<Rightarrow> rev (handler_queue wr))"

definition writer_ok :: "'h buffered_writer \<Rightarrow> bool" where
  "writer_ok w \<longleftrightarrow>
     (case outstanding w of
        None \<Rightarrow> state w = Not_sending
      | Some wr \<Rightarrow> state w = Sending (write_data wr) \<and> write_data wr \<noteq> [] \<and>
          (handler_queue wr \<noteq> [] \<longrightarrow> buffer w \<noteq> []))"

definition writer_inv_in ::
  "bool \<Rightarrow> 'h list \<Rightarrow> 'h writer_event list \<Rightarrow> 'h buffered_writer \<Rightarrow> bool" where
  "writer_inv_in completing in_hand tr w \<longleftrightarrow>
     writer_ok w \<and> (completing \<longrightarrow> queued w \<noteq> []) \<and>
     started tr = completed tr @ flight completing w \<and>
     appended tr = started tr @ buffer w \<and>
     sent tr = called tr @ rev in_hand @ current completing w @ queued w \<and>
     (\<forall>k < length (called tr). sent_offsets tr ! k \<le> called_offsets tr ! k) \<and>
     (\<forall>k < length (called tr) + length in_hand. sent_offsets tr ! k \<le> length (completed tr)) \<and>
     (\<forall>k < length (called tr) + length in_hand + length (current completing w).
        sent_offsets tr ! k \<le> length (started tr))"

definition writer_inv :: "'h writer_event list \<Rightarrow> 'h buffered_writer \<Rightarrow> bool" where
  "writer_inv tr w \<longleftrightarrow> writer_inv_in False [] tr w"

lemma writer_inv_init: "writer_inv [] buffered_writer_init"
  by (simp add: writer_inv_def writer_inv_in_def writer_ok_def buffered_writer_init_def
      flight_def current_def queued_def)

lemma inv_append:
  "writer_inv_in c hs tr w \<Longrightarrow> append_to_sink bs w = Inr (w', es) \<Longrightarrow> writer_inv_in c hs (tr @ es) w'"
  by (auto simp: append_to_sink_def writer_inv_in_def writer_ok_def flight_def current_def
      queued_def nth_append split: option.splits)

text \<open>Starting the write of a buffer whose handlers are the next ones of the trace.\<close>

lemma inv_prepare:
  assumes ok: "buffer w \<noteq> []"
    and bytes: "started tr = completed tr" "appended tr = started tr @ buffer w"
    and hs: "sent tr = called tr @ rev in_hand @ rev hs"
    and le: "\<forall>k < length (called tr). sent_offsets tr ! k \<le> called_offsets tr ! k"
      "\<forall>k < length (called tr) + length in_hand. sent_offsets tr ! k \<le> length (completed tr)"
    and run: "prepare_send_state hs w = Inr (w', es)"
  shows "writer_inv_in False in_hand (tr @ es) w'"
proof -
  from run have w': "w' = w\<lparr>buffer := [], state := Sending (buffer w), outstanding :=
      Some \<lparr>write_data = buffer w, write_handlers = hs, handler_queue = []\<rparr>\<rparr>"
    and es: "es = [Write_started (buffer w)]"
    by (auto simp: prepare_send_state_def Let_def)
  have "sent_offsets tr ! k \<le> length (started tr) + length (buffer w)"
    if "k < length (called tr) + length in_hand + length hs" for k
    using sent_offset_nth [of k tr] that hs bytes(2) by simp
  then show ?thesis
    using assms by (simp add: w' es writer_inv_in_def writer_ok_def flight_def current_def queued_def)
qed

lemma inv_send:
  assumes inv: "writer_inv_in c hs tr w" and run: "send_buffer h w = Inr (w', es)"
  shows "writer_inv_in c hs (tr @ es) w'"
proof (cases "outstanding w")
  case None
  from inv None have w: "state w = Not_sending" "\<not> c"
    by (auto simp: writer_inv_in_def writer_ok_def queued_def)
  from run w None obtain es' where buf: "buffer w \<noteq> []"
    and prep: "prepare_send_state [h] w = Inr (w', es')" and es: "es = [Sent h] @ es'"
    by (auto simp: send_buffer_def and_then_Inr_iff split: if_splits)
  have "writer_inv_in False hs ((tr @ [Sent h]) @ es') w'"
    by (rule inv_prepare [OF buf _ _ _ _ _ prep])
      (use inv None w in \<open>auto simp: writer_inv_in_def flight_def current_def queued_def nth_append\<close>)
  with w es show ?thesis by simp
next
  case (Some wr)
  with inv run have "buffer w \<noteq> []" "state w = Sending (write_data wr)"
    by (auto simp: send_buffer_def writer_inv_in_def writer_ok_def split: if_splits)
  with assms Some show ?thesis
    by (auto simp: send_buffer_def writer_inv_in_def writer_ok_def
        flight_def current_def queued_def nth_append and_then_def)
qed

lemma inv_perform:
  "writer_inv_in c hs tr w \<Longrightarrow> perform op w = Inr (w', es) \<Longrightarrow> writer_inv_in c hs (tr @ es) w'"
  by (cases op) (auto intro: inv_append inv_send)

text \<open>The operations of a handler are a run of the machine.\<close>

interpretation handler_ops: traced_invariant "\<lambda>w op. perform op w" "writer_inv_in c hs" for c hs
  by unfold_locales (rule inv_perform)

lemma inv_call:
  assumes inv: "writer_inv_in c (hs @ [h]) tr w" and run: "call_handler react ec h w = Inr (w', es)"
  shows "writer_inv_in c hs (tr @ es) w'"
proof -
  from run obtain es' where es: "es = [Handler_called h ec] @ es'"
    and ops: "run (\<lambda>w op. perform op w) w (react h ec) = Inr (w', es')"
    by (auto simp: call_handler_def and_then_Inr_iff)
  from inv have "sent_offsets tr ! length (called tr) \<le> length (completed tr)"
    unfolding writer_inv_in_def by (metis length_append_singleton less_add_Suc1 add_Suc_right)
  with inv have "writer_inv_in c hs (tr @ [Handler_called h ec]) w"
    by (auto simp: writer_inv_in_def nth_append simp del: less_Suc_eq elim!: less_SucE)
  from handler_ops.inv_run [OF this ops] es show ?thesis by simp
qed

lemma inv_handle_result:
  "writer_inv_in c (hs' @ hs) tr w \<Longrightarrow> handle_result react ec hs w = Inr (w', es) \<Longrightarrow>
   writer_inv_in c hs' (tr @ es) w'"
proof (induction hs arbitrary: hs' es w')
  case (Cons h hs)
  from Cons.prems(2) obtain w1 es1 es2 where
    "handle_result react ec hs w = Inr (w1, es1)" and call: "call_handler react ec h w1 = Inr (w', es2)"
    and es: "es = es1 @ es2"
    by (auto simp: and_then_Inr_iff)
  with Cons.IH [of "hs' @ [h]"] Cons.prems(1) have "writer_inv_in c (hs' @ [h]) (tr @ es1) w1"
    by simp
  from inv_call [OF this call] es show ?case by simp
qed simp

lemma inv_continue:
  assumes inv: "writer_inv_in True [] tr w" and run: "continue_send w = Inr (w', es)"
  shows "writer_inv_in False [] (tr @ es) w'"
proof -
  from inv obtain wr where wr: "outstanding w = Some wr" "handler_queue wr \<noteq> []" "buffer w \<noteq> []"
    by (auto simp: writer_inv_in_def writer_ok_def queued_def split: option.splits)
  from run wr inv have prep: "prepare_send_state (handler_queue wr) w = Inr (w', es)"
    by (auto simp: continue_send_def writer_inv_in_def writer_ok_def split: if_splits)
  show ?thesis
    by (rule inv_prepare [OF wr(3) _ _ _ _ _ prep])
      (use inv wr in \<open>auto simp: writer_inv_in_def flight_def current_def queued_def\<close>)
qed

text \<open>The completion of a write puts its handlers in hand.\<close>

lemma inv_completed:
  assumes inv: "writer_inv_in False [] tr w" and wr: "outstanding w = Some wr"
  shows "handler_queue wr \<noteq> [] \<Longrightarrow>
      writer_inv_in True (write_handlers wr) (tr @ [Write_completed (write_data wr) ec]) w"
    and "handler_queue wr = [] \<Longrightarrow>
      writer_inv_in False (write_handlers wr) (tr @ [Write_completed (write_data wr) ec])
        (w\<lparr>state := Not_sending, outstanding := None\<rparr>)"
  using inv wr
  by (auto simp: writer_inv_in_def writer_ok_def flight_def current_def queued_def)

lemma inv_finish:
  assumes inv: "writer_inv_in False [] tr w" and run: "finish_send react ec w = Inr (w', es)"
  shows "writer_inv_in False [] (tr @ es) w'"
proof -
  from run obtain wr where wr: "outstanding w = Some wr"
    by (auto simp: finish_send_def split: option.splits)
  define c :: "'a writer_event list" where "c = [Write_completed (write_data wr) ec]"
  show ?thesis
  proof (cases "handler_queue wr = []")
    case True
    with run wr obtain es' where
      run': "handle_result react ec (write_handlers wr)
        (w\<lparr>state := Not_sending, outstanding := None\<rparr>) = Inr (w', es')" and es: "es = c @ es'"
      by (auto simp: finish_send_def c_def and_then_Inr_iff split: if_splits)
    from inv_completed(2) [OF inv wr True, of ec]
    have "writer_inv_in False ([] @ write_handlers wr) (tr @ c)
        (w\<lparr>state := Not_sending, outstanding := None\<rparr>)" by (simp add: c_def)
    from inv_handle_result [OF this run'] es show ?thesis by simp
  next
    case False
    with inv wr have "buffer w \<noteq> []" by (simp add: writer_inv_in_def writer_ok_def)
    with False run wr obtain w1 es1 es2 where
      run': "handle_result react ec (write_handlers wr) w = Inr (w1, es1)"
      and cont: "continue_send w1 = Inr (w', es2)" and es: "es = c @ es1 @ es2"
      by (auto simp: finish_send_def c_def and_then_Inr_iff)
    from inv_completed(1) [OF inv wr False, of ec]
    have "writer_inv_in True ([] @ write_handlers wr) (tr @ c) w" by (simp add: c_def)
    from inv_continue [OF inv_handle_result [OF this run'] cont] es show ?thesis by simp
  qed
qed

lemma inv_writer_step:
  "writer_inv tr w \<Longrightarrow> writer_step react w i = Inr (w', es) \<Longrightarrow> writer_inv (tr @ es) w'"
  by (cases i) (auto simp: writer_inv_def intro: inv_perform inv_finish)

subsection \<open>No assertion but the caller's fails\<close>

definition callers_fault :: "writer_failure \<Rightarrow> bool" where
  "callers_fault f \<longleftrightarrow> f = Send_of_empty_buffer \<or> f = No_write_outstanding"

lemma perform_blame:
  "writer_inv_in c hs tr w \<Longrightarrow> perform op w = Inl f \<Longrightarrow> callers_fault f"
  by (cases op) (auto simp: append_to_sink_def send_buffer_def prepare_send_state_def and_then_Inl_iff
      writer_inv_in_def writer_ok_def callers_fault_def Let_def split: if_splits send_state.splits option.splits)

interpretation handler_blame: blamed_failures "\<lambda>w op. perform op w" "writer_inv_in c hs" callers_fault
  for c hs
  by unfold_locales (rule perform_blame)

lemma handle_result_blame:
  "writer_inv_in c (hs' @ hs) tr w \<Longrightarrow> handle_result react ec hs w = Inl f \<Longrightarrow> callers_fault f"
proof (induction hs arbitrary: hs')
  case (Cons h hs)
  show ?case
  proof (cases "handle_result react ec hs w")
    case (Inl g)
    with Cons.IH [of "hs' @ [h]"] Cons.prems show ?thesis by simp
  next
    case (Inr r)
    obtain w1 es1 where r: "r = (w1, es1)" by (cases r)
    with Inr Cons.prems(2) have "call_handler react ec h w1 = Inl f" by (auto simp: and_then_Inl_iff)
    then have "run (\<lambda>w op. perform op w) w1 (react h ec) = Inl f"
      by (auto simp: call_handler_def and_then_Inl_iff)
    moreover have "writer_inv_in c (hs' @ [h]) (tr @ es1) w1"
      using inv_handle_result [of c "hs' @ [h]" hs] Cons.prems(1) Inr r by simp
    ultimately show ?thesis using handler_blame.run_blame by blast
  qed
qed simp

lemma continue_blame: "writer_inv_in True [] tr w \<Longrightarrow> continue_send w \<noteq> Inl f"
  by (auto simp: continue_send_def prepare_send_state_def Let_def writer_inv_in_def writer_ok_def
      queued_def split: option.splits)

lemma finish_blame:
  assumes inv: "writer_inv_in False [] tr w" and run: "finish_send react ec w = Inl f"
  shows "callers_fault f"
proof (cases "outstanding w")
  case None
  with run show ?thesis by (simp add: finish_send_def callers_fault_def)
next
  case (Some wr)
  show ?thesis
  proof (cases "handler_queue wr = []")
    case True
    with run Some have "handle_result react ec (write_handlers wr)
        (w\<lparr>state := Not_sending, outstanding := None\<rparr>) = Inl f"
      by (auto simp: finish_send_def and_then_Inl_iff split: if_splits)
    with inv_completed(2) [OF inv Some True] handle_result_blame [of False "[]" "write_handlers wr"]
    show ?thesis by fastforce
  next
    case False
    with inv Some have "buffer w \<noteq> []" by (simp add: writer_inv_in_def writer_ok_def)
    with False run Some consider "handle_result react ec (write_handlers wr) w = Inl f"
      | w1 es1 where "handle_result react ec (write_handlers wr) w = Inr (w1, es1)"
          "continue_send w1 = Inl f"
      by (auto simp: finish_send_def and_then_Inl_iff)
    then show ?thesis
    proof cases
      case 1
      with inv_completed(1) [OF inv Some False] handle_result_blame [of True "[]" "write_handlers wr"]
      show ?thesis by fastforce
    next
      case 2
      from inv_handle_result [of True "[]" "write_handlers wr"] inv_completed(1) [OF inv Some False] 2
        continue_blame show ?thesis by fastforce
    qed
  qed
qed

lemma writer_step_blame:
  "writer_inv tr w \<Longrightarrow> writer_step react w i = Inl f \<Longrightarrow> callers_fault f"
  by (cases i) (auto simp: writer_inv_def intro: perform_blame finish_blame)

interpretation writer: blamed_failures "writer_step react" writer_inv callers_fault for react
  by unfold_locales (auto intro: inv_writer_step writer_step_blame)

lemma writer_inv_reached:
  "run (writer_step react) buffered_writer_init inputs = Inr (w, tr) \<Longrightarrow> writer_inv tr w"
  using writer.inv_run [OF writer_inv_init] by fastforce

subsection \<open>Properties\<close>

abbreviation in_flight :: "'h buffered_writer \<Rightarrow> bytes" where "in_flight \<equiv> flight False"
abbreviation pending :: "'h buffered_writer \<Rightarrow> 'h list" where
  "pending w \<equiv> current False w @ queued w"

text \<open>A client whose first handler appends and sends again, for the examples.\<close>

abbreviation resending :: "nat \<Rightarrow> error_code option \<Rightarrow> nat writer_op list" where
  "resending \<equiv> \<lambda>h ec. if h = 0 then [Append [9], Send_buffer 2] else []"

abbreviation two_sends :: "nat writer_input list" where
  "two_sends \<equiv> [Member_call (Append [1]), Member_call (Send_buffer 0), Member_call (Append [2]),
     Member_call (Send_buffer 1), Write_completes None, Write_completes (Some (Transport_error 5))]"

lemma two_sends_run:
  "case run (writer_step resending) buffered_writer_init two_sends of
     Inl f \<Rightarrow> False
   | Inr (w, tr) \<Rightarrow> called tr = [0, 1, 2] \<and> completed tr = [1, 2, 9] \<and> buffer w = []"
  by code_simp

text \<open>C8: Whatever the client and its handlers do, the octets handed to the transport, then those
  still in the buffer, are exactly the octets appended, in order; and at any time at most the
  octets of one write (\<open>in_flight\<close>) are started but not completed.\<close>

theorem writer_stream:
  assumes "run (writer_step react) buffered_writer_init inputs = Inr (w, tr)"
  shows "appended tr = completed tr @ in_flight w @ buffer w \<and>
    started tr = completed tr @ in_flight w \<and> (state w = Not_sending \<longleftrightarrow> in_flight w = [])"
  using writer_inv_reached [OF assms]
  by (auto simp: writer_inv_def writer_inv_in_def writer_ok_def flight_def split: option.splits)

theorem writer_stream_witness:
  "\<exists>w tr. run (writer_step resending) buffered_writer_init two_sends = Inr (w, tr) \<and> appended tr = completed tr @ in_flight w @ buffer w"
proof -
  obtain w tr where run: "run (writer_step resending) buffered_writer_init two_sends = Inr (w, tr)"
    and called: "called tr = [0, 1, 2]"
    using two_sends_run by (auto split: sum.splits)
  from writer_stream [OF run] run called show ?thesis by auto
qed

text \<open>C15: The handlers are invoked in the order of the calls of \<open>send_buffer\<close>, each at most once,
  and those not yet invoked are exactly the handlers held by the running write and its queue.\<close>

theorem writer_handlers_fifo:
  assumes "run (writer_step react) buffered_writer_init inputs = Inr (w, tr)"
  shows "sent tr = called tr @ pending w"
  using writer_inv_reached [OF assms] by (simp add: writer_inv_def writer_inv_in_def)

theorem writer_handlers_fifo_witness:
  "\<exists>w tr. run (writer_step resending) buffered_writer_init two_sends = Inr (w, tr) \<and> sent tr = called tr @ pending w"
proof -
  obtain w tr where run: "run (writer_step resending) buffered_writer_init two_sends = Inr (w, tr)"
    and called: "called tr = [0, 1, 2]"
    using two_sends_run by (auto split: sum.splits)
  from writer_handlers_fifo [OF run] run called show ?thesis by auto
qed

text \<open>C16: The handler of the \<open>k\<close>-th call of \<open>send_buffer\<close> is invoked only when the write of every
  octet appended before that call has completed.\<close>

theorem writer_handler_after_its_octets:
  assumes "run (writer_step react) buffered_writer_init inputs = Inr (w, tr)"
    and "k < length (called tr)"
  shows "sent_offsets tr ! k \<le> called_offsets tr ! k"
  using writer_inv_reached [OF assms(1)] assms(2) by (simp add: writer_inv_def writer_inv_in_def)

theorem writer_handler_after_its_octets_witness:
  "\<exists>w tr. run (writer_step resending) buffered_writer_init two_sends = Inr (w, tr) \<and> sent_offsets tr ! 2 \<le> called_offsets tr ! 2"
proof -
  obtain w tr where run: "run (writer_step resending) buffered_writer_init two_sends = Inr (w, tr)"
    and called: "called tr = [0, 1, 2]"
    using two_sends_run by (auto split: sum.splits)
  from writer_handler_after_its_octets [OF run, of 2] run called show ?thesis by auto
qed

text \<open>C17: The only assertion that can fail is the documented precondition of \<open>send_buffer\<close> (or a
  completion the transport was never asked for): the assertions of \<open>continue_send\<close> and the lock
  of the weak pointer never do, even when handlers append and send from within a completion.\<close>

theorem writer_asserts:
  assumes "run (writer_step react) buffered_writer_init inputs = Inl f"
  shows "f = Send_of_empty_buffer \<or> f = No_write_outstanding"
  using writer.run_blame [OF writer_inv_init assms] by (simp add: callers_fault_def)

theorem writer_asserts_witness:
  "\<exists>f. run (writer_step resending) buffered_writer_init [Member_call (Send_buffer 0)] = Inl f \<and>
    (f = Send_of_empty_buffer \<or> f = No_write_outstanding)"
proof -
  have run: "run (writer_step resending) buffered_writer_init [Member_call (Send_buffer 0)] = Inl Send_of_empty_buffer"
    by (simp add: send_buffer_def buffered_writer_init_def)
  from writer_asserts [OF run] run show ?thesis by blast
qed

lemma handle_result_passive:
  "handle_result (\<lambda>h ec. []) ec hs w = Inr (w, map (\<lambda>h. Handler_called h ec) (rev hs))"
  by (induction hs) (simp_all add: call_handler_def and_then_def)

lemma finish_passive:
  assumes inv: "writer_inv tr w" and wr: "outstanding w = Some wr"
  shows "finish_send (\<lambda>h ec. []) ec w =
    (if handler_queue wr = []
     then Inr (w\<lparr>state := Not_sending, outstanding := None\<rparr>,
       Write_completed (write_data wr) ec # map (\<lambda>h. Handler_called h ec) (rev (write_handlers wr)))
     else Inr (w\<lparr>buffer := [], state := Sending (buffer w), outstanding := Some
         \<lparr>write_data = buffer w, write_handlers = handler_queue wr, handler_queue = []\<rparr>\<rparr>,
       Write_completed (write_data wr) ec # map (\<lambda>h. Handler_called h ec) (rev (write_handlers wr)) @
         [Write_started (buffer w)]))"
  using inv wr
  by (auto simp: finish_send_def handle_result_passive and_then_def continue_send_def
      prepare_send_state_def Let_def writer_inv_def writer_inv_in_def writer_ok_def)

text \<open>A completed write invokes exactly its handlers, in the order of the calls, each with the
  error code of that write, and starts the next write if and only if \<open>send_buffer\<close> was called in
  the meantime; the next write carries the whole buffer and the handlers queued for it.\<close>

theorem writer_completion:
  assumes "run (writer_step (\<lambda>h ec. [])) buffered_writer_init inputs = Inr (w, tr)"
    and "outstanding w = Some wr"
  shows "finish_send (\<lambda>h ec. []) ec w =
    (if handler_queue wr = []
     then Inr (w\<lparr>state := Not_sending, outstanding := None\<rparr>,
       Write_completed (write_data wr) ec # map (\<lambda>h. Handler_called h ec) (rev (write_handlers wr)))
     else Inr (w\<lparr>buffer := [], state := Sending (buffer w), outstanding := Some
         \<lparr>write_data = buffer w, write_handlers = handler_queue wr, handler_queue = []\<rparr>\<rparr>,
       Write_completed (write_data wr) ec # map (\<lambda>h. Handler_called h ec) (rev (write_handlers wr)) @
         [Write_started (buffer w)]))"
  by (rule finish_passive [OF writer_inv_reached [OF assms(1)] assms(2)])

lemma one_send_run:
  "run (writer_step (\<lambda>h ec. [])) buffered_writer_init
     [Member_call (Append [1]), Member_call (Send_buffer (0 :: nat))] =
   Inr (\<lparr>buffer = [], state = Sending [1], outstanding =
       Some \<lparr>write_data = [1], write_handlers = [0], handler_queue = []\<rparr>\<rparr>,
     [Appended [1], Sent 0, Write_started [1]])"
  by (simp add: append_to_sink_def send_buffer_def prepare_send_state_def and_then_def
      buffered_writer_init_def Let_def)

theorem writer_completion_witness:
  "\<exists>w tr wr. run (writer_step (\<lambda>h ec. [])) buffered_writer_init
      [Member_call (Append [1]), Member_call (Send_buffer (0 :: nat))] = Inr (w, tr) \<and> outstanding w = Some wr \<and>
    finish_send (\<lambda>h ec. []) None w = Inr (w\<lparr>state := Not_sending, outstanding := None\<rparr>,
      [Write_completed [1] None, Handler_called 0 None])"
proof -
  from writer_completion [OF one_send_run, of _ None] one_send_run show ?thesis by simp
qed

lemma called_handlers [simp]: "called (map (\<lambda>h. Handler_called h ec) hs) = hs"
  by (induction hs) simp_all



end
