(* ===== verification/Message_Splitter.thy ===== *)
theory Message_Splitter
  imports Begin_Parse_Value Trace_Machine
begin

text \<open>
  \<open>warpcoil/cpp/message_splitter.hpp\<close> and \<open>warpcoil/protocol.hpp\<close>: one input stream shared by
  a client (which waits for responses) and a server (which waits for requests). The splitter
  reads the header of a message, hands it to the handler that waits for that kind of message,
  and the handler locks the input while it reads the body.

  All calls are synchronous and re-entrant: a handler that is invoked calls members of the
  splitter, which parse what the buffer holds and invoke further handlers. The model keeps the
  calls still to be made as a stack of tasks; running a task pushes the tasks it calls in its
  place, and what is left of the caller stays below them.
  \<^item> A handler is a function from its argument to a piece of client code \<open>'k\<close>; the argument
    \<open>client_code\<close> of the machine says what such a piece does to the client's state \<open>'c\<close>, which
    calls it makes and what events of its own it causes, or that an assertion of it fails. \<open>Client k\<close> is the task of running it.
  \<^item> The function object \<open>begin_parse_message\<close> always holds the same closure (apart from the
    handler that only selects the context of the invocation), so the field says whether it is set.
  \<^item> \<open>reading\<close> is the parse operation whose \<open>async_read_some\<close> is outstanding.
\<close>

type_synonym request_id = u64

datatype 'k continuation =
    On_message_type  \<comment> \<open>\<open>parse_message_type_operation\<close>\<close>
  | On_response  \<comment> \<open>\<open>parse_response_operation\<close>\<close>
  | On_request  \<comment> \<open>\<open>parse_request_operation\<close>\<close>
  | On_body (body_parser: parser_type) (body_handler: "error_code + wire_value \<Rightarrow> 'k")

primrec continuation_parser :: "'k continuation \<Rightarrow> parser_type" where
  "continuation_parser On_message_type = P_integer Uint8"
| "continuation_parser On_response = P_integer Uint64"
| "continuation_parser On_request = P_tuple [P_integer Uint64, P_utf8 Uint8]"
| "continuation_parser (On_body p f) = p"

datatype 'k read_operation = Read_operation (op_state: parser_state) (op_continuation: "'k continuation")

record 'k message_splitter =
  octets :: bytes
  locked :: bool
  begin_parse_message :: bool
  waiting_for_request :: "(error_code + request_id \<times> bytes \<Rightarrow> 'k) option"
  waiting_for_response :: "(error_code + request_id \<Rightarrow> 'k) option"
  parsing_header :: bool
  reading :: "'k read_operation option"

definition message_splitter_init :: "'k message_splitter" where
  "message_splitter_init = \<lparr>octets = [], locked = False, begin_parse_message = False,
     waiting_for_request = None, waiting_for_response = None, parsing_header = False,
     reading = None\<rparr>"

text \<open>What client code can do, \<open>Parse_body\<close> being \<open>begin_parse_value\<close> on the locked input.\<close>

datatype 'k call =
    Client_code 'k
  | Wait_for_response "error_code + request_id \<Rightarrow> 'k"
  | Wait_for_request "error_code + request_id \<times> bytes \<Rightarrow> 'k"
  | Lock_input
  | Unlock_input
  | Parse_body parser_type "error_code + wire_value \<Rightarrow> 'k"

datatype 'k task =
    Perform "'k call"
  | Parsed "'k continuation" "error_code + wire_value"
  | After_response bool  \<comment> \<open>the rest of \<open>parse_response_operation\<close>, with \<open>continue_\<close>\<close>
  | After_request bool
  | Report_to_request bool error_code  \<comment> \<open>the rest of \<open>on_error\<close>\<close>

abbreviation Client :: "'k \<Rightarrow> 'k task" where "Client k \<equiv> Perform (Client_code k)"

text \<open>
  The assertions, in the order of the file; then a second read on the stream, a call of an
  empty function object, and inputs of the machine that nobody asked for.
\<close>

datatype splitter_failure =
    Already_waiting_for_response
  | Already_waiting_for_request
  | Lock_while_parsing_header
  | Lock_while_locked
  | Unlock_while_parsing_header
  | Unlock_while_unlocked
  | Begin_parse_message_missing
  | Header_already_parsing
  | Nobody_is_waiting
  | No_request_handler
  | No_response_handler
  | Not_parsing_header
  | Second_read
  | Empty_function_called
  | No_read_outstanding
  | Re_entered
  | Client_assertion

datatype splitter_event =
    Waited_for_response
  | Waited_for_request
  | Response_handler_called "error_code + request_id"
  | Request_handler_called "error_code + request_id \<times> bytes"
  | Octets_read bytes
  | Parse_started parser_type
  | Delivered parser_type wire_value
  | Parse_failed error_code

type_synonym 'k outcome =
  "(splitter_failure, 'k message_splitter \<times> 'k task list, splitter_event) step_result"

subsection \<open>Parsing from the shared buffer\<close>

fun after_parse :: "'k continuation \<Rightarrow> 'k message_splitter \<Rightarrow>
    parser_state parse_operation \<times> wire_value parse_event \<Rightarrow> 'k outcome" where
  "after_parse k s (op, On_result i (Inr v)) =
     Inr ((s\<lparr>octets := receive_buffer op\<rparr>, [Parsed k (Inr v)]), [Delivered (continuation_parser k) v])"
| "after_parse k s (op, On_result i (Inl ec)) =
     Inr ((s\<lparr>octets := receive_buffer op\<rparr>, [Parsed k (Inl ec)]), [Parse_failed ec])"
| "after_parse k s (op, Async_read_some n) =
     (if reading s \<noteq> None then Inl Second_read
      else Inr ((s\<lparr>octets := receive_buffer op, reading := Some (Read_operation (parser op) k)\<rparr>, []), []))"

definition parse_from_buffer ::
  "(bytes \<Rightarrow> bool) \<Rightarrow> 'k continuation \<Rightarrow> 'k message_splitter \<Rightarrow> 'k outcome" where
  "parse_from_buffer is_valid k s =
     and_then (Inr (s, [Parse_started (continuation_parser k)])) (\<lambda>s.
       after_parse k s (begin_parse_value (parser_class_of is_valid (continuation_parser k)) (octets s)))"

definition read_completes ::
  "(bytes \<Rightarrow> bool) \<Rightarrow> error_code option \<Rightarrow> bytes \<Rightarrow> 'k message_splitter \<Rightarrow> 'k outcome" where
  "read_completes is_valid ec read s =
     (case reading s of
        None \<Rightarrow> Inl No_read_outstanding
      | Some (Read_operation p k) \<Rightarrow>
          and_then (Inr (s\<lparr>reading := None\<rparr>, [Octets_read (if ec = None then read else [])])) (\<lambda>s.
            after_parse k s
              (on_read (parser_class_of is_valid (continuation_parser k)) ec read
                \<lparr>receive_buffer = octets s, parser = p\<rparr>)))"

subsection \<open>The members\<close>

text \<open>The closure that \<open>set_begin_parse_message\<close> stores.\<close>

definition call_begin_parse_message ::
  "(bytes \<Rightarrow> bool) \<Rightarrow> 'k message_splitter \<Rightarrow> 'k outcome" where
  "call_begin_parse_message is_valid s =
     (if parsing_header s then Inl Header_already_parsing
      else if waiting_for_response s = None \<and> waiting_for_request s = None then Inl Nobody_is_waiting
      else if locked s then Inr ((s, []), [])
      else parse_from_buffer is_valid On_message_type
             (s\<lparr>begin_parse_message := False, parsing_header := True\<rparr>))"

definition wait_for_response ::
  "(bytes \<Rightarrow> bool) \<Rightarrow> (error_code + request_id \<Rightarrow> 'k) \<Rightarrow> 'k message_splitter \<Rightarrow> 'k outcome" where
  "wait_for_response is_valid handler s =
     (if waiting_for_response s \<noteq> None then Inl Already_waiting_for_response
      else and_then (Inr (s\<lparr>waiting_for_response := Some handler, begin_parse_message := True\<rparr>,
                          [Waited_for_response])) (\<lambda>s.
        if parsing_header s then Inr ((s, []), []) else call_begin_parse_message is_valid s))"

definition wait_for_request ::
  "(bytes \<Rightarrow> bool) \<Rightarrow> (error_code + request_id \<times> bytes \<Rightarrow> 'k) \<Rightarrow> 'k message_splitter \<Rightarrow> 'k outcome"
  where
  "wait_for_request is_valid handler s =
     (if waiting_for_request s \<noteq> None then Inl Already_waiting_for_request
      else and_then (Inr (s\<lparr>waiting_for_request := Some handler, begin_parse_message := True\<rparr>,
                          [Waited_for_request])) (\<lambda>s.
        if parsing_header s then Inr ((s, []), []) else call_begin_parse_message is_valid s))"

definition lock_input :: "'k message_splitter \<Rightarrow> 'k outcome" where
  "lock_input s =
     (if parsing_header s then Inl Lock_while_parsing_header
      else if locked s then Inl Lock_while_locked
      else Inr ((s\<lparr>locked := True\<rparr>, []), []))"

definition unlock_input :: "(bytes \<Rightarrow> bool) \<Rightarrow> 'k message_splitter \<Rightarrow> 'k outcome" where
  "unlock_input is_valid s =
     (if parsing_header s then Inl Unlock_while_parsing_header
      else if \<not> locked s then Inl Unlock_while_unlocked
      else let s = s\<lparr>locked := False\<rparr>
        in if waiting_for_response s = None \<and> waiting_for_request s = None then Inr ((s, []), [])
           else if \<not> begin_parse_message s then Inl Begin_parse_message_missing
           else call_begin_parse_message is_valid s)"

definition splitter_on_error :: "error_code \<Rightarrow> 'k message_splitter \<Rightarrow> 'k outcome" where
  "splitter_on_error ec s =
     (let is_waiting_for_request = (waiting_for_request s \<noteq> None)
      in case waiting_for_response s of
           Some handler \<Rightarrow>
             Inr ((s\<lparr>waiting_for_response := None\<rparr>,
                   [Client (handler (Inl ec)), Report_to_request is_waiting_for_request ec]),
                  [Response_handler_called (Inl ec)])
         | None \<Rightarrow> Inr ((s, [Report_to_request is_waiting_for_request ec]), []))"

definition report_to_request :: "bool \<Rightarrow> error_code \<Rightarrow> 'k message_splitter \<Rightarrow> 'k outcome" where
  "report_to_request is_waiting_for_request ec s =
     (if is_waiting_for_request
      then (case waiting_for_request s of
              None \<Rightarrow> Inl Empty_function_called
            | Some handler \<Rightarrow>
                Inr ((s\<lparr>waiting_for_request := None\<rparr>, [Client (handler (Inl ec))]),
                     [Request_handler_called (Inl ec)]))
      else Inr ((s, []), []))"

text \<open>\<open>message_type::request\<close> and \<open>message_type::response\<close>.\<close>

definition message_type_request :: u8 where "message_type_request = 0"
definition message_type_response :: u8 where "message_type_response = 1"

definition message_type_parsed ::
  "(bytes \<Rightarrow> bool) \<Rightarrow> error_code + wire_value \<Rightarrow> 'k message_splitter \<Rightarrow> 'k outcome" where
  "message_type_parsed is_valid type s =
     (case type of
        Inl ec \<Rightarrow> splitter_on_error ec s
      | Inr t \<Rightarrow>
          if the_uint8 t = message_type_response
          then (if waiting_for_response s = None then splitter_on_error Invalid_input_error s
                else parse_from_buffer is_valid On_response s)
          else if the_uint8 t = message_type_request
          then (if waiting_for_request s = None then splitter_on_error Invalid_input_error s
                else parse_from_buffer is_valid On_request s)
          else splitter_on_error Invalid_input_error s)"

definition response_parsed :: "error_code + wire_value \<Rightarrow> 'k message_splitter \<Rightarrow> 'k outcome" where
  "response_parsed request s =
     (case waiting_for_response s of
        None \<Rightarrow> Inl No_response_handler
      | Some handler \<Rightarrow>
          (case request of
             Inl ec \<Rightarrow> splitter_on_error ec s
           | Inr v \<Rightarrow>
               if \<not> parsing_header s then Inl Not_parsing_header
               else Inr ((s\<lparr>parsing_header := False, waiting_for_response := None\<rparr>,
                 [Client (handler (Inr (the_uint64 v))), After_response (waiting_for_request s \<noteq> None)]),
                 [Response_handler_called (Inr (the_uint64 v))])))"

definition request_of_value :: "wire_value \<Rightarrow> request_id \<times> bytes" where
  "request_of_value v = (the_uint64 (the_tuple v ! 0), the_string (the_tuple v ! 1))"

definition request_parsed :: "error_code + wire_value \<Rightarrow> 'k message_splitter \<Rightarrow> 'k outcome" where
  "request_parsed request s =
     (case waiting_for_request s of
        None \<Rightarrow> Inl No_request_handler
      | Some handler \<Rightarrow>
          (case request of
             Inl ec \<Rightarrow> splitter_on_error ec s
           | Inr v \<Rightarrow>
               if \<not> parsing_header s then Inl Not_parsing_header
               else Inr ((s\<lparr>parsing_header := False, waiting_for_request := None\<rparr>,
                 [Client (handler (Inr (request_of_value v))), After_request (waiting_for_response s \<noteq> None)]),
                 [Request_handler_called (Inr (request_of_value v))])))"

definition after_response :: "(bytes \<Rightarrow> bool) \<Rightarrow> bool \<Rightarrow> 'k message_splitter \<Rightarrow> 'k outcome" where
  "after_response is_valid continue' s =
     (if continue' \<and> waiting_for_request s \<noteq> None \<and> \<not> parsing_header s
      then if \<not> begin_parse_message s then Inl Begin_parse_message_missing
           else call_begin_parse_message is_valid s
      else Inr ((s, []), []))"

definition after_request :: "(bytes \<Rightarrow> bool) \<Rightarrow> bool \<Rightarrow> 'k message_splitter \<Rightarrow> 'k outcome" where
  "after_request is_valid continue' s =
     (if continue' \<and> waiting_for_response s \<noteq> None \<and> \<not> parsing_header s
      then if \<not> begin_parse_message s then Inl Begin_parse_message_missing
           else call_begin_parse_message is_valid s
      else Inr ((s, []), []))"

subsection \<open>The machine\<close>

fun run_task :: "(bytes \<Rightarrow> bool) \<Rightarrow> 'k task \<Rightarrow> 'k message_splitter \<Rightarrow> 'k outcome" where
  "run_task is_valid (Perform (Client_code k)) s = Inr ((s, []), [])"
| "run_task is_valid (Perform (Wait_for_response handler)) s = wait_for_response is_valid handler s"
| "run_task is_valid (Perform (Wait_for_request handler)) s = wait_for_request is_valid handler s"
| "run_task is_valid (Perform Lock_input) s = lock_input s"
| "run_task is_valid (Perform Unlock_input) s = unlock_input is_valid s"
| "run_task is_valid (Perform (Parse_body p f)) s = parse_from_buffer is_valid (On_body p f) s"
| "run_task is_valid (Parsed On_message_type r) s = message_type_parsed is_valid r s"
| "run_task is_valid (Parsed On_response r) s = response_parsed r s"
| "run_task is_valid (Parsed On_request r) s = request_parsed r s"
| "run_task is_valid (Parsed (On_body p f) r) s = Inr ((s, [Client (f r)]), [])"
| "run_task is_valid (After_response continue') s = after_response is_valid continue' s"
| "run_task is_valid (After_request continue') s = after_request is_valid continue' s"
| "run_task is_valid (Report_to_request waits ec) s = report_to_request waits ec s"

record ('k, 'c) connection =
  tasks :: "'k task list"
  splitter :: "'k message_splitter"
  client :: 'c

text \<open>
  One step runs the task on top, or, when all calls have returned, takes the next event of the
  event loop: a call from the outside or the completion of the outstanding read.
\<close>

datatype 'k connection_input = Run_task | Call 'k | Read_completes "error_code option" bytes

datatype 'e connection_event = Splitter_event splitter_event | Client_event 'e

type_synonym ('k, 'c, 'e) client_code = "'k \<Rightarrow> 'c \<Rightarrow> (unit, 'c \<times> 'k call list, 'e) step_result"

type_synonym ('k, 'c, 'e) connection_result =
  "(splitter_failure, ('k, 'c) connection, 'e connection_event) step_result"

definition push_tasks :: "('k, 'c) connection \<Rightarrow> 'k task list \<Rightarrow> 'k outcome \<Rightarrow> ('k, 'c, 'e) connection_result" where
  "push_tasks c rest out =
     (case out of
        Inl f \<Rightarrow> Inl f
      | Inr ((s, ts), es) \<Rightarrow> Inr (c\<lparr>splitter := s, tasks := ts @ rest\<rparr>, map Splitter_event es))"

fun connection_step ::
  "(bytes \<Rightarrow> bool) \<Rightarrow> ('k, 'c, 'e) client_code \<Rightarrow> ('k, 'c) connection \<Rightarrow>
    'k connection_input \<Rightarrow> ('k, 'c, 'e) connection_result" where
  "connection_step is_valid client_code c Run_task =
     (case tasks c of
        [] \<Rightarrow> Inr (c, [])
      | task # rest \<Rightarrow>
          (case task of
             Perform (Client_code k) \<Rightarrow>
               (case client_code k (client c) of
                  Inl u \<Rightarrow> Inl Client_assertion
                | Inr ((c', calls), es) \<Rightarrow>
                    Inr (c\<lparr>client := c', tasks := map Perform calls @ rest\<rparr>, map Client_event es))
           | _ \<Rightarrow> push_tasks c rest (run_task is_valid task (splitter c))))"
| "connection_step is_valid client_code c (Call k) =
     (if tasks c \<noteq> [] then Inl Re_entered else Inr (c\<lparr>tasks := [Client k]\<rparr>, []))"
| "connection_step is_valid client_code c (Read_completes ec read) =
     (if tasks c \<noteq> [] then Inl Re_entered
      else push_tasks c [] (read_completes is_valid ec read (splitter c)))"

definition connection_init :: "'c \<Rightarrow> ('k, 'c) connection" where
  "connection_init c = \<lparr>tasks = [], splitter = message_splitter_init, client = c\<rparr>"

subsection \<open>The invariant\<close>

text \<open>
  The header parsers at work: the one that waits for a read, and those whose result is about
  to be handled. There is at most one, and only while \<open>parsing_header\<close> is set; the input is not
  locked then, and the handler that its message is for is there.
\<close>

definition task_headers :: "'k task list \<Rightarrow> 'k continuation list" where
  "task_headers ts = concat (map (\<lambda>t. case t of Parsed k r \<Rightarrow> if is_On_body k then [] else [k] | _ \<Rightarrow> []) ts)"

definition reading_headers :: "'k message_splitter \<Rightarrow> 'k continuation list" where
  "reading_headers s =
     (case reading s of
        None \<Rightarrow> []
      | Some op \<Rightarrow> if is_On_body (op_continuation op) then [] else [op_continuation op])"

definition reports :: "'k task list \<Rightarrow> error_code list" where
  "reports ts = concat (map (\<lambda>t. case t of Report_to_request w ec \<Rightarrow> if w then [ec] else [] | _ \<Rightarrow> []) ts)"

definition splitter_inv :: "'k task list \<Rightarrow> 'k message_splitter \<Rightarrow> bool" where
  "splitter_inv ts s \<longleftrightarrow>
     (let headers = reading_headers s @ task_headers ts in
      \<not> (locked s \<and> parsing_header s) \<and>
      length headers \<le> 1 \<and>
      (headers \<noteq> [] \<longrightarrow> parsing_header s) \<and>
      (On_response \<in> set headers \<longrightarrow> waiting_for_response s \<noteq> None) \<and>
      (On_request \<in> set headers \<longrightarrow> waiting_for_request s \<noteq> None) \<and>
      length (reports ts) \<le> 1 \<and>
      (reports ts \<noteq> [] \<longrightarrow> waiting_for_request s \<noteq> None \<and> parsing_header s \<and> headers = []))"

lemma headers_simps [simp]:
  "task_headers [] = []" "reports [] = []"
  "task_headers (xs @ ys) = task_headers xs @ task_headers ys"
  "reports (xs @ ys) = reports xs @ reports ys"
  "task_headers (t # ts) =
     (case t of Parsed k r \<Rightarrow> if is_On_body k then [] else [k] | _ \<Rightarrow> []) @ task_headers ts"
  "reports (t # ts) = (case t of Report_to_request w ec \<Rightarrow> if w then [ec] else [] | _ \<Rightarrow> []) @ reports ts"
  by (simp_all add: task_headers_def reports_def)

lemma headers_calls [simp]: "task_headers (map Perform calls) = []" "reports (map Perform calls) = []"
  by (induction calls) simp_all

lemma reading_headers_update [simp]:
  "reading_headers (s\<lparr>octets := x\<rparr>) = reading_headers s"
  "reading_headers (s\<lparr>locked := l\<rparr>) = reading_headers s"
  "reading_headers (s\<lparr>begin_parse_message := b\<rparr>) = reading_headers s"
  "reading_headers (s\<lparr>waiting_for_request := w\<rparr>) = reading_headers s"
  "reading_headers (s\<lparr>waiting_for_response := w'\<rparr>) = reading_headers s"
  "reading_headers (s\<lparr>parsing_header := h\<rparr>) = reading_headers s"
  "reading_headers (s\<lparr>reading := None\<rparr>) = []"
  "reading_headers (s\<lparr>reading := Some op\<rparr>) =
     (if is_On_body (op_continuation op) then [] else [op_continuation op])"
  by (simp_all add: reading_headers_def)

lemma reading_headers_None: "reading s = None \<Longrightarrow> reading_headers s = []"
  by (simp add: reading_headers_def)

lemma after_parse_inv:
  assumes inv: "splitter_inv ts s"
    and owed: "\<not> is_On_body k \<Longrightarrow> parsing_header s \<and> reading_headers s = [] \<and> task_headers ts = [] \<and>
      reports ts = [] \<and> (k = On_response \<longrightarrow> waiting_for_response s \<noteq> None) \<and>
      (k = On_request \<longrightarrow> waiting_for_request s \<noteq> None)"
    and run: "after_parse k s out = Inr ((s', ts'), es)"
  shows "splitter_inv (ts' @ ts) s'"
proof -
  obtain op ev where out: "out = (op, ev)" by (cases out)
  show ?thesis
  proof (cases ev)
    case (On_result i r)
    with run out have "s' = s\<lparr>octets := receive_buffer op\<rparr>" "ts' = [Parsed k r]"
      by (cases r; simp)+
    with inv owed show ?thesis by (auto simp: splitter_inv_def Let_def)
  next
    case (Async_read_some n)
    with run out have "s' = s\<lparr>octets := receive_buffer op, reading := Some (Read_operation (parser op) k)\<rparr>"
      "ts' = []" "reading s = None"
      by (simp_all split: if_splits)
    with inv owed show ?thesis
      by (auto simp: splitter_inv_def Let_def reading_headers_None)
  qed
qed

lemma parse_inv:
  assumes "splitter_inv ts s"
    and "\<not> is_On_body k \<Longrightarrow> parsing_header s \<and> reading_headers s = [] \<and> task_headers ts = [] \<and>
      reports ts = [] \<and> (k = On_response \<longrightarrow> waiting_for_response s \<noteq> None) \<and>
      (k = On_request \<longrightarrow> waiting_for_request s \<noteq> None)"
    and "parse_from_buffer is_valid k s = Inr ((s', ts'), es)"
  shows "splitter_inv (ts' @ ts) s'"
  using assms(3) by (auto simp: parse_from_buffer_def and_then_Inr_iff intro: after_parse_inv [OF assms(1,2)])

lemma call_begin_inv:
  assumes inv: "splitter_inv ts s" and idle: "\<not> parsing_header s"
    and run: "call_begin_parse_message is_valid s = Inr ((s', ts'), es)"
  shows "splitter_inv (ts' @ ts) s'"
proof (cases "locked s")
  case True
  with run inv show ?thesis by (auto simp: call_begin_parse_message_def split: if_splits)
next
  case False
  with run have run': "parse_from_buffer is_valid On_message_type
      (s\<lparr>begin_parse_message := False, parsing_header := True\<rparr>) = Inr ((s', ts'), es)"
    by (auto simp: call_begin_parse_message_def split: if_splits)
  from inv idle False show ?thesis
    by (intro parse_inv [OF _ _ run']) (auto simp: splitter_inv_def Let_def)
qed

lemma wait_for_response_inv:
  assumes "splitter_inv ts s" and "wait_for_response is_valid h s = Inr ((s', ts'), es)"
  shows "splitter_inv (ts' @ ts) s'"
proof -
  from assms(1) have "splitter_inv ts (s\<lparr>waiting_for_response := Some h, begin_parse_message := True\<rparr>)"
    by (auto simp: splitter_inv_def Let_def)
  with assms(2) show ?thesis
    by (auto simp: wait_for_response_def and_then_Inr_iff intro: call_begin_inv split: if_splits)
qed

lemma wait_for_request_inv:
  assumes "splitter_inv ts s" and "wait_for_request is_valid h s = Inr ((s', ts'), es)"
  shows "splitter_inv (ts' @ ts) s'"
proof -
  from assms(1) have "splitter_inv ts (s\<lparr>waiting_for_request := Some h, begin_parse_message := True\<rparr>)"
    by (auto simp: splitter_inv_def Let_def)
  with assms(2) show ?thesis
    by (auto simp: wait_for_request_def and_then_Inr_iff intro: call_begin_inv split: if_splits)
qed

lemma lock_inv:
  "splitter_inv ts s \<Longrightarrow> lock_input s = Inr ((s', ts'), es) \<Longrightarrow> splitter_inv (ts' @ ts) s'"
  by (auto simp: lock_input_def splitter_inv_def Let_def split: if_splits)

lemma unlock_inv:
  assumes "splitter_inv ts s" and "unlock_input is_valid s = Inr ((s', ts'), es)"
  shows "splitter_inv (ts' @ ts) s'"
proof -
  from assms(1) have "splitter_inv ts (s\<lparr>locked := False\<rparr>)"
    by (auto simp: splitter_inv_def Let_def)
  with assms(2) show ?thesis
    by (auto simp: unlock_input_def Let_def intro: call_begin_inv split: if_splits)
qed

text \<open>An error is reported when the header parser has ended, so nothing will read the stream.\<close>

lemma on_error_inv:
  assumes "splitter_inv (Parsed k r # ts) s" and "\<not> is_On_body k"
    and "splitter_on_error ec s = Inr ((s', ts'), es)"
  shows "splitter_inv (ts' @ ts) s'"
  using assms
  by (cases "waiting_for_request s")
    (auto simp: splitter_on_error_def splitter_inv_def Let_def split: option.splits)

lemma message_type_cases:
  "(\<exists>ec. message_type_parsed is_valid r s = splitter_on_error ec s) \<or>
   waiting_for_response s \<noteq> None \<and>
     message_type_parsed is_valid r s = parse_from_buffer is_valid On_response s \<or>
   waiting_for_request s \<noteq> None \<and>
     message_type_parsed is_valid r s = parse_from_buffer is_valid On_request s"
  by (cases r) (auto simp: message_type_parsed_def)

lemma message_type_inv:
  assumes inv: "splitter_inv (Parsed On_message_type r # ts) s"
    and run: "message_type_parsed is_valid r s = Inr ((s', ts'), es)"
  shows "splitter_inv (ts' @ ts) s'"
proof -
  from inv have rest: "splitter_inv ts s" "parsing_header s \<and> reading_headers s = [] \<and>
      task_headers ts = [] \<and> reports ts = []"
    by (auto simp: splitter_inv_def Let_def)
  consider (error) ec where "message_type_parsed is_valid r s = splitter_on_error ec s"
    | (response) "waiting_for_response s \<noteq> None"
        "message_type_parsed is_valid r s = parse_from_buffer is_valid On_response s"
    | (request) "waiting_for_request s \<noteq> None"
        "message_type_parsed is_valid r s = parse_from_buffer is_valid On_request s"
    using message_type_cases [of is_valid r s] by blast
  then show ?thesis
  proof cases
    case (error ec)
    with run on_error_inv [OF inv] show ?thesis by simp
  next
    case response
    with run rest(2) show ?thesis by (intro parse_inv [OF rest(1)]) auto
  next
    case request
    with run rest(2) show ?thesis by (intro parse_inv [OF rest(1)]) auto
  qed
qed

lemma response_parsed_inv:
  assumes "splitter_inv (Parsed On_response r # ts) s" and "response_parsed r s = Inr ((s', ts'), es)"
  shows "splitter_inv (ts' @ ts) s'"
proof (cases r)
  case (Inl ec)
  with assms show ?thesis
    by (auto simp: response_parsed_def split: option.splits intro: on_error_inv)
next
  case (Inr v)
  with assms show ?thesis
    by (auto simp: response_parsed_def splitter_inv_def Let_def split: option.splits if_splits)
qed

lemma request_parsed_inv:
  assumes "splitter_inv (Parsed On_request r # ts) s" and "request_parsed r s = Inr ((s', ts'), es)"
  shows "splitter_inv (ts' @ ts) s'"
proof (cases r)
  case (Inl ec)
  with assms show ?thesis
    by (auto simp: request_parsed_def split: option.splits intro: on_error_inv)
next
  case (Inr v)
  with assms show ?thesis
    by (auto simp: request_parsed_def splitter_inv_def Let_def split: option.splits if_splits)
qed

lemma splitter_inv_tail [simp]:
  "splitter_inv (Perform c # ts) s = splitter_inv ts s"
  "splitter_inv (After_response b # ts) s = splitter_inv ts s"
  "splitter_inv (After_request b # ts) s = splitter_inv ts s"
  "splitter_inv (Parsed (On_body p f) r # ts) s = splitter_inv ts s"
  "splitter_inv (map Perform calls @ ts) s = splitter_inv ts s"
  by (simp_all add: splitter_inv_def)

lemma run_task_inv:
  assumes inv: "splitter_inv (t # ts) s" and run: "run_task is_valid t s = Inr ((s', ts'), es)"
  shows "splitter_inv (ts' @ ts) s'"
  using run inv
proof (cases rule: run_task.cases [of "(is_valid, t, s)"])
  case (6 is_valid p f s)
  with inv run parse_inv [of ts s "On_body p f"] show ?thesis by simp
next
  case (13 is_valid w ec s)
  with inv run show ?thesis
    by (auto simp: report_to_request_def splitter_inv_def Let_def split: if_splits option.splits)
qed (use inv run in \<open>auto intro: wait_for_response_inv wait_for_request_inv lock_inv unlock_inv
    parse_inv message_type_inv response_parsed_inv request_parsed_inv call_begin_inv
    simp: after_response_def after_request_def split: if_splits\<close>)

lemma read_completes_inv:
  assumes inv: "splitter_inv [] s" and run: "read_completes is_valid ec read s = Inr ((s', ts'), es)"
  shows "splitter_inv ts' s'"
proof -
  from run obtain p k es' where reading: "reading s = Some (Read_operation p k)"
    and run': "after_parse k (s\<lparr>reading := None\<rparr>)
      (on_read (parser_class_of is_valid (continuation_parser k)) ec read
        \<lparr>receive_buffer = octets s, parser = p\<rparr>) = Inr ((s', ts'), es')"
    by (auto simp: read_completes_def and_then_Inr_iff split: option.splits read_operation.splits)
  have inv': "splitter_inv [] (s\<lparr>reading := None\<rparr>)"
    using inv reading by (auto simp: splitter_inv_def Let_def)
  have "splitter_inv (ts' @ []) s'"
    by (rule after_parse_inv [OF inv' _ run'])
      (use inv reading in \<open>auto simp: splitter_inv_def Let_def reading_headers_def split: if_splits\<close>)
  then show ?thesis by simp
qed

definition connection_inv :: "('k, 'c) connection \<Rightarrow> bool" where
  "connection_inv c \<longleftrightarrow> splitter_inv (tasks c) (splitter c)"

lemma connection_inv_init: "connection_inv (connection_init c)"
  by (simp add: connection_inv_def connection_init_def splitter_inv_def message_splitter_init_def
      reading_headers_def)

lemma push_tasks_iff:
  "push_tasks c rest out = Inr (c', es) \<longleftrightarrow>
   (\<exists>s ts es'. out = Inr ((s, ts), es') \<and> c' = c\<lparr>splitter := s, tasks := ts @ rest\<rparr> \<and>
     es = map Splitter_event es')"
  "push_tasks c rest out = Inl f \<longleftrightarrow> out = Inl f"
  by (auto simp: push_tasks_def split: sum.splits)

text \<open>What a step does, in the cases that matter.\<close>

lemma connection_step_cases:
  assumes "connection_step is_valid client_code c i = r"
  obtains (idle) "i = Run_task" "tasks c = []" "r = Inr (c, [])"
    | (client_code) k rest c' calls es where "i = Run_task" "tasks c = Client k # rest"
        "client_code k (client c) = Inr ((c', calls), es)"
        "r = Inr (c\<lparr>client := c', tasks := map Perform calls @ rest\<rparr>, map Client_event es)"
    | (client_assertion) k rest where "i = Run_task" "tasks c = Client k # rest"
        "client_code k (client c) = Inl ()" "r = Inl Client_assertion"
    | (task) t rest where "i = Run_task" "tasks c = t # rest" "\<forall>k. t \<noteq> Client k"
        "push_tasks c rest (run_task is_valid t (splitter c)) = r"
    | (called) k where "i = Call k" "tasks c = []" "r = Inr (c\<lparr>tasks := [Client k]\<rparr>, [])"
    | (read) ec bs where "i = Read_completes ec bs" "tasks c = []"
        "push_tasks c [] (read_completes is_valid ec bs (splitter c)) = r"
    | (re_entered) "r = Inl Re_entered"
proof (cases i)
  case Run_task
  show ?thesis
  proof (cases "tasks c")
    case Nil
    with Run_task assms show ?thesis by (intro idle) auto
  next
    case (Cons t rest)
    show ?thesis
    proof (cases "\<exists>k. t = Client k")
      case True
      then obtain k where "t = Client k" by blast
      with Run_task Cons assms show ?thesis
        by (cases "client_code k (client c)") (auto intro: client_code client_assertion)
    next
      case False
      with Run_task Cons assms show ?thesis
        by (intro task) (auto split: task.splits call.splits)
    qed
  qed
next
  case (Call k)
  with assms show ?thesis by (cases "tasks c = []") (auto intro: called re_entered)
next
  case (Read_completes ec bs)
  with assms show ?thesis by (cases "tasks c = []") (auto intro: read re_entered)
qed

lemma connection_inv_step:
  assumes inv: "connection_inv c" and step: "connection_step is_valid client_code c i = Inr (c', es)"
  shows "connection_inv c'"
  using step
proof (cases rule: connection_step_cases)
  case (task t rest)
  then obtain s' ts' es' where run: "run_task is_valid t (splitter c) = Inr ((s', ts'), es')"
    and c': "c' = c\<lparr>splitter := s', tasks := ts' @ rest\<rparr>"
    by (auto simp: push_tasks_iff)
  from inv task(2) have "splitter_inv (t # rest) (splitter c)" by (simp add: connection_inv_def)
  from run_task_inv [OF this run] c' show ?thesis by (simp add: connection_inv_def)
next
  case (read ec bs)
  then show ?thesis
    using inv by (auto simp: push_tasks_iff connection_inv_def intro: read_completes_inv)
qed (use inv in \<open>auto simp: connection_inv_def\<close>)

subsection \<open>The assertions inside the splitter\<close>

definition client_fault :: "splitter_failure \<Rightarrow> bool" where
  "client_fault f \<longleftrightarrow>
     f \<in> {Already_waiting_for_response, Already_waiting_for_request, Lock_while_parsing_header,
       Lock_while_locked, Unlock_while_parsing_header, Unlock_while_unlocked, Second_read,
       No_read_outstanding, Re_entered, Client_assertion, Begin_parse_message_missing}"

lemma after_parse_blame: "after_parse k s out = Inl f \<Longrightarrow> f = Second_read"
  by (induction k s out rule: after_parse.induct) (simp_all split: if_splits)

lemma parse_blame: "parse_from_buffer is_valid k s = Inl f \<Longrightarrow> f = Second_read"
  by (auto simp: parse_from_buffer_def and_then_Inl_iff dest: after_parse_blame)

lemma call_begin_blame:
  "\<not> parsing_header s \<Longrightarrow> waiting_for_response s \<noteq> None \<or> waiting_for_request s \<noteq> None \<Longrightarrow>
   call_begin_parse_message is_valid s = Inl f \<Longrightarrow> f = Second_read"
  by (auto simp: call_begin_parse_message_def dest: parse_blame split: if_splits)

lemma on_error_total: "splitter_on_error ec s \<noteq> Inl f"
  by (simp add: splitter_on_error_def Let_def split: option.splits)

lemma message_type_blame: "message_type_parsed is_valid r s = Inl f \<Longrightarrow> f = Second_read"
  using message_type_cases [of is_valid r s] on_error_total parse_blame by metis

lemma run_task_blame:
  assumes inv: "splitter_inv (t # ts) s" and run: "run_task is_valid t s = Inl f"
  shows "client_fault f"
  using run inv
proof (cases rule: run_task.cases [of "(is_valid, t, s)"])
  case (2 is_valid h s)
  with run inv show ?thesis
    by (auto simp: wait_for_response_def and_then_Inl_iff client_fault_def split: if_splits
        dest!: call_begin_blame [rotated 2])
next
  case (3 is_valid h s)
  with run inv show ?thesis
    by (auto simp: wait_for_request_def and_then_Inl_iff client_fault_def split: if_splits
        dest!: call_begin_blame [rotated 2])
qed (use inv run in \<open>auto simp: lock_input_def unlock_input_def Let_def response_parsed_def
    request_parsed_def after_response_def after_request_def report_to_request_def on_error_total
    client_fault_def splitter_inv_def split: if_splits option.splits sum.splits
    dest!: call_begin_blame [rotated 2] parse_blame message_type_blame\<close>)

lemma connection_step_blame:
  assumes inv: "connection_inv c" and step: "connection_step is_valid client_code c i = Inl f"
  shows "client_fault f"
  using step
proof (cases rule: connection_step_cases)
  case (task t rest)
  with inv run_task_blame [of t rest "splitter c"] show ?thesis
    by (auto simp: push_tasks_iff connection_inv_def)
next
  case (read ec bs)
  then show ?thesis
    by (auto simp: push_tasks_iff and_then_Inl_iff read_completes_def client_fault_def
        split: option.splits read_operation.splits dest!: after_parse_blame)
qed (simp_all add: client_fault_def)

interpretation connection: blamed_failures "connection_step is_valid client_code" "\<lambda>tr. connection_inv"
  client_fault for is_valid client_code
  by unfold_locales (auto intro: connection_inv_step connection_step_blame)

subsection \<open>Framing\<close>

definition received :: "splitter_event list \<Rightarrow> bytes" where
  "received tr = concat (map (\<lambda>e. case e of Octets_read bs \<Rightarrow> bs | _ \<Rightarrow> []) tr)"

definition delivered_encodings :: "splitter_event list \<Rightarrow> bytes" where
  "delivered_encodings tr = concat (map (\<lambda>e. case e of Delivered p v \<Rightarrow> encode p v | _ \<Rightarrow> []) tr)"

lemma received_simps [simp]:
  "received [] = []" "delivered_encodings [] = []"
  "received (xs @ ys) = received xs @ received ys"
  "delivered_encodings (xs @ ys) = delivered_encodings xs @ delivered_encodings ys"
  "received (e # tr) = (case e of Octets_read bs \<Rightarrow> bs | _ \<Rightarrow> []) @ received tr"
  "delivered_encodings (e # tr) = (case e of Delivered p v \<Rightarrow> encode p v | _ \<Rightarrow> []) @ delivered_encodings tr"
  by (simp_all add: received_def delivered_encodings_def)

text \<open>No parse has failed, and no type parsed hides an empty tuple or structure inside.\<close>

definition clean :: "splitter_event list \<Rightarrow> bool" where
  "clean tr \<longleftrightarrow> list_all (\<lambda>e. case e of Parse_failed ec \<Rightarrow> False | Parse_started p \<Rightarrow> parsed_alone p | _ \<Rightarrow> True) tr"

lemma clean_simps [simp]:
  "clean []" "clean (xs @ ys) \<longleftrightarrow> clean xs \<and> clean ys"
  "clean (e # tr) \<longleftrightarrow>
     (case e of Parse_failed ec \<Rightarrow> False | Parse_started p \<Rightarrow> parsed_alone p | _ \<Rightarrow> True) \<and> clean tr"
  by (simp_all add: clean_def)

definition parser_of :: "(bytes \<Rightarrow> bool) \<Rightarrow> 'k continuation \<Rightarrow> value_class" where
  "parser_of is_valid k = parser_class_of is_valid (continuation_parser k)"

definition framed ::
  "(bytes \<Rightarrow> bool) \<Rightarrow> splitter_event list \<Rightarrow> 'k message_splitter \<Rightarrow> bytes \<Rightarrow> bool" where
  "framed is_valid tr s partial \<longleftrightarrow>
     received tr = delivered_encodings tr @ partial @ octets s \<and>
     (case reading s of
        None \<Rightarrow> partial = []
      | Some op \<Rightarrow> octets s = [] \<and> no_empty (continuation_parser (op_continuation op)) \<and>
          reached_by (parser_of is_valid (op_continuation op)) partial (op_state op)) \<and>
     (\<forall>p v. Delivered p v \<in> set tr \<longrightarrow> value_ok is_valid p v)"

definition frame_inv ::
  "(bytes \<Rightarrow> bool) \<Rightarrow> splitter_event list \<Rightarrow> 'k message_splitter \<Rightarrow> bool" where
  "frame_inv is_valid tr s \<longleftrightarrow> (clean tr \<longrightarrow> (\<exists>partial. framed is_valid tr s partial))"

text \<open>
  A parse that goes on from a reached state: it delivers a value whose encoding is what it has
  seen and taken, or has taken the whole buffer.
\<close>

lemma start_takes:
  assumes p: "no_empty p" and reached: "reached_by (parser_class_of is_valid p) seen q"
    and run: "start (parser_class_of is_valid p) sure \<lparr>receive_buffer = bs, parser = q\<rparr> = (op, ev)"
  shows "ev = On_result i (Inr v) \<Longrightarrow> value_ok is_valid p v \<and> seen @ bs = encode p v @ receive_buffer op"
    and "ev = Async_read_some n \<Longrightarrow>
      receive_buffer op = [] \<and> reached_by (parser_class_of is_valid p) (seen @ bs) (parser op)"
proof -
  let ?c = "parser_class_of is_valid p"
  note feed = start_feed [OF no_empty_never_immediate [OF p], of is_valid seen
      "\<lparr>receive_buffer = bs, parser = q\<rparr>" sure] reached
  have whole: "feed (class_parse ?c) (class_init ?c) (seen @ bs) = feed (class_parse ?c) q bs"
    using reached by (simp add: reached_by_def feed_append)
  show "value_ok is_valid p v \<and> seen @ bs = encode p v @ receive_buffer op"
    if "ev = On_result i (Inr v)"
  proof -
    from feed run that have "feed (class_parse ?c) q bs = Done v (receive_buffer op)"
      by (cases "feed (class_parse ?c) q bs") auto
    with whole byte_parser.accepts [OF parser_class_contract [OF p]] show ?thesis by metis
  qed
  show "receive_buffer op = [] \<and> reached_by ?c (seen @ bs) (parser op)"
    if "ev = Async_read_some n"
  proof -
    from feed run that have "feed (class_parse ?c) q bs = Pending (parser op) \<and> receive_buffer op = []"
      by (cases "feed (class_parse ?c) q bs") auto
    with whole show ?thesis by (simp add: reached_by_def)
  qed
qed

lemma after_parse_frame:
  assumes p: "no_empty (continuation_parser k)" and reached: "reached_by (parser_of is_valid k) seen q"
    and out: "start (parser_of is_valid k) sure \<lparr>receive_buffer = bs, parser = q\<rparr> = out"
    and run: "after_parse k s out = Inr ((s', ts'), es)"
    and r: "reading s = None"
    and tr: "received tr = delivered_encodings tr @ seen @ bs"
      "\<forall>p v. Delivered p v \<in> set tr \<longrightarrow> value_ok is_valid p v"
  shows "frame_inv is_valid (tr @ es) s'"
proof -
  obtain op ev where ev: "out = (op, ev)" by (cases out)
  note takes = start_takes [OF p reached [unfolded parser_of_def] out [unfolded parser_of_def ev]]
  show ?thesis
  proof (cases ev)
    case (On_result i r)
    show ?thesis
    proof (cases r)
      case (Inl ec)
      with run ev On_result show ?thesis by (auto simp: frame_inv_def)
    next
      case (Inr v)
      with takes(1) On_result have "value_ok is_valid (continuation_parser k) v"
        "seen @ bs = encode (continuation_parser k) v @ receive_buffer op" by auto
      with run ev On_result Inr r tr p show ?thesis
        by (auto simp: frame_inv_def framed_def intro!: exI [of _ "[]"])
    qed
  next
    case (Async_read_some n)
    with takes(2) run ev r tr p show ?thesis
      by (auto simp: frame_inv_def framed_def parser_of_def intro!: exI [of _ "seen @ bs"])
  qed
qed

lemma after_parse_second_read:
  assumes p: "no_empty (continuation_parser k)" and r: "reading s \<noteq> None" and empty: "octets s = []"
  shows "after_parse k s (begin_parse_value (parser_of is_valid k) (octets s)) = Inl Second_read"
proof -
  let ?c = "parser_of is_valid k"
  have "start ?c False \<lparr>receive_buffer = [], parser = class_init ?c\<rparr> =
      (\<lparr>receive_buffer = [], parser = class_init ?c\<rparr>, Async_read_some 512)"
    using start_feed [OF no_empty_never_immediate [OF p], of is_valid "[]"
        "\<lparr>receive_buffer = [], parser = class_init ?c\<rparr>" False]
    by (simp add: reached_by_def parser_of_def)
  with empty r show ?thesis by (simp add: begin_parse_value_def)
qed

lemma parse_frame:
  assumes inv: "frame_inv is_valid tr s" and run: "parse_from_buffer is_valid k s = Inr ((s', ts'), es)"
  shows "frame_inv is_valid (tr @ es) s'"
proof (cases "clean (tr @ es)")
  case True
  from run obtain es' where es: "es = Parse_started (continuation_parser k) # es'"
    and run': "after_parse k s (begin_parse_value (parser_of is_valid k) (octets s)) = Inr ((s', ts'), es')"
    by (auto simp: parse_from_buffer_def and_then_Inr_iff parser_of_def)
  from True es have p: "parsed_alone (continuation_parser k)" and "clean tr" by simp_all
  with inv obtain partial where f: "framed is_valid tr s partial" by (auto simp: frame_inv_def)
  from p consider (nothing) "takes_nothing (continuation_parser k)" | (something) "no_empty (continuation_parser k)"
    by (auto simp: parsed_alone_def)
  then show ?thesis
  proof cases
    case nothing
    from begin_parse_nothing [OF this, of is_valid "octets s"] obtain i v op where
      "begin_parse_value (parser_of is_valid k) (octets s) = (op, On_result i (Inr v))"
      "receive_buffer op = octets s" "value_ok is_valid (continuation_parser k) v"
      "encode (continuation_parser k) v = []"
      by (auto simp: parser_of_def)
    with run' es f show ?thesis
      by (auto simp: frame_inv_def framed_def intro!: exI [of _ partial])
  next
    case something
    show ?thesis
    proof (cases "reading s")
      case None
      with f have "received (tr @ [Parse_started (continuation_parser k)]) =
          delivered_encodings (tr @ [Parse_started (continuation_parser k)]) @ [] @ octets s"
        "\<forall>p v. Delivered p v \<in> set (tr @ [Parse_started (continuation_parser k)]) \<longrightarrow> value_ok is_valid p v"
        by (auto simp: framed_def)
      from after_parse_frame [OF something reached_by_init [of "parser_of is_valid k"]
          begin_parse_value_def [symmetric] run' None this] es
      show ?thesis by simp
    next
      case (Some op)
      with f have "octets s = []" by (simp add: framed_def)
      with after_parse_second_read [OF something _ this] Some run' show ?thesis by simp
    qed
  qed
qed (auto simp: frame_inv_def)

lemma read_frame:
  assumes inv: "frame_inv is_valid tr s" and run: "read_completes is_valid ec bs s = Inr ((s', ts'), es)"
  shows "frame_inv is_valid (tr @ es) s'"
proof (cases "clean (tr @ es)")
  case True
  from run obtain q k es' where reading: "reading s = Some (Read_operation q k)"
    and es: "es = Octets_read (if ec = None then bs else []) # es'"
    and run': "after_parse k (s\<lparr>reading := None\<rparr>)
      (on_read (parser_of is_valid k) ec bs \<lparr>receive_buffer = octets s, parser = q\<rparr>) = Inr ((s', ts'), es')"
    by (auto simp: read_completes_def and_then_Inr_iff parser_of_def
        split: option.splits read_operation.splits)
  from run' es True have ec: "ec = None"
    by (cases ec) (auto simp: on_read_def)
  from True inv obtain partial where f: "framed is_valid tr s partial" by (auto simp: frame_inv_def)
  with reading have k: "no_empty (continuation_parser k)" "reached_by (parser_of is_valid k) partial q"
    "octets s = []" by (auto simp: framed_def)
  have out: "start (parser_of is_valid k) True \<lparr>receive_buffer = bs, parser = q\<rparr> =
      on_read (parser_of is_valid k) ec bs \<lparr>receive_buffer = octets s, parser = q\<rparr>"
    using k(3) ec by (simp add: on_read_def)
  have "frame_inv is_valid ((tr @ [Octets_read bs]) @ es') s'"
    by (rule after_parse_frame [OF k(1,2) out run']) (use f k in \<open>auto simp: framed_def\<close>)
  with es ec show ?thesis by simp
qed (auto simp: frame_inv_def)

text \<open>Everything else a task does leaves the buffer, the read and the delivered values alone.\<close>

lemma frame_inv_cong:
  assumes "frame_inv is_valid tr s" and "octets s' = octets s" and "reading s' = reading s"
    and "list_all (\<lambda>e. case e of Octets_read bs \<Rightarrow> False | Delivered p v \<Rightarrow> False | _ \<Rightarrow> True) es"
  shows "frame_inv is_valid (tr @ es) s'"
proof -
  from assms(4) have "received es = [] \<and> delivered_encodings es = [] \<and> (\<forall>p v. Delivered p v \<notin> set es)"
    by (induction es) (auto split: splitter_event.splits)
  then have "framed is_valid tr s partial \<Longrightarrow> framed is_valid (tr @ es) s' partial" for partial
    using assms(2,3) by (cases "reading s") (simp_all add: framed_def)
  with assms(1) show ?thesis
    by (auto simp: frame_inv_def)
qed

lemmas frame_inv_cong_Nil = frame_inv_cong [where es = "[]", simplified]

lemma call_begin_frame:
  assumes "frame_inv is_valid tr s" and "call_begin_parse_message is_valid s = Inr ((s', ts'), es)"
  shows "frame_inv is_valid (tr @ es) s'"
proof (cases "locked s")
  case True
  with assms show ?thesis by (auto simp: call_begin_parse_message_def split: if_splits)
next
  case False
  have "frame_inv is_valid (tr @ []) (s\<lparr>begin_parse_message := False, parsing_header := True\<rparr>)"
    by (rule frame_inv_cong [OF assms(1)]) simp_all
  with assms False show ?thesis
    by (auto simp: call_begin_parse_message_def intro: parse_frame split: if_splits)
qed

lemma wait_frame:
  assumes "frame_inv is_valid tr s"
  shows "wait_for_response is_valid h s = Inr ((s', ts'), es) \<Longrightarrow> frame_inv is_valid (tr @ es) s'"
    and "wait_for_request is_valid h' s = Inr ((s', ts'), es) \<Longrightarrow> frame_inv is_valid (tr @ es) s'"
proof -
  have "frame_inv is_valid (tr @ [Waited_for_response])
      (s\<lparr>waiting_for_response := Some h, begin_parse_message := True\<rparr>)"
    by (rule frame_inv_cong [OF assms]) simp_all
  then show "wait_for_response is_valid h s = Inr ((s', ts'), es) \<Longrightarrow> frame_inv is_valid (tr @ es) s'"
    using call_begin_frame
    by (fastforce simp: wait_for_response_def and_then_Inr_iff split: if_splits)
next
  have "frame_inv is_valid (tr @ [Waited_for_request])
      (s\<lparr>waiting_for_request := Some h', begin_parse_message := True\<rparr>)"
    by (rule frame_inv_cong [OF assms]) simp_all
  then show "wait_for_request is_valid h' s = Inr ((s', ts'), es) \<Longrightarrow> frame_inv is_valid (tr @ es) s'"
    using call_begin_frame
    by (fastforce simp: wait_for_request_def and_then_Inr_iff split: if_splits)
qed

lemma unlock_frame:
  assumes "frame_inv is_valid tr s" and "unlock_input is_valid s = Inr ((s', ts'), es)"
  shows "frame_inv is_valid (tr @ es) s'"
proof -
  have "frame_inv is_valid (tr @ []) (s\<lparr>locked := False\<rparr>)"
    by (rule frame_inv_cong [OF assms(1)]) simp_all
  with assms(2) show ?thesis
    by (auto simp: unlock_input_def Let_def intro: call_begin_frame split: if_splits)
qed

lemma on_error_frame:
  assumes "frame_inv is_valid tr s" and "splitter_on_error ec s = Inr ((s', ts'), es)"
  shows "frame_inv is_valid (tr @ es) s'"
  by (rule frame_inv_cong [OF assms(1)])
    (use assms(2) in \<open>auto simp: splitter_on_error_def Let_def split: option.splits\<close>)

lemma message_type_frame:
  assumes "frame_inv is_valid tr s" and "message_type_parsed is_valid r s = Inr ((s', ts'), es)"
  shows "frame_inv is_valid (tr @ es) s'"
  using message_type_cases [of is_valid r s] assms on_error_frame parse_frame by metis

lemma parsed_frame:
  assumes "frame_inv is_valid tr s"
  shows "response_parsed r s = Inr ((s', ts'), es) \<Longrightarrow> frame_inv is_valid (tr @ es) s'"
    and "request_parsed r s = Inr ((s', ts'), es) \<Longrightarrow> frame_inv is_valid (tr @ es) s'"
  by (auto simp: response_parsed_def request_parsed_def
      split: option.splits sum.splits if_splits
      intro: on_error_frame [OF assms] frame_inv_cong [OF assms])

lemma run_task_frame:
  assumes "frame_inv is_valid tr s" and "run_task is_valid t s = Inr ((s', ts'), es)"
  shows "frame_inv is_valid (tr @ es) s'"
  using assms
proof (cases rule: run_task.cases [of "(is_valid, t, s)"])
  case (4 is_valid s)
  with assms show ?thesis
    by (auto simp: lock_input_def intro: frame_inv_cong_Nil split: if_splits)
next
  case (13 is_valid w ec s)
  with assms show ?thesis
    by (auto simp: report_to_request_def intro: frame_inv_cong split: if_splits option.splits)
qed (use assms in \<open>auto intro: wait_frame unlock_frame parse_frame message_type_frame parsed_frame
    call_begin_frame simp: after_response_def after_request_def split: if_splits\<close>)

definition splitter_events :: "'e connection_event list \<Rightarrow> splitter_event list" where
  "splitter_events tr = concat (map (\<lambda>e. case e of Splitter_event e \<Rightarrow> [e] | Client_event e \<Rightarrow> []) tr)"

lemma splitter_events_simps [simp]:
  "splitter_events [] = []"
  "splitter_events (xs @ ys) = splitter_events xs @ splitter_events ys"
  "splitter_events (e # tr) =
     (case e of Splitter_event e \<Rightarrow> [e] | Client_event e \<Rightarrow> []) @ splitter_events tr"
  by (simp_all add: splitter_events_def)

lemma splitter_events_map [simp]:
  "splitter_events (map Splitter_event es) = es" "splitter_events (map Client_event es') = []"
  by (induction es, simp_all) (induction es', simp_all)

lemma connection_frame_step:
  assumes inv: "frame_inv is_valid (splitter_events tr) (splitter c)"
    and step: "connection_step is_valid client_code c i = Inr (c', es)"
  shows "frame_inv is_valid (splitter_events (tr @ es)) (splitter c')"
  using step
  by (cases rule: connection_step_cases)
    (use inv in \<open>auto simp: push_tasks_iff intro: run_task_frame read_frame\<close>)

interpretation framing: traced_invariant "connection_step is_valid client_code"
  "\<lambda>tr c. frame_inv is_valid (splitter_events tr) (splitter c)" for is_valid client_code
  by unfold_locales (rule connection_frame_step)

lemma frame_inv_init: "frame_inv is_valid [] message_splitter_init"
  by (auto simp: frame_inv_def framed_def message_splitter_init_def)

subsection \<open>After an error\<close>

text \<open>
  \<open>on_error\<close> leaves \<open>parsing_header\<close> set although no header is being parsed any more: no
  message can reach a handler from then on.
\<close>

definition ended :: "'k task list \<Rightarrow> 'k message_splitter \<Rightarrow> bool" where
  "ended ts s \<longleftrightarrow> parsing_header s \<and> reading_headers s = [] \<and>
     list_all (\<lambda>t. case t of Parsed k r \<Rightarrow> is_On_body k \<or> isl r | _ \<Rightarrow> True) ts"

definition no_message :: "splitter_event list \<Rightarrow> bool" where
  "no_message tr \<longleftrightarrow> list_all (\<lambda>e. case e of Response_handler_called r \<Rightarrow> isl r
     | Request_handler_called r \<Rightarrow> isl r | _ \<Rightarrow> True) tr"

lemma no_message_simps [simp]:
  "no_message []" "no_message (xs @ ys) \<longleftrightarrow> no_message xs \<and> no_message ys"
  "no_message (e # tr) \<longleftrightarrow> (case e of Response_handler_called r \<Rightarrow> isl r
     | Request_handler_called r \<Rightarrow> isl r | _ \<Rightarrow> True) \<and> no_message tr"
  by (simp_all add: no_message_def)

lemma ended_simps [simp]:
  "ended (t # ts) s \<longleftrightarrow> (case t of Parsed k r \<Rightarrow> is_On_body k \<or> isl r | _ \<Rightarrow> True) \<and> ended ts s"
  "ended (map Perform calls @ ts) s \<longleftrightarrow> ended ts s"
  by (auto simp: ended_def list_all_iff)

lemma after_parse_ended:
  assumes "ended ts s" and "after_parse (On_body p f) s out = Inr ((s', ts'), es)"
  shows "ended (ts' @ ts) s' \<and> no_message es"
proof -
  obtain op ev where out: "out = (op, ev)" by (cases out)
  show ?thesis
  proof (cases ev)
    case (On_result i r)
    with out assms show ?thesis by (cases r) (auto simp: ended_def)
  next
    case (Async_read_some n)
    with out assms show ?thesis by (auto simp: ended_def split: if_splits)
  qed
qed

lemma on_error_ended:
  "ended ts s \<Longrightarrow> splitter_on_error ec s = Inr ((s', ts'), es) \<Longrightarrow> ended (ts' @ ts) s' \<and> no_message es"
  by (auto simp: splitter_on_error_def Let_def ended_def split: option.splits)

lemma run_task_ended:
  assumes "ended (t # ts) s" and "run_task is_valid t s = Inr ((s', ts'), es)"
  shows "ended (ts' @ ts) s' \<and> no_message es"
  using assms
proof (cases rule: run_task.cases [of "(is_valid, t, s)"])
  case (6 is_valid p f s)
  with assms show ?thesis
    by (auto simp: parse_from_buffer_def and_then_Inr_iff dest: after_parse_ended)
next
  case (7 is_valid r s)
  with assms show ?thesis
    by (cases r) (auto simp: message_type_parsed_def dest: on_error_ended)
next
  case (8 is_valid r s)
  with assms show ?thesis
    by (cases r) (auto simp: response_parsed_def split: option.splits dest: on_error_ended)
next
  case (9 is_valid r s)
  with assms show ?thesis
    by (cases r) (auto simp: request_parsed_def split: option.splits dest: on_error_ended)
next
  case (13 is_valid w ec s)
  with assms show ?thesis
    by (auto simp: report_to_request_def ended_def split: if_splits option.splits)
qed (use assms in \<open>auto simp: ended_def wait_for_response_def wait_for_request_def lock_input_def
    unlock_input_def after_response_def after_request_def and_then_Inr_iff split: if_splits\<close>)

lemma read_completes_ended:
  assumes "ended [] s" and "read_completes is_valid ec bs s = Inr ((s', ts'), es)"
  shows "ended ts' s' \<and> no_message es"
proof -
  from assms obtain q p f es' where
    after: "after_parse (On_body p f) (s\<lparr>reading := None\<rparr>)
      (on_read (parser_class_of is_valid p) ec bs \<lparr>receive_buffer = octets s, parser = q\<rparr>)
      = Inr ((s', ts'), es')" and es: "es = Octets_read (if ec = None then bs else []) # es'"
    by (auto simp: read_completes_def and_then_Inr_iff ended_def reading_headers_def is_On_body_def
        split: option.splits read_operation.splits if_splits)
  have "ended [] (s\<lparr>reading := None\<rparr>)"
    using assms(1) by (simp add: ended_def)
  from after_parse_ended [OF this after] es show ?thesis by simp
qed

lemma connection_ended_step:
  assumes "ended (tasks c) (splitter c)" and "connection_step is_valid client_code c i = Inr (c', es)"
  shows "ended (tasks c') (splitter c') \<and> no_message (splitter_events es)"
  using assms(2)
proof (cases rule: connection_step_cases)
  case (task t rest)
  with assms(1) have "ended (t # rest) (splitter c)" by metis
  from run_task_ended [OF this] task(4) show ?thesis by (auto simp: push_tasks_iff)
next
  case (read ec bs)
  with assms(1) show ?thesis by (auto simp: push_tasks_iff dest: read_completes_ended)
qed (use assms(1) in auto)

interpretation after_error: traced_invariant "connection_step is_valid client_code"
  "\<lambda>tr c. ended (tasks c) (splitter c) \<and> no_message (splitter_events tr)" for is_valid client_code
  by unfold_locales (auto dest: connection_ended_step)

lemma failed_header_ended:
  assumes "connection_inv c" and "tasks c = Parsed k (Inl ec) # rest" and "\<not> is_On_body k"
  shows "ended (tasks c) (splitter c)"
proof -
  have "task_headers rest = [] \<Longrightarrow>
      list_all (\<lambda>t. case t of Parsed k r \<Rightarrow> is_On_body k \<or> isl r | _ \<Rightarrow> True) rest"
    by (induction rest) (auto split: task.splits if_splits)
  with assms show ?thesis
    by (auto simp: connection_inv_def splitter_inv_def Let_def ended_def)
qed

subsection \<open>A connection used in one direction\<close>

definition responses_only :: "'k task list \<Rightarrow> 'k message_splitter \<Rightarrow> bool" where
  "responses_only ts s \<longleftrightarrow>
     waiting_for_request s = None \<and>
     list_all (\<lambda>t. case t of Perform (Wait_for_request h) \<Rightarrow> False | Parsed On_request r \<Rightarrow> False
       | After_response continue' \<Rightarrow> \<not> continue' | After_request continue' \<Rightarrow> False | _ \<Rightarrow> True) ts \<and>
     (case reading s of None \<Rightarrow> True | Some op \<Rightarrow> op_continuation op \<noteq> On_request) \<and>
     (waiting_for_response s \<noteq> None \<and> \<not> parsing_header s \<longrightarrow> begin_parse_message s)"

lemma responses_only_simps [simp]:
  "responses_only (t # ts) s \<longleftrightarrow>
     (case t of Perform (Wait_for_request h) \<Rightarrow> False | Parsed On_request r \<Rightarrow> False
       | After_response continue' \<Rightarrow> \<not> continue' | After_request continue' \<Rightarrow> False | _ \<Rightarrow> True) \<and>
     responses_only ts s"
  by (auto simp: responses_only_def)

lemma after_parse_responses_only:
  assumes "responses_only ts s" and "k \<noteq> On_request" and "after_parse k s out = Inr ((s', ts'), es)"
  shows "responses_only (ts' @ ts) s'"
proof -
  obtain op ev where out: "out = (op, ev)" by (cases out)
  show ?thesis
  proof (cases ev)
    case (On_result i r)
    with out assms(3) have "s' = s\<lparr>octets := receive_buffer op\<rparr>" "ts' = [Parsed k r]"
      by (cases r; simp)+
    with assms(1,2) show ?thesis by (cases k) (auto simp: responses_only_def)
  next
    case (Async_read_some n)
    with out assms show ?thesis by (auto simp: responses_only_def split: if_splits)
  qed
qed

lemma parse_responses_only:
  "responses_only ts s \<Longrightarrow> k \<noteq> On_request \<Longrightarrow> parse_from_buffer is_valid k s = Inr ((s', ts'), es) \<Longrightarrow>
   responses_only (ts' @ ts) s'"
  by (auto simp: parse_from_buffer_def and_then_Inr_iff intro: after_parse_responses_only)

lemma call_begin_responses_only:
  assumes "responses_only ts s" and "call_begin_parse_message is_valid s = Inr ((s', ts'), es)"
  shows "responses_only (ts' @ ts) s'"
proof -
  have "responses_only ts (s\<lparr>begin_parse_message := False, parsing_header := True\<rparr>)"
    using assms(1) by (auto simp: responses_only_def)
  with assms show ?thesis
    by (auto simp: call_begin_parse_message_def intro: parse_responses_only split: if_splits)
qed

lemma on_error_responses_only:
  "responses_only ts s \<Longrightarrow> splitter_on_error ec s = Inr ((s', ts'), es) \<Longrightarrow> responses_only (ts' @ ts) s'"
  by (auto simp: splitter_on_error_def Let_def responses_only_def split: option.splits)

lemma run_task_responses_only:
  assumes "responses_only (t # ts) s" and "run_task is_valid t s = Inr ((s', ts'), es)"
  shows "responses_only (ts' @ ts) s'"
  using assms
proof (cases rule: run_task.cases [of "(is_valid, t, s)"])
  case (2 is_valid h s)
  have "responses_only ts (s\<lparr>waiting_for_response := Some h, begin_parse_message := True\<rparr>)"
    using assms(1) 2 by (auto simp: responses_only_def)
  with assms 2 show ?thesis
    by (auto simp: wait_for_response_def and_then_Inr_iff intro: call_begin_responses_only split: if_splits)
next
  case (5 is_valid s)
  have "responses_only ts (s\<lparr>locked := False\<rparr>)"
    using assms(1) 5 by (auto simp: responses_only_def)
  with assms 5 show ?thesis
    by (auto simp: unlock_input_def Let_def intro: call_begin_responses_only split: if_splits)
next
  case (6 is_valid p f s)
  with assms show ?thesis by (auto dest: parse_responses_only [of ts s "On_body p f"])
next
  case (7 is_valid r s)
  with assms have rest: "responses_only ts s" "waiting_for_request s = None"
    by (simp_all add: responses_only_def)
  with 7 assms(2) message_type_cases [of is_valid r s] show ?thesis
    using on_error_responses_only [OF rest(1)] parse_responses_only [OF rest(1), of On_response]
    by fastforce
next
  case (8 is_valid r s)
  with assms have rest: "responses_only ts s" by simp
  show ?thesis
  proof (cases r)
    case (Inl ec)
    with 8 assms(2) on_error_responses_only [OF rest] show ?thesis
      by (auto simp: response_parsed_def split: option.splits)
  next
    case (Inr v)
    with 8 assms(2) rest show ?thesis
      by (auto simp: response_parsed_def responses_only_def split: option.splits if_splits)
  qed
next
  case (13 is_valid w ec s)
  with assms show ?thesis
    by (auto simp: report_to_request_def responses_only_def split: if_splits)
qed (use assms in \<open>auto simp: responses_only_def lock_input_def after_response_def
    split: if_splits\<close>)

lemma read_completes_responses_only:
  assumes "responses_only [] s" and "read_completes is_valid ec bs s = Inr ((s', ts'), es)"
  shows "responses_only ts' s'"
proof -
  from assms obtain q k es' where "k \<noteq> On_request" and
    after: "after_parse k (s\<lparr>reading := None\<rparr>)
      (on_read (parser_class_of is_valid (continuation_parser k)) ec bs
        \<lparr>receive_buffer = octets s, parser = q\<rparr>) = Inr ((s', ts'), es')"
    by (auto simp: read_completes_def and_then_Inr_iff responses_only_def
        split: option.splits read_operation.splits)
  moreover have "responses_only [] (s\<lparr>reading := None\<rparr>)"
    using assms(1) by (simp add: responses_only_def)
  ultimately show ?thesis using after_parse_responses_only by fastforce
qed

lemma run_task_begin_set:
  assumes "responses_only (t # ts) s"
  shows "run_task is_valid t s \<noteq> Inl Begin_parse_message_missing"
proof
  assume *: "run_task is_valid t s = Inl Begin_parse_message_missing"
  then show False
    using assms
    by (cases rule: run_task.cases [of "(is_valid, t, s)"])
      (auto simp: responses_only_def wait_for_response_def call_begin_parse_message_def and_then_Inl_iff
        lock_input_def unlock_input_def Let_def response_parsed_def on_error_total after_response_def
        report_to_request_def split: if_splits option.splits sum.splits
        dest!: parse_blame message_type_blame)
qed

text \<open>
  What a client promises that uses the connection for requests of its own only: it never waits
  for the requests of the peer.
\<close>

locale response_client =
  fixes is_valid :: "bytes \<Rightarrow> bool" and client_code :: "('k, 'c, 'e) client_code"
  assumes never_serves: "client_code k c = Inr ((c', calls), es) \<Longrightarrow> Wait_for_request h \<notin> set calls"
begin

lemma calls_responses_only:
  "client_code k c = Inr ((c', calls), es) \<Longrightarrow> responses_only (map Perform calls @ ts) s = responses_only ts s"
  using never_serves [of k c c' calls es]
  by (auto simp: responses_only_def list_all_iff split: call.splits)

lemma step_responses_only:
  assumes "responses_only (tasks c) (splitter c)" and "connection_step is_valid client_code c i = Inr (c', es)"
  shows "responses_only (tasks c') (splitter c')"
  using assms(2)
proof (cases rule: connection_step_cases)
  case (task t rest)
  with assms(1) have "responses_only (t # rest) (splitter c)" by metis
  from run_task_responses_only [OF this] task(4) show ?thesis by (auto simp: push_tasks_iff)
next
  case (read ec bs)
  with assms(1) show ?thesis
    by (auto simp: push_tasks_iff dest: read_completes_responses_only)
qed (use assms(1) in \<open>auto simp: calls_responses_only\<close>)

lemma step_begin_set:
  assumes "responses_only (tasks c) (splitter c)"
  shows "connection_step is_valid client_code c i \<noteq> Inl Begin_parse_message_missing"
proof
  assume "connection_step is_valid client_code c i = Inl Begin_parse_message_missing"
  then show False
  proof (cases rule: connection_step_cases)
    case (task t rest)
    with assms have "responses_only (t # rest) (splitter c)" by metis
    from run_task_begin_set [OF this] task(4) show ?thesis by (auto simp: push_tasks_iff)
  next
    case (read ec bs)
    then show ?thesis
      by (auto simp: push_tasks_iff read_completes_def and_then_Inl_iff
          split: option.splits read_operation.splits dest!: after_parse_blame)
  qed simp_all
qed

sublocale one_way: blamed_failures "connection_step is_valid client_code"
  "\<lambda>tr c. connection_inv c \<and> responses_only (tasks c) (splitter c)"
  "\<lambda>f. client_fault f \<and> f \<noteq> Begin_parse_message_missing"
  by unfold_locales
    (auto intro: connection_inv_step step_responses_only connection_step_blame simp: step_begin_set)

lemma init_responses_only: "responses_only (tasks (connection_init c)) (splitter (connection_init c))"
  by (simp add: responses_only_def connection_init_def message_splitter_init_def)

lemma one_way_failures:
  "run (connection_step is_valid client_code) (connection_init c) inputs = Inl f \<Longrightarrow>
   client_fault f \<and> f \<noteq> Begin_parse_message_missing"
  by (rule one_way.run_blame [OF conjI [OF connection_inv_init init_responses_only]])

end

subsection \<open>A message in the buffer\<close>

lemma start_complete:
  assumes "no_empty p" and "value_ok is_valid p v" and "reached_by (parser_class_of is_valid p) seen q"
    and "seen @ bs = encode p v @ rest" and "length seen < length (encode p v)"
  shows "\<exists>q'. start (parser_class_of is_valid p) sure \<lparr>receive_buffer = bs, parser = q\<rparr> =
    (\<lparr>receive_buffer = rest, parser = q'\<rparr>, On_result (if sure then Direct else Via_asio_handler_invoke) (Inr v))"
proof -
  let ?c = "parser_class_of is_valid p"
  have "feed (class_parse ?c) (class_init ?c) (seen @ bs) = Done v rest"
    using byte_parser.accepts [OF parser_class_contract [OF assms(1)]] assms(2,4) by metis
  then have "feed (class_parse ?c) q bs = Done v rest"
    using assms(3) by (simp add: reached_by_def feed_append)
  then show ?thesis
    using start_feed [OF no_empty_never_immediate [OF assms(1)], of is_valid seen
        "\<lparr>receive_buffer = bs, parser = q\<rparr>" sure] assms(3) by simp
qed

lemma parse_from_buffer_complete:
  assumes "no_empty (continuation_parser k)" and "value_ok is_valid (continuation_parser k) v"
    and "octets s = encode (continuation_parser k) v @ rest"
  shows "parse_from_buffer is_valid k s = Inr ((s\<lparr>octets := rest\<rparr>, [Parsed k (Inr v)]),
    [Parse_started (continuation_parser k), Delivered (continuation_parser k) v])"
proof -
  let ?p = "continuation_parser k"
  have "encode ?p v \<noteq> []"
    using byte_parser.encode_nonempty [OF parser_class_contract [OF assms(1)] assms(2)] .
  then show ?thesis
    using start_complete [OF assms(1,2) reached_by_init, of "octets s" rest False] assms(3)
    by (auto simp: parse_from_buffer_def begin_parse_value_def and_then_def)
qed

text \<open>The values and the octets of the two kinds of headers.\<close>

definition response_header :: "request_id \<Rightarrow> bytes" where
  "response_header i = write_integer message_type_response @ write_integer i"

definition request_header :: "request_id \<Rightarrow> bytes \<Rightarrow> bytes" where
  "request_header i name =
     write_integer message_type_request @ write_integer i @
     write_integer (of_nat (length name) :: u8) @ name"

lemma header_encodings:
  "encode (P_integer Uint8) (V_uint8 n) = write_integer n"
  "encode (P_integer Uint64) (V_uint64 i) = write_integer i"
  "encode (P_tuple [P_integer Uint64, P_utf8 Uint8]) (V_tuple [V_uint64 i, V_string name]) =
     write_integer i @ write_integer (of_nat (length name) :: u8) @ name"
  by (simp_all add: tuple_encode_def utf8_encode_def)

lemma header_values:
  "value_ok is_valid (P_integer Uint8) (V_uint8 n)"
  "value_ok is_valid (P_integer Uint64) (V_uint64 i)"
  "value_ok is_valid (P_tuple [P_integer Uint64, P_utf8 Uint8]) (V_tuple [V_uint64 i, V_string name])
     \<longleftrightarrow> length name < 256 \<and> (name = [] \<or> is_valid name)"
  by (simp_all add: tuple_valid_def utf8_valid_def size_fits_def)

lemma start_waits:
  assumes "no_empty p"
  shows "start (parser_class_of is_valid p) sure
      \<lparr>receive_buffer = [], parser = class_init (parser_class_of is_valid p)\<rparr> =
    (\<lparr>receive_buffer = [], parser = class_init (parser_class_of is_valid p)\<rparr>, Async_read_some 512)"
  using start_feed [OF no_empty_never_immediate [OF assms], of is_valid "[]"
      "\<lparr>receive_buffer = [], parser = class_init (parser_class_of is_valid p)\<rparr>" sure]
  by (simp add: reached_by_init)

text \<open>The splitter waiting for the first octet of a message.\<close>

definition awaiting_message :: "(bytes \<Rightarrow> bool) \<Rightarrow> 'k message_splitter \<Rightarrow> bool" where
  "awaiting_message is_valid s \<longleftrightarrow> octets s = [] \<and> parsing_header s \<and>
     reading s = Some (Read_operation (class_init (parser_class_of is_valid (P_integer Uint8))) On_message_type)"

lemma wait_from_init:
  "\<exists>s es. wait_for_request is_valid h message_splitter_init = Inr ((s, []), es) \<and>
     awaiting_message is_valid s \<and> waiting_for_request s = Some h \<and> waiting_for_response s = None \<and> \<not> locked s"
  "\<exists>s es. wait_for_response is_valid h' message_splitter_init = Inr ((s, []), es) \<and>
     awaiting_message is_valid s \<and> waiting_for_response s = Some h' \<and> waiting_for_request s = None \<and> \<not> locked s"
  using start_waits [of "P_integer Uint8" is_valid False]
  by (simp_all add: wait_for_request_def wait_for_response_def call_begin_parse_message_def
      message_splitter_init_def parse_from_buffer_def begin_parse_value_def and_then_def
      awaiting_message_def)

lemma read_message_type:
  assumes "awaiting_message is_valid s"
  shows "read_completes is_valid None (write_integer t @ rest) s =
    Inr ((s\<lparr>octets := rest, reading := None\<rparr>, [Parsed On_message_type (Inr (V_uint8 t))]),
      [Octets_read (write_integer t @ rest), Delivered (P_integer Uint8) (V_uint8 t)])"
proof -
  have "write_integer t \<noteq> []"
    using length_write_integer [of t] by (auto simp: sizeof_def simp del: length_write_integer)
  then obtain q where "start (parser_class_of is_valid (P_integer Uint8)) True
      \<lparr>receive_buffer = write_integer t @ rest,
        parser = class_init (parser_class_of is_valid (P_integer Uint8))\<rparr> =
      (\<lparr>receive_buffer = rest, parser = q\<rparr>, On_result Direct (Inr (V_uint8 t)))"
    using start_complete [of "P_integer Uint8" is_valid "V_uint8 t" "[]", OF _ _ reached_by_init,
        of "write_integer t @ rest" rest True] by (auto simp: sizeof_def)
  then show ?thesis
    using assms
    by (simp add: read_completes_def awaiting_message_def on_read_def and_then_def
        del: parser_class_of.simps)
qed

subsection \<open>Properties\<close>

abbreviation run_connection ::
  "(bytes \<Rightarrow> bool) \<Rightarrow> ('k, 'c, 'e) client_code \<Rightarrow> ('k, 'c) connection \<Rightarrow> 'k connection_input list \<Rightarrow>
    ('k, 'c, 'e) connection_result" where
  "run_connection is_valid client_code \<equiv> run (connection_step is_valid client_code)"

text \<open>A client that serves one request with a body of one octet, for the examples.\<close>

abbreviation one_byte_server :: "(nat, unit, unit) client_code" where
  "one_byte_server \<equiv> \<lambda>k c. Inr ((c,
     if k = 0 then [Wait_for_request (\<lambda>r. case r of Inl e \<Rightarrow> 3 | Inr q \<Rightarrow> 1)]
     else if k = 1 then [Lock_input, Parse_body (P_integer Uint8) (\<lambda>v. 2)]
     else if k = 2 then [Unlock_input]
     else []), [])"

abbreviation one_request :: "nat connection_input list" where
  "one_request \<equiv> [Call 0, Run_task, Run_task, Read_completes None (request_header 7 [109])] @
     replicate 6 Run_task @ [Read_completes None [42, 0], Run_task, Run_task, Run_task]"

abbreviation server_run :: "(nat, unit, unit) connection_result" where
  "server_run \<equiv> run_connection (\<lambda>_. True) one_byte_server (connection_init ()) one_request"

lemma server_run_succeeds: "case server_run of Inl f \<Rightarrow> False | Inr (c, tr) \<Rightarrow> clean (splitter_events tr) \<and> octets (splitter c) = [0] \<and> \<not> locked (splitter c)"
  by code_simp

text \<open>C12: Whatever the client does, at any moment (also between the calls made by a handler) at most
  one header parser is at work, only while \<open>parsing_header\<close> is set, and never while the input is
  locked for a body.\<close>

theorem splitter_exclusive:
  assumes "run_connection is_valid client_code (connection_init cl) inputs = Inr (c, tr)"
  shows "length (reading_headers (splitter c) @ task_headers (tasks c)) \<le> 1 \<and>
    (reading_headers (splitter c) @ task_headers (tasks c) \<noteq> [] \<longrightarrow>
       parsing_header (splitter c) \<and> \<not> locked (splitter c))"
  using connection.inv_run [OF connection_inv_init assms]
  by (auto simp: connection_inv_def splitter_inv_def Let_def)

theorem splitter_exclusive_witness:
  "\<exists>c tr. server_run = Inr (c, tr) \<and> length (reading_headers (splitter c) @ task_headers (tasks c)) \<le> 1"
proof -
  obtain c tr where "server_run = Inr (c, tr)" using server_run_succeeds by (auto split: sum.splits)
  with splitter_exclusive [OF this] show ?thesis by blast
qed



text \<open>C9: Framing: as long as no parse has failed, the octets read so far are exactly the encodings of
  the headers and bodies delivered, in order, then the octets the outstanding parser has seen,
  then the octets in the buffer; and every value delivered is a value of its type.\<close>

theorem splitter_framing:
  assumes "run_connection is_valid client_code (connection_init cl) inputs = Inr (c, tr)"
    and "clean (splitter_events tr)"
  shows "\<exists>partial.
    received (splitter_events tr) =
      delivered_encodings (splitter_events tr) @ partial @ octets (splitter c) \<and>
    (reading (splitter c) = None \<longrightarrow> partial = []) \<and>
    (\<forall>op. reading (splitter c) = Some op \<longrightarrow> octets (splitter c) = [] \<and>
      feed (class_parse (parser_class_of is_valid (continuation_parser (op_continuation op))))
        (class_init (parser_class_of is_valid (continuation_parser (op_continuation op)))) partial =
        Pending (op_state op)) \<and>
    (\<forall>p v. Delivered p v \<in> set (splitter_events tr) \<longrightarrow> value_ok is_valid p v)"
proof -
  have "frame_inv is_valid (splitter_events ([] @ tr)) (splitter c)"
    by (rule framing.inv_run [OF _ assms(1)]) (simp add: connection_init_def frame_inv_init)
  with assms(2) obtain partial where "framed is_valid (splitter_events tr) (splitter c) partial"
    by (auto simp: frame_inv_def)
  then show ?thesis
    by (intro exI [of _ partial]) (auto simp: framed_def reached_by_def parser_of_def)
qed

theorem splitter_framing_witness:
  "\<exists>c tr partial. server_run = Inr (c, tr) \<and>
    received (splitter_events tr) = delivered_encodings (splitter_events tr) @ partial @ octets (splitter c)"
proof -
  obtain c tr where run: "server_run = Inr (c, tr)" and "clean (splitter_events tr)"
    using server_run_succeeds by (auto split: sum.splits)
  from splitter_framing [OF this] run show ?thesis by blast
qed

text \<open>C39: After a header has failed to parse (or the transport has reported an error), no message is
  ever handed to a handler again, whatever the client calls and whatever arrives.\<close>

theorem splitter_error_is_final:
  assumes "run_connection is_valid client_code (connection_init cl) inputs = Inr (c, tr)"
    and "tasks c = Parsed k (Inl ec) # rest" and "\<not> is_On_body k"
    and "run_connection is_valid client_code c inputs' = Inr (c', tr')"
  shows "no_message (splitter_events tr')"
proof -
  have "connection_inv c" using connection.inv_run [OF connection_inv_init assms(1)] .
  then have "ended (tasks c) (splitter c) \<and> no_message (splitter_events [])"
    using failed_header_ended [OF _ assms(2,3)] by simp
  from after_error.inv_run [OF this assms(4)] show ?thesis by simp
qed

theorem splitter_error_is_final_witness:
  "case run_connection (\<lambda>_. True) one_byte_server (connection_init ())
     [Call 0, Run_task, Run_task, Read_completes (Some (Transport_error 5)) []] of
   Inl f \<Rightarrow> False
 | Inr (c, tr) \<Rightarrow>
    (case run_connection (\<lambda>_. True) one_byte_server c (replicate 4 Run_task @ [Call 0, Run_task, Run_task]) of
       Inl f \<Rightarrow> False
     | Inr (c', tr') \<Rightarrow> no_message (splitter_events tr'))"
proof -
  let ?run = "run_connection (\<lambda>_. True) one_byte_server (connection_init ())
     [Call 0, Run_task, Run_task, Read_completes (Some (Transport_error 5)) []]"
  let ?run' = "\<lambda>c. run_connection (\<lambda>_. True) one_byte_server c (replicate 4 Run_task @ [Call 0, Run_task, Run_task])"
  have eval: "case ?run of Inl f \<Rightarrow> False | Inr (c, tr) \<Rightarrow>
      (case tasks c of Parsed On_message_type (Inl ec) # rest \<Rightarrow> (case ?run' c of Inl f \<Rightarrow> False | Inr r \<Rightarrow> True) | _ \<Rightarrow> False)"
    by code_simp
  then obtain c tr where run: "?run = Inr (c, tr)" by (cases ?run) auto
  with eval have "case tasks c of Parsed On_message_type (Inl ec) # rest \<Rightarrow> \<not> (\<exists>f. ?run' c = Inl f) | _ \<Rightarrow> False"
    by (simp split: list.splits task.splits continuation.splits sum.splits del: run.simps)
  then obtain ec rest where top: "tasks c = Parsed On_message_type (Inl ec) # rest"
    and ok: "\<not> (\<exists>f. ?run' c = Inl f)"
    by (simp split: list.splits task.splits continuation.splits sum.splits del: run.simps)
  then obtain c' tr' where run': "?run' c = Inr (c', tr')" by (cases "?run' c") auto
  from splitter_error_is_final [OF run top _ run'] run run' show ?thesis by (simp del: run.simps)
qed

text \<open>A request message that arrives while a handler waits for requests is handed to that handler,
  with the identifier and the method name it was sent with, and the octets after the header stay in
  the buffer for the body; \<open>parsing_header\<close> is reset first, so the handler can lock the input.\<close>

theorem splitter_delivers_request:
  assumes "length name < 256" and "name = [] \<or> is_valid name"
  shows "\<exists>c tr. run_connection is_valid client_code
      ((connection_init cl)\<lparr>tasks := [Perform (Wait_for_request h)]\<rparr>)
      [Run_task, Read_completes None (request_header i name @ rest), Run_task, Run_task] = Inr (c, tr) \<and>
    tasks c = [Client (h (Inr (i, name))), After_request False] \<and> octets (splitter c) = rest \<and>
    \<not> parsing_header (splitter c) \<and> \<not> locked (splitter c) \<and>
    last tr = Splitter_event (Request_handler_called (Inr (i, name)))"
proof -
  obtain s es where s: "wait_for_request is_valid h message_splitter_init = Inr ((s, []), es)"
    "awaiting_message is_valid s" "waiting_for_request s = Some h" "waiting_for_response s = None"
    "\<not> locked s"
    using wait_from_init(1) [of is_valid h] by blast
  define v where "v = V_tuple [V_uint64 i, V_string name]"
  define s1 where "s1 = s\<lparr>octets := write_integer i @ write_integer (of_nat (length name) :: u8) @ name @ rest,
    reading := None\<rparr>"
  have "value_ok is_valid (continuation_parser (On_request :: 'a continuation)) v"
    "octets s1 = encode (continuation_parser (On_request :: 'a continuation)) v @ rest"
    using assms by (auto simp: v_def s1_def header_encodings header_values
        simp del: encode.simps value_ok.simps)
  from parse_from_buffer_complete [OF _ this]
  have parse: "parse_from_buffer is_valid On_request s1 = Inr ((s1\<lparr>octets := rest\<rparr>, [Parsed On_request (Inr v)]),
      [Parse_started (continuation_parser (On_request :: 'a continuation)),
       Delivered (continuation_parser (On_request :: 'a continuation)) v])"
    by simp
  define c0 where "c0 = (connection_init cl)\<lparr>tasks := [Perform (Wait_for_request h)]\<rparr>"
  have 1: "connection_step is_valid client_code c0 Run_task =
      Inr (c0\<lparr>splitter := s, tasks := []\<rparr>, map Splitter_event es)"
    using s(1) by (simp add: c0_def connection_init_def push_tasks_def)
  have 2: "connection_step is_valid client_code (c0\<lparr>splitter := s, tasks := []\<rparr>)
      (Read_completes None (request_header i name @ rest)) =
      Inr (c0\<lparr>splitter := s1, tasks := [Parsed On_message_type (Inr (V_uint8 0))]\<rparr>,
        map Splitter_event [Octets_read (request_header i name @ rest), Delivered (P_integer Uint8) (V_uint8 0)])"
    using read_message_type [OF s(2), of message_type_request
        "write_integer i @ write_integer (of_nat (length name) :: u8) @ name @ rest"]
    by (simp add: push_tasks_def request_header_def s1_def message_type_request_def)
  have "waiting_for_request s1 = Some h" using s(3) by (simp add: s1_def)
  then have type: "message_type_parsed is_valid (Inr (V_uint8 0)) s1 = parse_from_buffer is_valid On_request s1"
    by (simp add: message_type_parsed_def message_type_request_def message_type_response_def)
  obtain es' where 3: "connection_step is_valid client_code
      (c0\<lparr>splitter := s1, tasks := [Parsed On_message_type (Inr (V_uint8 0))]\<rparr>) Run_task =
      Inr (c0\<lparr>splitter := s1\<lparr>octets := rest\<rparr>, tasks := [Parsed On_request (Inr v)]\<rparr>, es')"
    by (simp add: push_tasks_def type parse)
  have 4: "connection_step is_valid client_code
      (c0\<lparr>splitter := s1\<lparr>octets := rest\<rparr>, tasks := [Parsed On_request (Inr v)]\<rparr>) Run_task =
      Inr (c0\<lparr>splitter := s1\<lparr>octets := rest, parsing_header := False, waiting_for_request := None\<rparr>,
             tasks := [Client (h (Inr (i, name))), After_request False]\<rparr>,
           [Splitter_event (Request_handler_called (Inr (i, name)))])"
    using s by (simp add: push_tasks_def request_parsed_def s1_def awaiting_message_def v_def
        request_of_value_def)
  have "run_connection is_valid client_code c0
      [Run_task, Read_completes None (request_header i name @ rest), Run_task, Run_task] =
    Inr (c0\<lparr>splitter := s1\<lparr>octets := rest, parsing_header := False, waiting_for_request := None\<rparr>,
           tasks := [Client (h (Inr (i, name))), After_request False]\<rparr>,
      map Splitter_event es @ map Splitter_event [Octets_read (request_header i name @ rest),
        Delivered (P_integer Uint8) (V_uint8 0)] @ es' @
      [Splitter_event (Request_handler_called (Inr (i, name)))])"
    by (simp add: and_then_def 1 2 3 4 del: connection_step.simps)
  then show ?thesis
    using s(5) unfolding c0_def [symmetric] by (simp add: s1_def)
qed

theorem splitter_delivers_request_witness:
  "\<exists>c tr. run_connection (\<lambda>_. True) one_byte_server
      ((connection_init ())\<lparr>tasks := [Perform (Wait_for_request (\<lambda>r. 1))]\<rparr>)
      [Run_task, Read_completes None (request_header 7 [109] @ [42]), Run_task, Run_task] = Inr (c, tr) \<and>
    tasks c = [Client 1, After_request False] \<and> octets (splitter c) = [42]"
  using splitter_delivers_request [of "[109]" "\<lambda>_. True" one_byte_server,
    where cl = "()" and h = "\<lambda>r. 1" and i = 7 and rest = "[42]"] by auto

text \<open>A client that keeps every precondition of the members can make the assertion
  \<open>assert(begin_parse_message)\<close> fail: when it starts to wait for a response and for a request while
  the input is locked, the first message to arrive consumes the function object, and the attempt to
  go on with the other kind finds it empty.\<close>

theorem begin_parse_message_can_be_missing:
  "case run_connection (\<lambda>_. True)
     (\<lambda>k c. Inr ((c, if k = 0 then [Lock_input, Wait_for_response (\<lambda>r. 1), Wait_for_request (\<lambda>r. 2), Unlock_input]
        else if k = 2 then [Lock_input] else []), [])) 
     ((connection_init ()) :: (nat,unit) connection)
     (Call 0 # replicate 5 Run_task @ Read_completes None (request_header 7 [109]) # replicate 5 Run_task) of
   Inl f \<Rightarrow> f = Begin_parse_message_missing
 | Inr r \<Rightarrow> False"
  by code_simp
end
