(* ===== verification/Response_Registry.thy ===== *)
theory Response_Registry
  imports Message_Splitter Std_Map
begin

text \<open>
  \<open>warpcoil/cpp/expected_response_registry.hpp\<close>: the client side of a connection. It keeps the
  requests that wait for a response in a \<open>std::map\<close> by request identifier, reads response
  headers through the message splitter, and parses the body of a response with the parser that
  was registered for its identifier.

  The registry is a client of the splitter: \<open>registry_code\<close> has one constructor for each member
  function and each piece of code that the registry passes on as a handler or that comes after a
  call it makes, and \<open>run_registry\<close> is the code itself. The two closures of an
  \<open>expected_response\<close> share the parser class and the result handler, so the entry of the map is
  that pair. A result handler is a value of a type \<open>'h\<close>; the argument \<open>react\<close> says which members
  of the registry it calls.
\<close>

datatype response_state = Not_expecting_response | Parsing_header | Parsing_result

type_synonym 'h expected_response = "parser_type \<times> 'h"

record 'h expected_response_registry =
  response_state :: response_state
  expected_responses :: "(request_id, 'h expected_response) std_map"

definition registry_init :: "'h expected_response_registry" where
  "registry_init = \<lparr>response_state = Not_expecting_response, expected_responses = []\<rparr>"

datatype 'h registry_call = Expect_response request_id parser_type 'h | On_error error_code

datatype 'h registry_code =
    Member "'h registry_call"
  | Header_received "error_code + request_id"  \<comment> \<open>the lambda of \<open>parse_header\<close>\<close>
  | Result_received 'h "error_code + wire_value"  \<comment> \<open>\<open>parse_result_operation\<close>\<close>
  | Result_unlocked 'h wire_value  \<comment> \<open>its rest after \<open>unlock_input\<close>\<close>
  | Call_handler 'h "error_code + wire_value"

text \<open>
  \<open>Discarded\<close> is a handler that \<open>std::map::insert\<close> did not insert, \<open>Dropped\<close> one that
  goes out of scope without having been called; \<open>Unknown\<close> is an identifier nobody waits for.
\<close>

datatype 'h registry_event =
    Expected request_id parser_type 'h
  | Discarded 'h
  | Handled 'h "error_code + wire_value"
  | Dropped 'h
  | Unknown request_id

type_synonym 'h registry_result =
  "(unit, 'h expected_response_registry \<times> 'h registry_code call list, 'h registry_event) step_result"

definition pending_requests :: "'h expected_response_registry \<Rightarrow> nat" where
  "pending_requests r = length (expected_responses r)"

definition parse_header ::
  "'h expected_response_registry \<Rightarrow> 'h expected_response_registry \<times> 'h registry_code call list" where
  "parse_header r = (r\<lparr>response_state := Parsing_header\<rparr>, [Wait_for_response Header_received])"

definition expect_response ::
  "request_id \<Rightarrow> parser_type \<Rightarrow> 'h \<Rightarrow> 'h expected_response_registry \<Rightarrow> 'h registry_result" where
  "expect_response request p handler r =
     (let inserted = (std_map_find request (expected_responses r) = None);
          r = r\<lparr>expected_responses := std_map_insert request (p, handler) (expected_responses r)\<rparr>;
          es = [if inserted then Expected request p handler else Discarded handler]
      in case response_state r of
           Not_expecting_response \<Rightarrow> Inr (parse_header r, es)
         | Parsing_header \<Rightarrow> Inr ((r, []), es)
         | Parsing_result \<Rightarrow> Inr ((r, []), es))"

definition registry_on_error :: "error_code \<Rightarrow> 'h expected_response_registry \<Rightarrow> 'h registry_result" where
  "registry_on_error ec r =
     (let local_expected_responses = expected_responses r
      in Inr ((r\<lparr>expected_responses := [], response_state := Not_expecting_response\<rparr>,
               map (\<lambda>(request, p, handler). Client_code (Call_handler handler (Inl ec)))
                 local_expected_responses), []))"

definition header_received ::
  "error_code + request_id \<Rightarrow> 'h expected_response_registry \<Rightarrow> 'h registry_result" where
  "header_received request r =
     (if response_state r \<noteq> Parsing_header then Inl ()
      else case request of
        Inl ec \<Rightarrow> registry_on_error ec r
      | Inr i \<Rightarrow>
          (case std_map_find i (expected_responses r) of
             None \<Rightarrow>
               and_then (registry_on_error Invalid_input_error (r\<lparr>response_state := Not_expecting_response\<rparr>))
                 (\<lambda>r. Inr (r, [Unknown i]))
           | Some (p, handler) \<Rightarrow>
               Inr ((r\<lparr>expected_responses := std_map_erase i (expected_responses r),
                       response_state := Parsing_result\<rparr>,
                     [Lock_input, Parse_body p (Result_received handler)]), [])))"

definition result_received ::
  "'h \<Rightarrow> error_code + wire_value \<Rightarrow> 'h expected_response_registry \<Rightarrow> 'h registry_result" where
  "result_received handler result r =
     (if response_state r \<noteq> Parsing_result then Inl ()
      else case result of
        Inl ec \<Rightarrow> and_then (registry_on_error ec r) (\<lambda>r. Inr (r, [Dropped handler]))
      | Inr v \<Rightarrow> Inr ((r, [Unlock_input, Client_code (Result_unlocked handler v)]), []))"

definition result_unlocked ::
  "'h \<Rightarrow> wire_value \<Rightarrow> 'h expected_response_registry \<Rightarrow> 'h registry_result" where
  "result_unlocked handler v r =
     (let call = Client_code (Call_handler handler (Inr v))
      in if expected_responses r = [] then Inr ((r\<lparr>response_state := Not_expecting_response\<rparr>, [call]), [])
         else (case parse_header r of (r, calls) \<Rightarrow> Inr ((r, calls @ [call]), [])))"

fun run_registry ::
  "('h \<Rightarrow> error_code + wire_value \<Rightarrow> 'h registry_call list) \<Rightarrow>
    ('h registry_code, 'h expected_response_registry, 'h registry_event) client_code" where
  "run_registry react (Member (Expect_response request p handler)) r = expect_response request p handler r"
| "run_registry react (Member (On_error ec)) r = registry_on_error ec r"
| "run_registry react (Header_received request) r = header_received request r"
| "run_registry react (Result_received handler result) r = result_received handler result r"
| "run_registry react (Result_unlocked handler v) r = result_unlocked handler v r"
| "run_registry react (Call_handler handler result) r =
     Inr ((r, map (\<lambda>c. Client_code (Member c)) (react handler result)), [Handled handler result])"

text \<open>
  A connection with a registry on it: what comes from outside are calls of the registry's
  members and the completions of the stream's reads.
\<close>

datatype 'h client_input = Run_next | Call_member "'h registry_call" | Stream_read "error_code option" bytes

primrec connection_input_of :: "'h client_input \<Rightarrow> 'h registry_code connection_input" where
  "connection_input_of Run_next = Run_task"
| "connection_input_of (Call_member m) = Call (Member m)"
| "connection_input_of (Stream_read ec bs) = Read_completes ec bs"

type_synonym 'h client_connection = "('h registry_code, 'h expected_response_registry) connection"

definition client_step ::
  "(bytes \<Rightarrow> bool) \<Rightarrow> ('h \<Rightarrow> error_code + wire_value \<Rightarrow> 'h registry_call list) \<Rightarrow> 'h client_connection \<Rightarrow>
    'h client_input \<Rightarrow>
    ('h registry_code, 'h expected_response_registry, 'h registry_event) connection_result" where
  "client_step is_valid react c i =
     connection_step is_valid (run_registry react) c (connection_input_of i)"

text \<open>The registry only ever waits for responses.\<close>

interpretation registry_client: response_client is_valid "run_registry react" for is_valid react
proof
  fix k r r' calls es h
  assume "run_registry react k r = Inr ((r', calls), es)"
  then show "Wait_for_request h \<notin> set calls"
    by (cases rule: run_registry.cases [of "(react, k, r)"])
      (auto simp: expect_response_def parse_header_def registry_on_error_def header_received_def
        result_received_def result_unlocked_def Let_def and_then_Inr_iff
        split: response_state.splits if_splits sum.splits option.splits)
qed

subsection \<open>What becomes of the handlers\<close>

text \<open>
  The handlers that a piece of code holds, and those that a task or the outstanding read will
  pass on. A continuation is a function; its handlers are those of the code it yields.
\<close>

fun code_handlers :: "'h registry_code \<Rightarrow> 'h list" where
  "code_handlers (Result_received handler result) = [handler]"
| "code_handlers (Result_unlocked handler v) = [handler]"
| "code_handlers (Call_handler handler result) = [handler]"
| "code_handlers _ = []"

fun call_handlers :: "'h registry_code call \<Rightarrow> 'h list" where
  "call_handlers (Client_code k) = code_handlers k"
| "call_handlers (Parse_body p f) = code_handlers (f (Inl Invalid_input_error))"
| "call_handlers _ = []"

fun task_handlers :: "'h registry_code task \<Rightarrow> 'h list" where
  "task_handlers (Perform c) = call_handlers c"
| "task_handlers (Parsed (On_body p f) r) = code_handlers (f r)"
| "task_handlers _ = []"

definition reading_handlers :: "'h registry_code message_splitter \<Rightarrow> 'h list" where
  "reading_handlers s =
     (case reading s of
        Some (Read_operation q (On_body p f)) \<Rightarrow> code_handlers (f (Inl Invalid_input_error))
      | _ \<Rightarrow> [])"

text \<open>Every continuation is one that the registry makes.\<close>

definition body_ok :: "(error_code + wire_value \<Rightarrow> 'h registry_code) \<Rightarrow> bool" where
  "body_ok f \<longleftrightarrow> (\<exists>handler. f = Result_received handler)"

definition call_ok :: "'h registry_code call \<Rightarrow> bool" where
  "call_ok c \<longleftrightarrow> (case c of Parse_body p f \<Rightarrow> body_ok f | Wait_for_response f \<Rightarrow> f = Header_received | _ \<Rightarrow> True)"

definition task_ok :: "'h registry_code task \<Rightarrow> bool" where
  "task_ok t \<longleftrightarrow> (case t of Perform c \<Rightarrow> call_ok c | Parsed (On_body p f) r \<Rightarrow> body_ok f | _ \<Rightarrow> True)"

definition splitter_handlers_ok :: "'h registry_code message_splitter \<Rightarrow> bool" where
  "splitter_handlers_ok s \<longleftrightarrow>
     (\<forall>f. waiting_for_response s = Some f \<longrightarrow> f = Header_received) \<and> waiting_for_request s = None \<and>
     (\<forall>q p f. reading s = Some (Read_operation q (On_body p f)) \<longrightarrow> body_ok f)"

definition registry_events :: "'h registry_event connection_event list \<Rightarrow> 'h registry_event list" where
  "registry_events tr = concat (map (\<lambda>e. case e of Splitter_event e \<Rightarrow> [] | Client_event e \<Rightarrow> [e]) tr)"

definition expected :: "'h registry_event list \<Rightarrow> 'h list" where
  "expected tr = concat (map (\<lambda>e. case e of Expected i p h \<Rightarrow> [h] | _ \<Rightarrow> []) tr)"

definition handled :: "'h registry_event list \<Rightarrow> 'h list" where
  "handled tr = concat (map (\<lambda>e. case e of Handled h r \<Rightarrow> [h] | _ \<Rightarrow> []) tr)"

definition dropped :: "'h registry_event list \<Rightarrow> 'h list" where
  "dropped tr = concat (map (\<lambda>e. case e of Dropped h \<Rightarrow> [h] | _ \<Rightarrow> []) tr)"

definition in_progress :: "('h registry_code, 'h expected_response_registry) connection \<Rightarrow> 'h list" where
  "in_progress c = concat (map task_handlers (tasks c)) @ reading_handlers (splitter c)"

definition waiting_handlers :: "'h expected_response_registry \<Rightarrow> 'h list" where
  "waiting_handlers r = map (snd \<circ> snd) (expected_responses r)"

lemma registry_trace_simps [simp]:
  "registry_events [] = []" "registry_events (xs @ ys) = registry_events xs @ registry_events ys"
  "registry_events (e # es) = (case e of Splitter_event e \<Rightarrow> [] | Client_event e \<Rightarrow> [e]) @ registry_events es"
  "expected [] = []" "expected (us @ vs) = expected us @ expected vs"
  "expected (v # vs) = (case v of Expected i p h \<Rightarrow> [h] | _ \<Rightarrow> []) @ expected vs"
  "handled [] = []" "handled (us @ vs) = handled us @ handled vs"
  "handled (v # vs) = (case v of Handled h r \<Rightarrow> [h] | _ \<Rightarrow> []) @ handled vs"
  "dropped [] = []" "dropped (us @ vs) = dropped us @ dropped vs"
  "dropped (v # vs) = (case v of Dropped h \<Rightarrow> [h] | _ \<Rightarrow> []) @ dropped vs"
  by (simp_all add: registry_events_def expected_def handled_def dropped_def)

lemma registry_events_map [simp]:
  "registry_events (map Splitter_event es) = []" "registry_events (map Client_event vs) = vs"
  by (induction es, simp_all) (induction vs, simp_all)

definition continuation_handlers :: "'h registry_code continuation \<Rightarrow> 'h list" where
  "continuation_handlers k =
     (case k of On_body p f \<Rightarrow> code_handlers (f (Inl Invalid_input_error)) | _ \<Rightarrow> [])"

definition continuation_ok :: "'h registry_code continuation \<Rightarrow> bool" where
  "continuation_ok k \<longleftrightarrow> (case k of On_body p f \<Rightarrow> body_ok f | _ \<Rightarrow> True)"

text \<open>The splitter passes the handlers on and invents none.\<close>

definition passes_on :: "'h list \<Rightarrow> 'h registry_code message_splitter \<Rightarrow>
    'h registry_code message_splitter \<Rightarrow> 'h registry_code task list \<Rightarrow> bool" where
  "passes_on handlers s s' ts' \<longleftrightarrow>
     splitter_handlers_ok s' \<and> list_all task_ok ts' \<and>
     mset (concat (map task_handlers ts')) + mset (reading_handlers s') =
       mset handlers + mset (reading_handlers s)"

lemma passes_on_refl [simp]: "passes_on [] s s [] \<longleftrightarrow> splitter_handlers_ok s"
  by (simp add: passes_on_def)

lemma body_ok_Result_received [simp]: "body_ok (Result_received handler)"
  by (auto simp: body_ok_def)

lemma reading_handlers_update [simp]:
  "reading_handlers (s\<lparr>octets := x\<rparr>) = reading_handlers s"
  "reading_handlers (s\<lparr>locked := l\<rparr>) = reading_handlers s"
  "reading_handlers (s\<lparr>begin_parse_message := b\<rparr>) = reading_handlers s"
  "reading_handlers (s\<lparr>waiting_for_request := w\<rparr>) = reading_handlers s"
  "reading_handlers (s\<lparr>waiting_for_response := w'\<rparr>) = reading_handlers s"
  "reading_handlers (s\<lparr>parsing_header := h\<rparr>) = reading_handlers s"
  "reading_handlers (s\<lparr>reading := None\<rparr>) = []"
  "reading_handlers (s\<lparr>reading := Some (Read_operation q k)\<rparr>) = continuation_handlers k"
  by (simp_all add: reading_handlers_def continuation_handlers_def split: continuation.splits)

lemma after_parse_passes_on:
  assumes s: "splitter_handlers_ok s" and k: "continuation_ok k"
    and run: "after_parse k s out = Inr ((s', ts'), es)"
  shows "passes_on (continuation_handlers k) s s' ts'"
proof -
  obtain op ev where out: "out = (op, ev)" by (cases out)
  show ?thesis
  proof (cases ev)
    case (On_result i r)
    with run out have "s' = s\<lparr>octets := receive_buffer op\<rparr>" "ts' = [Parsed k r]"
      by (cases r; simp)+
    with s k show ?thesis
      by (cases k) (auto simp: passes_on_def splitter_handlers_ok_def task_ok_def continuation_ok_def
          continuation_handlers_def body_ok_def)
  next
    case (Async_read_some n)
    with run out have "s' = s\<lparr>octets := receive_buffer op, reading := Some (Read_operation (parser op) k)\<rparr>"
      "ts' = []" "reading s = None"
      by (simp_all split: if_splits)
    with s k show ?thesis
      by (auto simp: passes_on_def splitter_handlers_ok_def continuation_ok_def
          reading_handlers_def [of s])
  qed
qed

lemma parse_passes_on:
  "splitter_handlers_ok s \<Longrightarrow> continuation_ok k \<Longrightarrow> parse_from_buffer is_valid k s = Inr ((s', ts'), es) \<Longrightarrow>
   passes_on (continuation_handlers k) s s' ts'"
  by (auto simp: parse_from_buffer_def and_then_Inr_iff intro: after_parse_passes_on)

lemma call_begin_passes_on:
  assumes "splitter_handlers_ok s" and "call_begin_parse_message is_valid s = Inr ((s', ts'), es)"
  shows "passes_on [] s s' ts'"
proof (cases "locked s")
  case True
  with assms show ?thesis
    by (auto simp: call_begin_parse_message_def passes_on_def split: if_splits)
next
  case False
  have "splitter_handlers_ok (s\<lparr>begin_parse_message := False, parsing_header := True\<rparr>)"
    using assms(1) by (simp add: splitter_handlers_ok_def)
  with assms False show ?thesis
    by (auto simp: call_begin_parse_message_def passes_on_def continuation_ok_def continuation_handlers_def
        split: if_splits dest!: parse_passes_on)
qed

lemma on_error_passes_on:
  "splitter_handlers_ok s \<Longrightarrow> splitter_on_error ec s = Inr ((s', ts'), es) \<Longrightarrow> passes_on [] s s' ts'"
  by (auto simp: splitter_on_error_def Let_def passes_on_def splitter_handlers_ok_def task_ok_def call_ok_def
      split: option.splits)

lemma message_type_passes_on:
  assumes "splitter_handlers_ok s" and "message_type_parsed is_valid r s = Inr ((s', ts'), es)"
  shows "passes_on [] s s' ts'"
  using message_type_cases [of is_valid r s]
proof (elim disjE exE conjE)
  fix ec
  assume "message_type_parsed is_valid r s = splitter_on_error ec s"
  with assms(2) have "splitter_on_error ec s = Inr ((s', ts'), es)" by simp
  then show ?thesis by (rule on_error_passes_on [OF assms(1)])
next
  assume "message_type_parsed is_valid r s = parse_from_buffer is_valid On_response s"
  with assms(2) have "parse_from_buffer is_valid On_response s = Inr ((s', ts'), es)" by simp
  from parse_passes_on [OF assms(1) _ this] show ?thesis
    by (simp add: continuation_ok_def continuation_handlers_def)
next
  assume "message_type_parsed is_valid r s = parse_from_buffer is_valid On_request s"
  with assms(2) have "parse_from_buffer is_valid On_request s = Inr ((s', ts'), es)" by simp
  from parse_passes_on [OF assms(1) _ this] show ?thesis
    by (simp add: continuation_ok_def continuation_handlers_def)
qed

lemma run_task_passes_on:
  assumes ok: "task_ok t" "splitter_handlers_ok s" "\<forall>k. t \<noteq> Client k" "\<forall>h. t \<noteq> Perform (Wait_for_request h)"
    and run: "run_task is_valid t s = Inr ((s', ts'), es)"
  shows "passes_on (task_handlers t) s s' ts'"
  using run ok
proof (cases rule: run_task.cases [of "(is_valid, t, s)"])
  case (2 is_valid h s)
  have "splitter_handlers_ok (s\<lparr>waiting_for_response := Some h, begin_parse_message := True\<rparr>)"
    using ok 2 by (simp add: splitter_handlers_ok_def task_ok_def call_ok_def)
  from call_begin_passes_on [OF this] this ok 2 run show ?thesis
    by (auto simp: wait_for_response_def and_then_Inr_iff passes_on_def split: if_splits)
next
  case (5 is_valid s)
  have "splitter_handlers_ok (s\<lparr>locked := False\<rparr>)"
    using ok 5 by (simp add: splitter_handlers_ok_def)
  from call_begin_passes_on [OF this] this ok 5 run show ?thesis
    by (auto simp: unlock_input_def Let_def passes_on_def split: if_splits)
next
  case (6 is_valid p f s)
  with ok run show ?thesis
    using parse_passes_on [of s "On_body p f"]
    by (simp add: task_ok_def call_ok_def continuation_ok_def continuation_handlers_def)
next
  case (7 is_valid r s)
  with ok run show ?thesis by (auto dest: message_type_passes_on)
next
  case (8 is_valid r s)
  show ?thesis
  proof (cases r)
    case (Inl ec)
    with 8 ok run on_error_passes_on show ?thesis
      by (auto simp: response_parsed_def split: option.splits)
  next
    case (Inr v)
    with 8 ok run show ?thesis
      by (auto simp: response_parsed_def passes_on_def splitter_handlers_ok_def task_ok_def call_ok_def
          split: option.splits if_splits)
  qed
next
  case (9 is_valid r s)
  with ok run show ?thesis by (auto simp: request_parsed_def splitter_handlers_ok_def)
next
  case (10 is_valid p f r s)
  with ok run show ?thesis
    by (auto simp: passes_on_def task_ok_def call_ok_def)
next
  case (11 is_valid continue' s)
  with ok run show ?thesis
    by (auto simp: after_response_def split: if_splits dest: call_begin_passes_on)
next
  case (12 is_valid continue' s)
  with ok run show ?thesis
    by (auto simp: after_request_def split: if_splits dest: call_begin_passes_on)
next
  case (13 is_valid w ec s)
  with ok run show ?thesis
    by (auto simp: report_to_request_def splitter_handlers_ok_def split: if_splits)
qed (use ok run in \<open>auto simp: lock_input_def passes_on_def splitter_handlers_ok_def split: if_splits\<close>)

text \<open>The registry's own code.\<close>

lemma registry_conserves:
  assumes ok: "std_map_ok (expected_responses r)"
    and run: "run_registry react k r = Inr ((r', calls), es)"
  shows "mset (expected es) + mset (waiting_handlers r) + mset (code_handlers k) =
      mset (handled es) + mset (dropped es) + mset (waiting_handlers r') +
        mset (concat (map call_handlers calls)) \<and>
    list_all call_ok calls \<and> std_map_ok (expected_responses r')"
proof -
  have on_error: "mset (concat (map call_handlers (map (\<lambda>(request, p, handler).
      Client_code (Call_handler handler (Inl ec))) m))) = mset (map (snd \<circ> snd) m)"
    for m :: "(request_id, parser_type \<times> 'a) std_map" and ec
    by (induction m) auto
  have members: "concat (map call_handlers (map (\<lambda>c. Client_code (Member c)) cs)) = []"
    for cs :: "'a registry_call list"
    by (induction cs) auto
  show ?thesis
    using run
  proof (cases rule: run_registry.cases [of "(react, k, r)"])
    case (1 react request p handler r)
    with run ok std_map_insert_mset [OF ok, of request "(p, handler)"] show ?thesis
      by (auto simp: expect_response_def parse_header_def Let_def waiting_handlers_def call_ok_def
          std_map.ok_insert mset_map split: response_state.splits if_splits)
  next
    case (2 react ec r)
    with run ok show ?thesis
      by (auto simp: registry_on_error_def Let_def waiting_handlers_def list_all_iff call_ok_def
          std_map_ok_def std_map_keys_def on_error simp del: map_map)
  next
    case (3 react request r)
    with run ok show ?thesis
      by (auto simp: header_received_def registry_on_error_def Let_def waiting_handlers_def list_all_iff
          call_ok_def std_map_ok_def [of "[]"] std_map_keys_def on_error
          std_map.ok_erase std_map_erase_mset mset_map
          simp del: map_map split: if_splits sum.splits option.splits)
  next
    case (4 react handler result r)
    with run ok show ?thesis
      by (auto simp: result_received_def registry_on_error_def Let_def waiting_handlers_def list_all_iff
          call_ok_def std_map_ok_def [of "[]"] std_map_keys_def on_error and_then_Inr_iff
          simp del: map_map split: if_splits sum.splits)
  next
    case (5 react handler v r)
    with run ok show ?thesis
      by (auto simp: result_unlocked_def parse_header_def Let_def waiting_handlers_def call_ok_def
          split: if_splits)
  next
    case (6 react handler result r)
    with run ok show ?thesis
      by (auto simp: list_all_iff call_ok_def members simp del: map_map)
  qed
qed

definition conserved ::
  "'h registry_event connection_event list \<Rightarrow>
    ('h registry_code, 'h expected_response_registry) connection \<Rightarrow> bool" where
  "conserved tr c \<longleftrightarrow>
     list_all task_ok (tasks c) \<and> splitter_handlers_ok (splitter c) \<and>
     std_map_ok (expected_responses (client c)) \<and> responses_only (tasks c) (splitter c) \<and>
     mset (expected (registry_events tr)) =
       mset (handled (registry_events tr)) + mset (dropped (registry_events tr)) +
       mset (waiting_handlers (client c)) + mset (in_progress c)"

lemma conserved_init: "conserved [] (connection_init registry_init)"
  by (simp add: conserved_def connection_init_def registry_init_def message_splitter_init_def
      splitter_handlers_ok_def in_progress_def reading_handlers_def waiting_handlers_def
      std_map.ok_empty responses_only_def)

lemma calls_handlers [simp]:
  "concat (map task_handlers (map Perform calls)) = concat (map call_handlers calls)"
  "list_all task_ok (map Perform calls) = list_all call_ok calls"
  by (induction calls) (simp_all add: task_ok_def)

lemma read_completes_passes_on:
  assumes ok: "splitter_handlers_ok s" and run: "read_completes is_valid ec bs s = Inr ((s', ts'), es)"
  shows "passes_on [] s s' ts'"
proof -
  from run obtain q k es' where reading: "reading s = Some (Read_operation q k)"
    and after: "after_parse k (s\<lparr>reading := None\<rparr>)
      (on_read (parser_class_of is_valid (continuation_parser k)) ec bs
        \<lparr>receive_buffer = octets s, parser = q\<rparr>) = Inr ((s', ts'), es')"
    by (auto simp: read_completes_def and_then_Inr_iff split: option.splits read_operation.splits)
  have "splitter_handlers_ok (s\<lparr>reading := None\<rparr>)" "continuation_ok k"
    using ok reading by (auto simp: splitter_handlers_ok_def continuation_ok_def split: continuation.splits)
  from after_parse_passes_on [OF this after] reading show ?thesis
    by (simp add: passes_on_def reading_handlers_def [of s] continuation_handlers_def
        split: continuation.splits)
qed

lemma conserved_task:
  assumes inv: "conserved tr c" and t: "tasks c = t # rest" "\<forall>k. t \<noteq> Client k"
    and run: "run_task is_valid t (splitter c) = Inr ((s', ts'), es)"
  shows "conserved (tr @ map Splitter_event es) (c\<lparr>splitter := s', tasks := ts' @ rest\<rparr>)"
proof -
  from inv t(1) have ok: "task_ok t" "splitter_handlers_ok (splitter c)"
    and only: "responses_only (t # rest) (splitter c)"
    and no_request: "\<forall>h. t \<noteq> Perform (Wait_for_request h)"
    by (auto simp: conserved_def)
  have "passes_on (task_handlers t) (splitter c) s' ts'"
    by (rule run_task_passes_on [OF ok t(2) no_request run])
  with inv t(1) run_task_responses_only [OF only run] show ?thesis
    by (auto simp: conserved_def passes_on_def in_progress_def ac_simps)
qed

lemma conserved_client:
  assumes inv: "conserved tr c" and t: "tasks c = Client k # rest"
    and run: "run_registry react k (client c) = Inr ((r', calls), es)"
  shows "conserved (tr @ map Client_event es) (c\<lparr>client := r', tasks := map Perform calls @ rest\<rparr>)"
proof -
  from inv have "std_map_ok (expected_responses (client c))" by (simp add: conserved_def)
  note conserves = registry_conserves [OF this run]
  have "responses_only (map Perform calls @ rest) (splitter c)"
    using inv t registry_client.calls_responses_only [OF run] by (simp add: conserved_def)
  with inv t conserves show ?thesis
    by (simp add: conserved_def in_progress_def ac_simps list_all_append del: map_map)
qed

lemma conserved_step:
  assumes inv: "conserved tr c" and step: "client_step is_valid react c i = Inr (c', es)"
  shows "conserved (tr @ es) c'"
  using step [unfolded client_step_def]
proof (cases rule: connection_step_cases)
  case (task t rest)
  with inv show ?thesis by (auto simp: push_tasks_iff intro: conserved_task)
next
  case (client_code k rest r' calls es')
  with inv show ?thesis by (auto intro: conserved_client)
next
  case (called k)
  then have "code_handlers k = []" by (cases i) auto
  with called inv show ?thesis
    by (auto simp: conserved_def task_ok_def call_ok_def in_progress_def responses_only_def)
next
  case (read ec bs)
  then show ?thesis
    using inv
    by (auto simp: push_tasks_iff conserved_def in_progress_def passes_on_def
        dest!: read_completes_passes_on dest: read_completes_responses_only)
qed (use inv in simp_all)

interpretation registry: traced_invariant "client_step is_valid react" conserved
  for is_valid react
  by unfold_locales (rule conserved_step)

subsection \<open>Which response answers which request\<close>

text \<open>
  \<open>answered tr h v\<close>: the trace holds the registration of \<open>h\<close> under some identifier and parser
  type, a response header with that identifier, and the value, delivered by a parser of that type.
\<close>

type_synonym 'h client_trace = "'h registry_event connection_event list"

definition answered :: "'h client_trace \<Rightarrow> 'h \<Rightarrow> wire_value \<Rightarrow> bool" where
  "answered tr h v \<longleftrightarrow>
     (\<exists>i p. Client_event (Expected i p h) \<in> set tr \<and>
       Splitter_event (Response_handler_called (Inr i)) \<in> set tr \<and>
       Splitter_event (Delivered p v) \<in> set tr)"

lemma answeredI:
  "Client_event (Expected i p h) \<in> set tr \<Longrightarrow> Splitter_event (Response_handler_called (Inr i)) \<in> set tr \<Longrightarrow>
   Splitter_event (Delivered p v) \<in> set tr \<Longrightarrow> answered tr h v"
  by (auto simp: answered_def)

definition asked :: "'h client_trace \<Rightarrow> parser_type \<Rightarrow> (error_code + wire_value \<Rightarrow> 'h registry_code) \<Rightarrow> bool" where
  "asked tr p f \<longleftrightarrow>
     (\<exists>i h. f = Result_received h \<and> Client_event (Expected i p h) \<in> set tr \<and>
       Splitter_event (Response_handler_called (Inr i)) \<in> set tr)"

lemma askedI:
  "Client_event (Expected i p h) \<in> set tr \<Longrightarrow> Splitter_event (Response_handler_called (Inr i)) \<in> set tr \<Longrightarrow>
   asked tr p (Result_received h)"
  by (auto simp: asked_def)

fun justified_code :: "'h client_trace \<Rightarrow> 'h registry_code \<Rightarrow> bool" where
  "justified_code tr (Header_received (Inr i)) \<longleftrightarrow>
     Splitter_event (Response_handler_called (Inr i)) \<in> set tr"
| "justified_code tr (Result_received h (Inr v)) \<longleftrightarrow> answered tr h v"
| "justified_code tr (Result_unlocked h v) \<longleftrightarrow> answered tr h v"
| "justified_code tr (Call_handler h (Inr v)) \<longleftrightarrow> answered tr h v"
| "justified_code tr _ \<longleftrightarrow> True"

fun justified_call :: "'h client_trace \<Rightarrow> 'h registry_code call \<Rightarrow> bool" where
  "justified_call tr (Client_code k) \<longleftrightarrow> justified_code tr k"
| "justified_call tr (Parse_body p f) \<longleftrightarrow> asked tr p f"
| "justified_call tr (Wait_for_response f) \<longleftrightarrow> f = Header_received"
| "justified_call tr _ \<longleftrightarrow> True"

fun justified_task :: "'h client_trace \<Rightarrow> 'h registry_code task \<Rightarrow> bool" where
  "justified_task tr (Perform c) \<longleftrightarrow> justified_call tr c"
| "justified_task tr (Parsed (On_body p f) r) \<longleftrightarrow>
     asked tr p f \<and> (\<forall>v. r = Inr v \<longrightarrow> Splitter_event (Delivered p v) \<in> set tr)"
| "justified_task tr _ \<longleftrightarrow> True"

definition justified_continuation :: "'h client_trace \<Rightarrow> 'h registry_code continuation \<Rightarrow> bool" where
  "justified_continuation tr k \<longleftrightarrow> (case k of On_body p f \<Rightarrow> asked tr p f | _ \<Rightarrow> True)"

definition justified_splitter :: "'h client_trace \<Rightarrow> 'h registry_code message_splitter \<Rightarrow> bool" where
  "justified_splitter tr s \<longleftrightarrow>
     (\<forall>f. waiting_for_response s = Some f \<longrightarrow> f = Header_received) \<and> waiting_for_request s = None \<and>
     (\<forall>op. reading s = Some op \<longrightarrow> justified_continuation tr (op_continuation op))"

lemma answered_mono: "answered tr h v \<Longrightarrow> answered (tr @ es) h v"
  by (auto simp: answered_def)

lemma asked_mono: "asked tr p f \<Longrightarrow> asked (tr @ es) p f"
  by (auto simp: asked_def)

lemma justified_code_mono: "justified_code tr k \<Longrightarrow> justified_code (tr @ es) k"
  by (cases "(tr, k)" rule: justified_code.cases) (auto intro: answered_mono)

lemma justified_continuation_mono: "justified_continuation tr q \<Longrightarrow> justified_continuation (tr @ es) q"
  by (cases q) (auto simp: justified_continuation_def intro: asked_mono)

lemma justified_splitter_mono: "justified_splitter tr s \<Longrightarrow> justified_splitter (tr @ es) s"
  by (auto simp: justified_splitter_def intro: justified_continuation_mono)

lemmas justified_mono = answered_mono asked_mono justified_code_mono justified_continuation_mono
  justified_splitter_mono

lemma justified_call_mono: "justified_call tr c \<Longrightarrow> justified_call (tr @ es) c"
  by (cases c) (auto intro: justified_mono)

lemma justified_task_mono: "justified_task tr t \<Longrightarrow> justified_task (tr @ es) t"
  by (cases "(tr, t)" rule: justified_task.cases) (auto intro: justified_mono justified_call_mono)

lemma justified_tasks_mono: "list_all (justified_task tr) ts \<Longrightarrow> list_all (justified_task (tr @ es)) ts"
  by (auto simp: list_all_iff intro: justified_task_mono)

definition justifies :: "'h client_trace \<Rightarrow> splitter_event list \<Rightarrow> 'h registry_code message_splitter \<Rightarrow>
    'h registry_code task list \<Rightarrow> bool" where
  "justifies tr es s ts \<longleftrightarrow> justified_splitter (tr @ map Splitter_event es) s \<and>
     list_all (justified_task (tr @ map Splitter_event es)) ts"

lemma justifies_append:
  "justifies (tr @ map Splitter_event es1) es2 s ts \<Longrightarrow> justifies tr (es1 @ es2) s ts"
  by (simp add: justifies_def)

lemma after_parse_justifies:
  assumes s: "justified_splitter tr s" and k: "justified_continuation tr k"
    and run: "after_parse k s out = Inr ((s', ts'), es)"
  shows "justifies tr es s' ts'"
proof -
  obtain op ev where out: "out = (op, ev)" by (cases out)
  have s': "justified_splitter (tr @ es') s" for es' using s by (rule justified_splitter_mono)
  show ?thesis
  proof (cases ev)
    case (On_result i r)
    have *: "justified_continuation (tr @ es') k" for es'
      using k by (rule justified_continuation_mono)
    show ?thesis
    proof (cases r)
      case (Inl ec)
      with On_result run out s' * show ?thesis
        by (cases k) (auto simp: justifies_def justified_splitter_def justified_continuation_def)
    next
      case (Inr v)
      with On_result run out s' * show ?thesis
        by (cases k) (auto simp: justifies_def justified_splitter_def justified_continuation_def)
    qed
  next
    case (Async_read_some n)
    with run out have "s' = s\<lparr>octets := receive_buffer op, reading := Some (Read_operation (parser op) k)\<rparr>"
      "ts' = []" "es = []"
      by (simp_all split: if_splits)
    with s k show ?thesis by (auto simp: justifies_def justified_splitter_def)
  qed
qed

lemma parse_justifies:
  assumes "justified_splitter tr s" and "justified_continuation tr k"
    and run: "parse_from_buffer is_valid k s = Inr ((s', ts'), es)"
  shows "justifies tr es s' ts'"
proof -
  from run obtain es' where es: "es = [Parse_started (continuation_parser k)] @ es'"
    and "after_parse k s (begin_parse_value (parser_class_of is_valid (continuation_parser k)) (octets s))
      = Inr ((s', ts'), es')"
    by (auto simp: parse_from_buffer_def and_then_Inr_iff)
  from after_parse_justifies [OF _ _ this(2)] assms(1,2) show ?thesis
    unfolding es by (intro justifies_append) (auto intro: justified_mono)
qed

lemma call_begin_justifies:
  assumes "justified_splitter tr s" and "call_begin_parse_message is_valid s = Inr ((s', ts'), es)"
  shows "justifies tr es s' ts'"
proof (cases "locked s")
  case True
  with assms show ?thesis
    by (auto simp: call_begin_parse_message_def justifies_def split: if_splits)
next
  case False
  have ok: "justified_splitter tr (s\<lparr>begin_parse_message := False, parsing_header := True\<rparr>)"
    "justified_continuation tr On_message_type"
    using assms(1) by (simp_all add: justified_splitter_def justified_continuation_def)
  from parse_justifies [OF ok] assms(2) False show ?thesis
    by (auto simp: call_begin_parse_message_def split: if_splits)
qed

lemma on_error_justifies:
  assumes "justified_splitter tr s" and "splitter_on_error ec s = Inr ((s', ts'), es)"
  shows "justifies tr es s' ts'"
proof -
  have "justified_splitter (tr @ es') s" for es' using assms(1) by (rule justified_splitter_mono)
  with assms show ?thesis
    by (auto simp: splitter_on_error_def Let_def justifies_def justified_splitter_def split: option.splits)
qed

lemma message_type_justifies:
  assumes s: "justified_splitter tr s" and run: "message_type_parsed is_valid r s = Inr ((s', ts'), es)"
  shows "justifies tr es s' ts'"
  using message_type_cases [of is_valid r s]
proof (elim disjE exE conjE)
  fix ec
  assume "message_type_parsed is_valid r s = splitter_on_error ec s"
  with run on_error_justifies [OF s] show ?thesis by simp
next
  assume "message_type_parsed is_valid r s = parse_from_buffer is_valid On_response s"
  with run parse_justifies [OF s, of On_response] show ?thesis
    by (simp add: justified_continuation_def)
next
  assume "message_type_parsed is_valid r s = parse_from_buffer is_valid On_request s"
  with run parse_justifies [OF s, of On_request] show ?thesis
    by (simp add: justified_continuation_def)
qed

lemma run_task_justifies:
  assumes ok: "justified_task tr t" "justified_splitter tr s" "\<forall>k. t \<noteq> Client k"
      "\<forall>h. t \<noteq> Perform (Wait_for_request h)"
    and run: "run_task is_valid t s = Inr ((s', ts'), es)"
  shows "justifies tr es s' ts'"
  using run ok
proof (cases rule: run_task.cases [of "(is_valid, t, s)"])
  case (2 is_valid h s)
  with run obtain es' where es: "es = [Waited_for_response] @ es'"
    and run': "(if parsing_header s
        then Inr ((s\<lparr>waiting_for_response := Some h, begin_parse_message := True\<rparr>, []), [])
        else call_begin_parse_message is_valid (s\<lparr>waiting_for_response := Some h, begin_parse_message := True\<rparr>))
      = Inr ((s', ts'), es')"
    by (auto simp: wait_for_response_def and_then_Inr_iff split: if_splits)
  have "justified_splitter (tr @ map Splitter_event [Waited_for_response])
      (s\<lparr>waiting_for_response := Some h, begin_parse_message := True\<rparr>)"
    using ok 2 justified_mono(4) by (fastforce simp: justified_splitter_def)
  with run' call_begin_justifies [OF this, of is_valid] show ?thesis
    unfolding es by (intro justifies_append) (auto simp: justifies_def split: if_splits)
next
  case (5 is_valid s)
  have "justified_splitter tr (s\<lparr>locked := False\<rparr>)"
    using ok 5 by (simp add: justified_splitter_def)
  with call_begin_justifies [OF this] run 5 show ?thesis
    by (auto simp: unlock_input_def Let_def justifies_def split: if_splits)
next
  case (6 is_valid p f s)
  with ok run parse_justifies [of tr s "On_body p f"] show ?thesis
    by (simp add: justified_continuation_def)
next
  case (7 is_valid r s)
  with ok run message_type_justifies show ?thesis by simp
next
  case (8 is_valid r s)
  show ?thesis
  proof (cases r)
    case (Inl ec)
    with 8 ok run on_error_justifies show ?thesis
      by (auto simp: response_parsed_def split: option.splits)
  next
    case (Inr v)
    have "justified_splitter (tr @ es') s" for es' using ok 8 justified_splitter_mono by auto
    with Inr 8 run show ?thesis
      by (auto simp: response_parsed_def justifies_def justified_splitter_def
          split: option.splits if_splits)
  qed
next
  case (9 is_valid r s)
  with ok run show ?thesis by (auto simp: request_parsed_def justified_splitter_def)
next
  case (10 is_valid p f r s)
  with ok have "justified_code tr (f r)"
    by (cases r) (auto simp: asked_def intro: answeredI)
  with 10 ok run show ?thesis by (auto simp: justifies_def)
next
  case (11 is_valid continue' s)
  with ok run show ?thesis
    by (auto simp: after_response_def justifies_def [of _ "[]"] split: if_splits intro: call_begin_justifies)
next
  case (12 is_valid continue' s)
  with ok run show ?thesis
    by (auto simp: after_request_def justifies_def [of _ "[]"] split: if_splits intro: call_begin_justifies)
next
  case (13 is_valid w ec s)
  with ok run show ?thesis
    by (auto simp: report_to_request_def justifies_def justified_splitter_def split: if_splits)
qed (use ok run in \<open>auto simp: lock_input_def justifies_def justified_splitter_def split: if_splits\<close>)

lemma read_completes_justifies:
  assumes s: "justified_splitter tr s" and run: "read_completes is_valid ec bs s = Inr ((s', ts'), es)"
  shows "justifies tr es s' ts'"
proof -
  from run obtain q k es' where reading: "reading s = Some (Read_operation q k)"
    and after: "after_parse k (s\<lparr>reading := None\<rparr>)
      (on_read (parser_class_of is_valid (continuation_parser k)) ec bs
        \<lparr>receive_buffer = octets s, parser = q\<rparr>) = Inr ((s', ts'), es')"
    and es: "es = [Octets_read (if ec = None then bs else [])] @ es'"
    by (auto simp: read_completes_def and_then_Inr_iff split: option.splits read_operation.splits)
  have "justified_splitter tr (s\<lparr>reading := None\<rparr>)" "justified_continuation tr k"
    using s reading by (auto simp: justified_splitter_def)
  with after_parse_justifies [OF _ _ after] show ?thesis
    unfolding es by (intro justifies_append) (auto intro: justified_mono)
qed

definition registered :: "'h client_trace \<Rightarrow> 'h expected_response_registry \<Rightarrow> bool" where
  "registered tr r \<longleftrightarrow>
     (\<forall>i p h. (i, p, h) \<in> set (expected_responses r) \<longrightarrow> Client_event (Expected i p h) \<in> set tr)"

lemma registered_mono: "registered tr r \<Longrightarrow> registered (tr @ es) r"
  by (auto simp: registered_def)

lemma std_map_insert_subset: "set (std_map_insert k v m) \<subseteq> insert (k, v) (set m)"
  by (induction k v m rule: std_map_insert.induct) auto

lemma std_map_erase_subset: "set (std_map_erase k m) \<subseteq> set m"
  by (induction k m rule: std_map_erase.induct) auto

lemma on_error_registered:
  assumes "registry_on_error ec r = Inr ((r', calls), es)"
  shows "list_all (justified_call tr') calls \<and> registered tr' r' \<and> es = []"
  using assms by (auto simp: registry_on_error_def Let_def registered_def list_all_iff)

lemma registry_justifies:
  assumes r: "registered tr r" and ok: "std_map_ok (expected_responses r)" and k: "justified_code tr k"
    and run: "run_registry react k r = Inr ((r', calls), es)"
  shows "list_all (justified_call (tr @ map Client_event es)) calls \<and> registered (tr @ map Client_event es) r' \<and>
    (\<forall>h v. Handled h (Inr v) \<in> set es \<longrightarrow> answered tr h v)"
  using run r ok k
proof (cases rule: run_registry.cases [of "(react, k, r)"])
  case (1 react request p handler r)
  have "set (std_map_insert request (p, handler) (expected_responses r)) \<subseteq>
      (if std_map_find request (expected_responses r) = None
       then insert (request, p, handler) (set (expected_responses r)) else set (expected_responses r))"
    using std_map_insert_mset [of "expected_responses r" request "(p, handler)"] ok 1
    by (simp split: if_splits) (metis mset_eq_setD order_refl set_mset_mset std_map_insert_subset)+
  with 1 assms show ?thesis
    by (auto simp: expect_response_def parse_header_def Let_def registered_def
        split: response_state.splits if_splits)
next
  case (2 react ec r)
  with assms on_error_registered [of ec r] show ?thesis by auto
next
  case (3 react request r)
  show ?thesis
  proof (cases request)
    case (Inl ec)
    with 3 run on_error_registered [of ec r] show ?thesis
      by (auto simp: header_received_def split: if_splits)
  next
    case (Inr i)
    show ?thesis
    proof (cases "std_map_find i (expected_responses r)")
      case None
      with Inr 3 run on_error_registered [of Invalid_input_error "r\<lparr>response_state := Not_expecting_response\<rparr>"]
      show ?thesis by (fastforce simp: header_received_def and_then_Inr_iff split: if_splits)
    next
      case (Some e)
      obtain p h where e: "e = (p, h)" by (cases e)
      with Some have "(i, p, h) \<in> set (expected_responses r)"
        by (simp add: std_map_find_def map_of_SomeD)
      with r k 3 Inr have "asked tr p (Result_received h)"
        by (intro askedI [of i p h]) (auto simp: registered_def)
      with Some e Inr 3 assms std_map_erase_subset [of i "expected_responses r"] show ?thesis
        by (auto simp: header_received_def registered_def split: if_splits)
    qed
  qed
next
  case (4 react handler result r)
  show ?thesis
  proof (cases result)
    case (Inl ec)
    with 4 run on_error_registered [of ec r] show ?thesis
      by (auto simp: result_received_def and_then_Inr_iff split: if_splits)
  next
    case (Inr v)
    with 4 assms show ?thesis
      by (auto simp: result_received_def split: if_splits)
  qed
next
  case (5 react handler v r)
  with assms show ?thesis
    by (auto simp: result_unlocked_def parse_header_def Let_def registered_def split: if_splits)
next
  case (6 react handler result r)
  with assms show ?thesis
    by (auto simp: list_all_iff registered_def)
qed

definition justified ::
  "'h client_trace \<Rightarrow> 'h client_connection \<Rightarrow> bool" where
  "justified tr c \<longleftrightarrow>
     conserved tr c \<and> list_all (justified_task tr) (tasks c) \<and> justified_splitter tr (splitter c) \<and>
     registered tr (client c) \<and>
     (\<forall>h v. Client_event (Handled h (Inr v)) \<in> set tr \<longrightarrow> answered tr h v)"

lemma justified_init: "justified [] (connection_init registry_init)"
  using conserved_init
  by (simp add: justified_def justified_splitter_def registered_def connection_init_def
      message_splitter_init_def registry_init_def)

lemma no_request_calls:
  "responses_only (t # rest) s \<Longrightarrow> t \<noteq> Perform (Wait_for_request h)"
  by auto

lemma justified_step:
  assumes inv: "justified tr c" and step: "client_step is_valid react c i = Inr (c', es)"
  shows "justified (tr @ es) c'"
proof -
  from inv have parts: "conserved tr c" "list_all (justified_task tr) (tasks c)"
    "justified_splitter tr (splitter c)" "registered tr (client c)"
    "\<And>h v. Client_event (Handled h (Inr v)) \<in> set tr \<Longrightarrow> answered tr h v"
    by (auto simp: justified_def)
  have conserved: "conserved (tr @ es) c'" using conserved_step [OF parts(1) step] .
  show ?thesis
    using step [unfolded client_step_def]
  proof (cases rule: connection_step_cases)
    case (task t rest)
    then obtain s' ts' es' where run: "run_task is_valid t (splitter c) = Inr ((s', ts'), es')"
      and c': "c' = c\<lparr>splitter := s', tasks := ts' @ rest\<rparr>" and es: "es = map Splitter_event es'"
      by (auto simp: push_tasks_iff)
    from parts(1,2) task(2) have t: "justified_task tr t" "list_all (justified_task tr) rest"
      "\<forall>h. t \<noteq> Perform (Wait_for_request h)"
      by (auto simp: conserved_def)
    from run_task_justifies [OF t(1) parts(3) task(3) t(3) run] show ?thesis
      using conserved justified_tasks_mono [OF t(2)] registered_mono [OF parts(4)] parts(5)
      by (auto simp: justified_def c' es justifies_def intro: answered_mono)
  next
    case (client_code k rest r' calls es')
    from parts(1,2) client_code(2) have k: "justified_code tr k" "list_all (justified_task tr) rest"
      "std_map_ok (expected_responses (client c))"
      by (auto simp: conserved_def)
    have "list_all (justified_call (tr @ es)) calls \<Longrightarrow>
        list_all (justified_task (tr @ es)) (map Perform calls)"
      by (simp add: list_all_iff)
    with registry_justifies [OF parts(4) k(3,1) client_code(3)] show ?thesis
      using conserved client_code justified_tasks_mono [OF k(2)] justified_splitter_mono [OF parts(3)] parts(5)
      by (auto simp: justified_def intro: answered_mono)
  next
    case (called k)
    then have "justified_code tr k" by (cases i) auto
    with called parts conserved show ?thesis by (simp add: justified_def)
  next
    case (read ec bs)
    then obtain s' ts' es' where run: "read_completes is_valid ec bs (splitter c) = Inr ((s', ts'), es')"
      and c': "c' = c\<lparr>splitter := s', tasks := ts' @ []\<rparr>" and es: "es = map Splitter_event es'"
      by (auto simp: push_tasks_iff)
    have "justifies tr es' s' ts'" using parts(3) run by (rule read_completes_justifies)
    then show ?thesis
      using conserved registered_mono [OF parts(4)] parts(5)
      by (auto simp: justified_def c' es justifies_def intro: answered_mono)
  qed (use inv in simp_all)
qed

interpretation answers: traced_invariant "client_step is_valid react" justified for is_valid react
  by unfold_locales (rule justified_step)

subsection \<open>Properties\<close>

abbreviation run_client ::
  "(bytes \<Rightarrow> bool) \<Rightarrow> ('h \<Rightarrow> error_code + wire_value \<Rightarrow> 'h registry_call list) \<Rightarrow> 'h client_input list \<Rightarrow>
    ('h registry_code, 'h expected_response_registry, 'h registry_event) connection_result" where
  "run_client is_valid react inputs \<equiv>
     run (client_step is_valid react) (connection_init registry_init) inputs"

lemma run_client_connection:
  "run (client_step is_valid react) c inputs =
   run (connection_step is_valid (run_registry react)) c (map connection_input_of inputs)"
  by (induction inputs arbitrary: c) (simp_all add: client_step_def)

lemma run_client_justified:
  "run_client is_valid react inputs = Inr (c, tr) \<Longrightarrow> justified tr c"
  using answers.inv_run [OF justified_init] by fastforce

text \<open>A client whose handlers do nothing makes one request with a response of two octets.\<close>

abbreviation quiet :: "nat \<Rightarrow> error_code + wire_value \<Rightarrow> nat registry_call list" where
  "quiet \<equiv> \<lambda>h r. []"

abbreviation one_response :: "nat client_input list" where
  "one_response \<equiv>
     [Call_member (Expect_response 7 (P_integer Uint16) 1)] @ replicate 2 Run_next @
     [Stream_read None (response_header 7 @ [1, 2])] @ replicate 12 Run_next"

lemma one_response_handled:
  "case run_client (\<lambda>_. True) quiet one_response of
     Inl f \<Rightarrow> False
   | Inr (c, tr) \<Rightarrow> Client_event (Handled 1 (Inr (V_uint16 258))) \<in> set tr \<and>
       tasks c = [] \<and> pending_requests (client c) = 0"
  by code_simp

text \<open>C10: Every result handler is called at most once: the handlers of the requests made so far are
  exactly those called, those dropped, those of the requests that still wait, and those of the
  response in progress, each as often as it was registered.\<close>

theorem registry_accounts_for_handlers:
  assumes "run_client is_valid react inputs = Inr (c, tr)"
  shows "mset (expected (registry_events tr)) =
    mset (handled (registry_events tr)) + mset (dropped (registry_events tr)) +
    mset (waiting_handlers (client c)) + mset (in_progress c)"
  using run_client_justified [OF assms] by (simp add: justified_def conserved_def)

theorem registry_accounts_for_handlers_witness:
  "\<exists>c tr. run_client (\<lambda>_. True) quiet one_response = Inr (c, tr) \<and>
    mset (expected (registry_events tr)) =
    mset (handled (registry_events tr)) + mset (dropped (registry_events tr)) +
    mset (waiting_handlers (client c)) + mset (in_progress c)"
proof -
  obtain c tr where run: "run_client (\<lambda>_. True) quiet one_response = Inr (c, tr)"
    using one_response_handled by (auto split: sum.splits)
  from registry_accounts_for_handlers [OF run] run show ?thesis by blast
qed

text \<open>C13: A handler that is called with a value was registered under an identifier that a response
  header carried, and the value was delivered by the parser registered with it.\<close>

theorem registry_matches_responses:
  assumes "run_client is_valid react inputs = Inr (c, tr)"
    and "Client_event (Handled h (Inr v)) \<in> set tr"
  shows "\<exists>i p. Client_event (Expected i p h) \<in> set tr \<and>
    Splitter_event (Response_handler_called (Inr i)) \<in> set tr \<and>
    Splitter_event (Delivered p v) \<in> set tr"
  using run_client_justified [OF assms(1)] assms(2) by (simp add: justified_def answered_def)

theorem registry_matches_responses_witness:
  "\<exists>c tr i p. run_client (\<lambda>_. True) quiet one_response = Inr (c, tr) \<and>
    Client_event (Expected i p 1) \<in> set tr \<and> Splitter_event (Delivered p (V_uint16 258)) \<in> set tr"
proof -
  obtain c tr where run: "run_client (\<lambda>_. True) quiet one_response = Inr (c, tr)"
    and handled: "Client_event (Handled 1 (Inr (V_uint16 258))) \<in> set tr"
    using one_response_handled by (auto split: sum.splits)
  from registry_matches_responses [OF run handled] run show ?thesis by blast
qed

text \<open>C19: A connection that is used by a registry only never runs into the missing function object of
  the splitter, nor into any other assertion of the splitter about itself.\<close>

theorem registry_never_misses_begin_parse_message:
  assumes "run_client is_valid react inputs = Inl f"
  shows "client_fault f \<and> f \<noteq> Begin_parse_message_missing"
  by (rule registry_client.one_way_failures [OF assms [unfolded run_client_connection]])

theorem registry_never_misses_begin_parse_message_witness:
  "\<exists>f. run_client (\<lambda>_. True) quiet [Call_member (On_error Invalid_input_error), Stream_read None []] = Inl f \<and>
    f \<noteq> Begin_parse_message_missing"
proof -
  have run: "run_client (\<lambda>_. True) quiet [Call_member (On_error Invalid_input_error), Stream_read None []] =
      Inl Re_entered"
    by (simp add: client_step_def and_then_def connection_init_def)
  from registry_never_misses_begin_parse_message [OF run] run show ?thesis by blast
qed

text \<open>A response whose body is malformed loses its handler: the entry has left the map before the
  body is parsed, \<open>on_error\<close> reports to the remaining entries only, and the handler of the request
  that was being answered is destroyed without having been called. The input also stays locked.\<close>

theorem malformed_result_drops_handler:
  "case run_client (\<lambda>s. False) quiet
     ([Call_member (Expect_response 7 (P_utf8 Uint8) 1)] @ replicate 2 Run_next @
      [Stream_read None (response_header 7 @ [1, 255])] @ replicate 12 Run_next) of
   Inl f \<Rightarrow> False
 | Inr (c, tr) \<Rightarrow> tasks c = [] \<and> handled (registry_events tr) = [] \<and> dropped (registry_events tr) = [1] \<and>
     pending_requests (client c) = 0 \<and> locked (splitter c)"
  by code_simp

text \<open>When an error is reported from outside (a failed write) while a response is awaited, the
  registry forgets that the splitter still holds its handler; the next request trips the assertion
  of \<open>wait_for_response\<close>.\<close>

theorem request_after_write_error_fails:
  "case run_client (\<lambda>s. True) quiet
     ([Call_member (Expect_response 7 (P_utf8 Uint8) 1)] @ replicate 2 Run_next @
      [Call_member (On_error (Transport_error 32))] @ replicate 2 Run_next @
      [Call_member (Expect_response 8 (P_utf8 Uint8) 2)] @ replicate 2 Run_next) of
   Inl f \<Rightarrow> f = Already_waiting_for_response
 | Inr r \<Rightarrow> False"
  by code_simp

end
