(* ===== verification/Client_Pipeline.thy ===== *)
theory Client_Pipeline
  imports Response_Registry Buffered_Writer Value_Serialization
begin

text \<open>
  \<open>warpcoil/cpp/client_pipeline.hpp\<close> and what
  \<open>warpcoil/cpp/generate/generate_serialization_client.hpp\<close> generates: the client of an
  interface. A method of the generated class writes a request through the buffered writer and
  registers the handler of its result with the response registry.
  \<^item> \<open>build_request\<close> is the lambda that the generator writes for a method;
    \<open>pipeline_request\<close> is \<open>client_pipeline::request\<close>; \<open>call_method\<close> the member function.
  \<^item> The client is a piece of client code of the message splitter (\<open>run_client_code\<close>): its
    state holds the writer, the registry and the next request identifier. The completion of a
    write comes from outside and runs the handlers of that write as tasks, in their order.
  \<^item> A result handler is a value of a type \<open>'h\<close>; the argument \<open>react\<close> says which methods of
    the client it calls when it is invoked.
\<close>

subsection \<open>Completing a write, step by step\<close>

text \<open>
  \<open>buffered_writer::finish_send\<close> cut at the calls of the handlers: what it does before them, the
  handlers in the order of their calls, and whether it calls \<open>continue_send\<close> after them.
\<close>

definition write_finishes ::
  "error_code option \<Rightarrow> 'h buffered_writer \<Rightarrow>
    (writer_failure, 'h buffered_writer \<times> 'h list \<times> bool, 'h writer_event) step_result" where
  "write_finishes ec w =
     (case outstanding w of
        None \<Rightarrow> Inl No_write_outstanding
      | Some wr \<Rightarrow>
          (let continue' = (buffer w \<noteq> [] \<and> handler_queue wr \<noteq> [])
           in Inr ((if continue' then w else w\<lparr>state := Not_sending, outstanding := None\<rparr>,
                    rev (write_handlers wr), continue'),
                   [Write_completed (write_data wr) ec])))"

fun call_handlers_in_order ::
  "('h \<Rightarrow> error_code option \<Rightarrow> 'h writer_op list) \<Rightarrow> error_code option \<Rightarrow> 'h list \<Rightarrow> 'h buffered_writer \<Rightarrow>
    'h writer_result" where
  "call_handlers_in_order react ec [] w = Inr (w, [])"
| "call_handlers_in_order react ec (h # hs) w =
     and_then (call_handler react ec h w) (call_handlers_in_order react ec hs)"

lemma call_handlers_in_order_snoc:
  "call_handlers_in_order react ec (hs @ [h]) w =
   and_then (call_handlers_in_order react ec hs w) (call_handler react ec h)"
  by (induction hs arbitrary: w) (auto simp: and_then_def split: sum.splits prod.splits)

lemma handle_result_in_order:
  "handle_result react ec hs w = call_handlers_in_order react ec (rev hs) w"
  by (induction hs arbitrary: w) (simp_all add: call_handlers_in_order_snoc)

subsection \<open>The request that the generator builds\<close>

text \<open>The octets of a string literal as \<open>Si::make_c_str_range\<close> sees them.\<close>

definition c_str_range :: "ident \<Rightarrow> bytes" where
  "c_str_range literal = map of_char (takeWhile (\<lambda>c. c \<noteq> CHR 0x00) literal)"

definition build_request ::
  "(bytes \<Rightarrow> bool) \<Rightarrow> ident \<Rightarrow> parameter list \<Rightarrow> wire_value list \<Rightarrow> exec_result" where
  "build_request is_valid name ps arguments =
     in_sequence
       [([of_nat (length name)], Completed),
        (c_str_range name, Completed),
        exec_all is_valid
          (concat (map (\<lambda>p. value_serialization (parameter_type p) (E_var (parameter_name p))) ps))
          (map_of (zip (map parameter_name ps) arguments))]"

subsection \<open>The client\<close>

record 'h rpc_client =
  requests :: "unit buffered_writer"
  responses :: "'h expected_response_registry"
  next_request_id :: request_id

definition rpc_client_init :: "'h rpc_client" where
  "rpc_client_init =
     \<lparr>requests = buffered_writer_init, responses = registry_init, next_request_id = 0\<rparr>"

datatype 'h client_call = Call_method ident "wire_value list" 'h

datatype 'h rpc_client_code =
    Generated_method "'h client_call"
  | In_registry "'h registry_code"
  | Request_written "error_code option"  \<comment> \<open>the completion of the outstanding write\<close>
  | Request_handler "error_code option"  \<comment> \<open>the lambda that \<open>request\<close> passes to \<open>send_buffer\<close>\<close>
  | Continue_request

datatype 'h rpc_client_event =
    Requested request_id ident "wire_value list" 'h
  | Request_failed request_id
  | Request_event "unit writer_event"
  | Registry_event "'h registry_event"

type_synonym 'h rpc_client_result =
  "(unit, 'h rpc_client \<times> 'h rpc_client_code call list, 'h rpc_client_event) step_result"

text \<open>Operations of the writer and of the registry inside the client.\<close>

definition with_requests ::
  "(unit buffered_writer \<Rightarrow> unit writer_result) \<Rightarrow> 'h rpc_client \<Rightarrow>
    (unit, 'h rpc_client, 'h rpc_client_event) step_result" where
  "with_requests f c =
     (case f (requests c) of
        Inl failure \<Rightarrow> Inl ()
      | Inr (w, es) \<Rightarrow> Inr (c\<lparr>requests := w\<rparr>, map Request_event es))"

definition with_responses ::
  "('h expected_response_registry \<Rightarrow> 'h registry_result) \<Rightarrow> 'h rpc_client \<Rightarrow> 'h rpc_client_result" where
  "with_responses f c =
     (case f (responses c) of
        Inl u \<Rightarrow> Inl u
      | Inr ((r, calls), es) \<Rightarrow>
          Inr ((c\<lparr>responses := r\<rparr>, map (map_call In_registry) calls), map Registry_event es))"

text \<open>
  \<open>client_pipeline::request\<close>; \<open>built\<close> is what \<open>build_request\<close> writes and how it ends. On a
  failure the generated lambda has called the handler, and what was written stays in the buffer.
\<close>

definition pipeline_request ::
  "exec_result \<Rightarrow> parser_type \<Rightarrow> 'h \<Rightarrow> 'h rpc_client \<Rightarrow> 'h rpc_client_result" where
  "pipeline_request built result_parser handler c =
     (let current_id = next_request_id c
      in and_then (with_requests (append_to_sink (write_integer message_type_request)) c) (\<lambda>c.
         and_then (with_requests (append_to_sink (write_integer current_id))
           (c\<lparr>next_request_id := next_request_id c + 1\<rparr>)) (\<lambda>c.
         and_then (with_requests (append_to_sink (fst built)) c) (\<lambda>c.
           case snd built of
             Stuck \<Rightarrow> Inl ()
           | Returned_error \<Rightarrow>
               Inr ((c, [Client_code (In_registry (Call_handler handler (Inl Invalid_input_error)))]),
                    [Request_failed current_id])
           | Completed \<Rightarrow>
               and_then (with_requests (send_buffer ()) c)
                 (with_responses (expect_response current_id result_parser handler))))))"

definition client_pending_requests :: "'h rpc_client \<Rightarrow> nat" where
  "client_pending_requests c = pending_requests (responses c)"

text \<open>
  A member function of the generated class. A call that is not well typed (a method that does not
  exist, arguments of other types) does not compile, so the model does not continue from it.
\<close>

definition call_method ::
  "(bytes \<Rightarrow> bool) \<Rightarrow> interface_definition \<Rightarrow> ident \<Rightarrow> wire_value list \<Rightarrow> 'h \<Rightarrow> 'h rpc_client \<Rightarrow>
    'h rpc_client_result" where
  "call_method is_valid definition name arguments handler c =
     (case std_map_find name (methods definition) of
        None \<Rightarrow> Inl ()
      | Some m \<Rightarrow>
          if list_all2 (\<lambda>p v. has_type (parameter_type p) v) (parameters m) arguments
          then and_then (Inr (c, [Requested (next_request_id c) name arguments handler]))
            (pipeline_request (build_request is_valid name (parameters m) arguments)
              (parser_type_of (method_result m)) handler)
          else Inl ())"

fun run_rpc_client ::
  "(bytes \<Rightarrow> bool) \<Rightarrow> interface_definition \<Rightarrow> ('h \<Rightarrow> error_code + wire_value \<Rightarrow> 'h client_call list) \<Rightarrow>
    ('h rpc_client_code, 'h rpc_client, 'h rpc_client_event) client_code" where
  "run_rpc_client is_valid definition react (Generated_method (Call_method name arguments handler)) c =
     call_method is_valid definition name arguments handler c"
| "run_rpc_client is_valid definition react (In_registry (Call_handler handler result)) c =
     Inr ((c, map (\<lambda>m. Client_code (Generated_method m)) (react handler result)),
          [Registry_event (Handled handler result)])"
| "run_rpc_client is_valid definition react (In_registry (Member m)) c = Inl ()"
| "run_rpc_client is_valid definition react (In_registry k) c =
     with_responses (run_registry (\<lambda>h r. []) k) c"
| "run_rpc_client is_valid definition react (Request_written ec) c =
     (case write_finishes ec (requests c) of
        Inl failure \<Rightarrow> Inl ()
      | Inr ((w, hs, continue'), es) \<Rightarrow>
          Inr ((c\<lparr>requests := w\<rparr>, map (\<lambda>h. Client_code (Request_handler ec)) hs @
                  (if continue' then [Client_code Continue_request] else [])),
               map Request_event es))"
| "run_rpc_client is_valid definition react (Request_handler ec) c =
     and_then (Inr (c, [Request_event (Handler_called () ec)])) (\<lambda>c.
       case ec of
         None \<Rightarrow> Inr ((c, []), [])
       | Some e \<Rightarrow> with_responses (registry_on_error e) c)"
| "run_rpc_client is_valid definition react Continue_request c =
     and_then (with_requests continue_send c) (\<lambda>c. Inr ((c, []), []))"

text \<open>
  The registry is a private member of the pipeline: only \<open>request\<close> and the handler of a write call
  its members, so there is no code that does.
\<close>

text \<open>What comes from outside: a call of a method, the completion of a write, and of a read.\<close>

datatype 'h rpc_client_input =
    Client_runs
  | Client_calls "'h client_call"
  | Client_write_completes "error_code option"
  | Client_reads "error_code option" bytes

primrec rpc_client_input_of :: "'h rpc_client_input \<Rightarrow> 'h rpc_client_code connection_input" where
  "rpc_client_input_of Client_runs = Run_task"
| "rpc_client_input_of (Client_calls m) = Call (Generated_method m)"
| "rpc_client_input_of (Client_write_completes ec) = Call (Request_written ec)"
| "rpc_client_input_of (Client_reads ec bs) = Read_completes ec bs"

type_synonym 'h rpc_client_connection = "('h rpc_client_code, 'h rpc_client) connection"
type_synonym 'h rpc_client_trace = "'h rpc_client_event connection_event list"

definition rpc_client_step ::
  "(bytes \<Rightarrow> bool) \<Rightarrow> interface_definition \<Rightarrow> ('h \<Rightarrow> error_code + wire_value \<Rightarrow> 'h client_call list) \<Rightarrow>
    'h rpc_client_connection \<Rightarrow> 'h rpc_client_input \<Rightarrow>
    ('h rpc_client_code, 'h rpc_client, 'h rpc_client_event) connection_result" where
  "rpc_client_step is_valid definition react c i =
     connection_step is_valid (run_rpc_client is_valid definition react) c (rpc_client_input_of i)"

abbreviation rpc_client_run where
  "rpc_client_run is_valid definition react inputs \<equiv>
     run (rpc_client_step is_valid definition react) (connection_init rpc_client_init) inputs"

subsection \<open>The steps make up \<open>finish_send\<close>\<close>

text \<open>The completion of a write, cut at the calls of the handlers, is what \<open>finish_send\<close>
  does in one piece: complete the write, call its handlers in the order of the \<open>send_buffer\<close> calls,
  and start the next write if one was requested and there is something to write.\<close>

theorem finish_send_steps:
  "finish_send react ec w =
    and_then (write_finishes ec w) (\<lambda>(w, hs, continue').
      and_then (call_handlers_in_order react ec hs w) (\<lambda>w. if continue' then continue_send w else Inr (w, [])))"
  by (auto simp: finish_send_def write_finishes_def handle_result_in_order and_then_def Let_def
      split: option.splits sum.splits prod.splits)

end
