(* ===== verification/Generated_Server.thy ===== *)
theory Generated_Server
  imports Client_Pipeline
begin

text \<open>
  What \<open>warpcoil/cpp/generate/generate_serialization_server.hpp\<close> generates: the server of an
  interface. It waits for a request at the message splitter, finds the method by its name, parses
  the arguments with the input locked, calls the implementation, and writes the response through
  the buffered writer.
  \<^item> \<open>run_rpc_server\<close> has one case for each function and lambda of the generated class; like
    the client it is a piece of client code of the splitter, and the completion of a write comes
    from outside.
  \<^item> The implementation is the argument \<open>implementation\<close>: for a method and its arguments the result
    it passes to its callback at once (a value of another type does not compile), or \<open>None\<close> when it keeps the callback; a kept callback is an
    entry of \<open>running\<close> and is invoked from outside, once.
  \<^item> The handler of \<open>serve_one_request\<close> is a value of a type \<open>'h\<close>; \<open>react\<close> says with which
    handlers it calls \<open>serve_one_request\<close> again.
\<close>

definition type_emptiness_of :: "wire_type \<Rightarrow> type_emptiness" where
  "type_emptiness_of t =
     (case t of
        Variant elements \<Rightarrow> if elements = [] then Empty else Non_empty
      | Tuple elements \<Rightarrow> if elements = [] then Empty else Non_empty
      | Structure elements \<Rightarrow> if elements = [] then Empty else Non_empty
      | _ \<Rightarrow> Non_empty)"

text \<open>The chain of comparisons: the first method, in the order of the map, with this name.\<close>

fun find_method :: "bytes \<Rightarrow> (ident, method_definition) std_map \<Rightarrow> (ident \<times> method_definition) option"
  where
  "find_method name [] = None"
| "find_method name ((k, m) # ms) =
     (if name = c_str_range k then Some (k, m) else find_method name ms)"

record 'h rpc_server =
  replies :: "'h buffered_writer"
  running :: "('h \<times> request_id \<times> wire_type) list"

definition rpc_server_init :: "'h rpc_server" where
  "rpc_server_init = \<lparr>replies = buffered_writer_init, running = []\<rparr>"

datatype 'h rpc_server_code =
    Serve_one_request 'h
  | Request_received 'h "error_code + request_id \<times> bytes"
  | Argument_received 'h request_id ident "error_code + wire_value"
  | Argument_unlocked 'h request_id ident "error_code + wire_value"
  | Result_received_for 'h request_id wire_type "error_code + wire_value"
  | Callback_invoked nat "error_code + wire_value"
  | Handle_result 'h "error_code option"
  | Response_written "error_code option"
  | Continue_response

datatype 'h rpc_server_event =
    Implementation_called request_id ident "wire_value list"
  | Responded request_id wire_type wire_value
  | Response_failed request_id
  | Served 'h "error_code option"
  | Response_event "'h writer_event"

type_synonym 'h rpc_server_result =
  "(unit, 'h rpc_server \<times> 'h rpc_server_code call list, 'h rpc_server_event) step_result"

definition with_replies ::
  "('h buffered_writer \<Rightarrow> 'h writer_result) \<Rightarrow> 'h rpc_server \<Rightarrow>
    (unit, 'h rpc_server, 'h rpc_server_event) step_result" where
  "with_replies f c =
     (case f (replies c) of
        Inl failure \<Rightarrow> Inl ()
      | Inr (w, es) \<Rightarrow> Inr (c\<lparr>replies := w\<rparr>, map Response_event es))"

text \<open>
  \<open>begin_receive_request_header\<close>'s handler; an unknown name throws \<open>std::logic_error\<close>, which
  the model does not continue from.
\<close>

definition request_received ::
  "interface_definition \<Rightarrow> 'h \<Rightarrow> error_code + request_id \<times> bytes \<Rightarrow> 'h rpc_server \<Rightarrow> 'h rpc_server_result"
  where
  "request_received definition h request c =
     (case request of
        Inl ec \<Rightarrow> Inr ((c, [Client_code (Handle_result h (Some ec))]), [])
      | Inr (i, name) \<Rightarrow>
          (case find_method name (methods definition) of
             None \<Rightarrow> Inl ()
           | Some (k, m) \<Rightarrow>
               Inr ((c, [Lock_input,
                         Parse_body (parser_type_of (get_parameter_type (parameters m)))
                           (Argument_received h i k)]), [])))"

text \<open>\<open>std::get<i>(std::move(argument.get()))\<close> for each parameter.\<close>

definition move_arguments_out_of_tuple :: "nat \<Rightarrow> wire_value \<Rightarrow> wire_value list" where
  "move_arguments_out_of_tuple n argument = map ((!) (the_tuple argument)) [0..<n]"

definition argument_unlocked ::
  "interface_definition \<Rightarrow> (ident \<Rightarrow> wire_value list \<Rightarrow> (error_code + wire_value) option) \<Rightarrow>
    'h \<Rightarrow> request_id \<Rightarrow> ident \<Rightarrow> error_code + wire_value \<Rightarrow> 'h rpc_server \<Rightarrow> 'h rpc_server_result" where
  "argument_unlocked definition implementation h i name argument c =
     (case argument of
        Inl ec \<Rightarrow> Inr ((c, [Client_code (Handle_result h (Some ec))]), [])
      | Inr v \<Rightarrow>
          (case std_map_find name (methods definition) of
             None \<Rightarrow> Inl ()
           | Some m \<Rightarrow>
               (let arguments = move_arguments_out_of_tuple (length (parameters m)) v
                in case implementation name arguments of
                     Some result \<Rightarrow>
                       Inr ((c, [Client_code (Result_received_for h i (method_result m) result)]),
                            [Implementation_called i name arguments])
                   | None \<Rightarrow>
                       Inr ((c\<lparr>running := running c @ [(h, i, method_result m)]\<rparr>, []),
                            [Implementation_called i name arguments]))))"

definition serialized_result :: "(bytes \<Rightarrow> bool) \<Rightarrow> wire_type \<Rightarrow> wire_value \<Rightarrow> exec_result" where
  "serialized_result is_valid t v =
     (case type_emptiness_of t of
        Empty \<Rightarrow> ([], Completed)
      | Non_empty \<Rightarrow>
          exec_all is_valid (value_serialization t (E_var ''result.get()'')) [''result.get()'' \<mapsto> v])"

definition result_received_for ::
  "(bytes \<Rightarrow> bool) \<Rightarrow> 'h \<Rightarrow> request_id \<Rightarrow> wire_type \<Rightarrow> error_code + wire_value \<Rightarrow> 'h rpc_server \<Rightarrow>
    'h rpc_server_result" where
  "result_received_for is_valid h i t result c =
     (case result of
        Inl ec \<Rightarrow> Inr ((c, [Client_code (Handle_result h (Some ec))]), [])
      | Inr v \<Rightarrow>
          if \<not> has_type t v then Inl ()
          else and_then (with_replies (append_to_sink (write_integer message_type_response)) c) (\<lambda>c.
          and_then (with_replies (append_to_sink (write_integer i)) c) (\<lambda>c.
          and_then (with_replies (append_to_sink (fst (serialized_result is_valid t v))) c) (\<lambda>c.
            case snd (serialized_result is_valid t v) of
              Stuck \<Rightarrow> Inl ()
            | Returned_error \<Rightarrow>
                Inr ((c, [Client_code (Handle_result h (Some Invalid_input_error))]), [Response_failed i])
            | Completed \<Rightarrow>
                and_then (Inr (c, [Responded i t v])) (\<lambda>c.
                  and_then (with_replies (send_buffer h) c) (\<lambda>c. Inr ((c, []), [])))))))"

fun run_rpc_server ::
  "(bytes \<Rightarrow> bool) \<Rightarrow> interface_definition \<Rightarrow>
    (ident \<Rightarrow> wire_value list \<Rightarrow> (error_code + wire_value) option) \<Rightarrow>
    ('h \<Rightarrow> error_code option \<Rightarrow> 'h list) \<Rightarrow>
    ('h rpc_server_code, 'h rpc_server, 'h rpc_server_event) client_code" where
  "run_rpc_server is_valid definition implementation react (Serve_one_request h) c =
     Inr ((c, [Wait_for_request (Request_received h)]), [])"
| "run_rpc_server is_valid definition implementation react (Request_received h request) c =
     request_received definition h request c"
| "run_rpc_server is_valid definition implementation react (Argument_received h i name argument) c =
     Inr ((c, [Unlock_input, Client_code (Argument_unlocked h i name argument)]), [])"
| "run_rpc_server is_valid definition implementation react (Argument_unlocked h i name argument) c =
     argument_unlocked definition implementation h i name argument c"
| "run_rpc_server is_valid definition implementation react (Result_received_for h i t result) c =
     result_received_for is_valid h i t result c"
| "run_rpc_server is_valid definition implementation react (Callback_invoked n result) c =
     (if n < length (running c)
      then (case running c ! n of (h, i, t) \<Rightarrow>
        Inr ((c\<lparr>running := take n (running c) @ drop (Suc n) (running c)\<rparr>,
              [Client_code (Result_received_for h i t result)]), []))
      else Inl ())"
| "run_rpc_server is_valid definition implementation react (Handle_result h ec) c =
     Inr ((c, map (\<lambda>h. Client_code (Serve_one_request h)) (react h ec)), [Served h ec])"
| "run_rpc_server is_valid definition implementation react (Response_written ec) c =
     (case write_finishes ec (replies c) of
        Inl failure \<Rightarrow> Inl ()
      | Inr ((w, hs, continue'), es) \<Rightarrow>
          Inr ((c\<lparr>replies := w\<rparr>, map (\<lambda>h. Client_code (Handle_result h ec)) hs @
                  (if continue' then [Client_code Continue_response] else [])),
               map Response_event es))"
| "run_rpc_server is_valid definition implementation react Continue_response c =
     and_then (with_replies continue_send c) (\<lambda>c. Inr ((c, []), []))"

datatype 'h rpc_server_input =
    Server_runs
  | Server_serves 'h
  | Server_calls_back nat "error_code + wire_value"
  | Server_write_completes "error_code option"
  | Server_reads "error_code option" bytes

primrec rpc_server_input_of :: "'h rpc_server_input \<Rightarrow> 'h rpc_server_code connection_input" where
  "rpc_server_input_of Server_runs = Run_task"
| "rpc_server_input_of (Server_serves h) = Call (Serve_one_request h)"
| "rpc_server_input_of (Server_calls_back n result) = Call (Callback_invoked n result)"
| "rpc_server_input_of (Server_write_completes ec) = Call (Response_written ec)"
| "rpc_server_input_of (Server_reads ec bs) = Read_completes ec bs"

type_synonym 'h rpc_server_connection = "('h rpc_server_code, 'h rpc_server) connection"
type_synonym 'h rpc_server_trace = "'h rpc_server_event connection_event list"

definition rpc_server_step ::
  "(bytes \<Rightarrow> bool) \<Rightarrow> interface_definition \<Rightarrow>
    (ident \<Rightarrow> wire_value list \<Rightarrow> (error_code + wire_value) option) \<Rightarrow>
    ('h \<Rightarrow> error_code option \<Rightarrow> 'h list) \<Rightarrow> 'h rpc_server_connection \<Rightarrow> 'h rpc_server_input \<Rightarrow>
    ('h rpc_server_code, 'h rpc_server, 'h rpc_server_event) connection_result" where
  "rpc_server_step is_valid definition implementation react c i =
     connection_step is_valid (run_rpc_server is_valid definition implementation react) c
       (rpc_server_input_of i)"

abbreviation rpc_server_run where
  "rpc_server_run is_valid definition implementation react inputs \<equiv>
     run (rpc_server_step is_valid definition implementation react) (connection_init rpc_server_init) inputs"

end
