(* ===== verification/Message_Grammar.thy ===== *)
theory Message_Grammar
  imports Message_Splitter
begin

text \<open>
  What a connection reads is a sequence of messages: a type, the header that belongs to it, and a
  body whose type the header determines. The values that the parsers deliver are read as such a
  sequence here (\<open>messages_of\<close>), and the locale \<open>message_client\<close> says which clients of the
  splitter keep to it: they lock the input before they parse a body, parse the body that belongs to
  the header, and unlock the input once they have it. For such a client the octets received are
  those of the messages, in order.
\<close>

subsection \<open>Messages\<close>

datatype phase = Between | Header_next u8 | Request_body request_id bytes | Response_body request_id

datatype message =
    Request_message request_id bytes parser_type wire_value
  | Response_message request_id parser_type wire_value

fun deliver :: "parser_type \<Rightarrow> wire_value \<Rightarrow> phase \<Rightarrow> phase \<times> message list" where
  "deliver p v Between = (Header_next (the_uint8 v), [])"
| "deliver p v (Header_next t) =
     (if t = message_type_response then Response_body (the_uint64 v)
      else case request_of_value v of (i, name) \<Rightarrow> Request_body i name, [])"
| "deliver p v (Request_body i name) = (Between, [Request_message i name p v])"
| "deliver p v (Response_body i) = (Between, [Response_message i p v])"

fun phase_after :: "phase \<Rightarrow> splitter_event list \<Rightarrow> phase" where
  "phase_after ph [] = ph"
| "phase_after ph (e # es) =
     (case e of Delivered p v \<Rightarrow> phase_after (fst (deliver p v ph)) es | _ \<Rightarrow> phase_after ph es)"

fun messages_from :: "phase \<Rightarrow> splitter_event list \<Rightarrow> message list" where
  "messages_from ph [] = []"
| "messages_from ph (e # es) =
     (case e of
        Delivered p v \<Rightarrow> snd (deliver p v ph) @ messages_from (fst (deliver p v ph)) es
      | _ \<Rightarrow> messages_from ph es)"

abbreviation "phase_of es \<equiv> phase_after Between es"
abbreviation "messages_of es \<equiv> messages_from Between es"

lemma phase_after_append [simp]: "phase_after ph (xs @ ys) = phase_after (phase_after ph xs) ys"
  by (induction xs arbitrary: ph) (auto split: splitter_event.splits)

lemma messages_from_append [simp]:
  "messages_from ph (xs @ ys) = messages_from ph xs @ messages_from (phase_after ph xs) ys"
  by (induction xs arbitrary: ph) (auto split: splitter_event.splits)

lemma message_delivered:
  "Request_message i name p v \<in> set (messages_from ph es) \<Longrightarrow> Delivered p v \<in> set es"
  "Response_message i p v \<in> set (messages_from ph es) \<Longrightarrow> Delivered p v \<in> set es"
proof (induction es arbitrary: ph)
  case (Cons e es)
  case 1
  show ?case
  proof (cases "\<exists>q w. e = Delivered q w")
    case True
    then obtain q w where e: "e = Delivered q w" by blast
    with 1 Cons.IH(1) [of "fst (deliver q w ph)"] show ?thesis
      by (cases ph) (auto split: prod.splits)
  next
    case False
    with 1 Cons.IH(1) [of ph] show ?thesis by (cases e) auto
  qed
next
  case (Cons e es)
  case 2
  show ?case
  proof (cases "\<exists>q w. e = Delivered q w")
    case True
    then obtain q w where e: "e = Delivered q w" by blast
    with 2 Cons.IH(2) [of "fst (deliver q w ph)"] show ?thesis
      by (cases ph) (auto split: prod.splits)
  next
    case False
    with 2 Cons.IH(2) [of ph] show ?thesis by (cases e) auto
  qed
qed simp_all

fun message_octets :: "message \<Rightarrow> bytes" where
  "message_octets (Request_message i name p v) = request_header i name @ encode p v"
| "message_octets (Response_message i p v) = response_header i @ encode p v"

fun phase_octets :: "phase \<Rightarrow> bytes" where
  "phase_octets Between = []"
| "phase_octets (Header_next t) = write_integer t"
| "phase_octets (Request_body i name) = request_header i name"
| "phase_octets (Response_body i) = response_header i"

text \<open>The client's part of a trace.\<close>

definition client_events :: "'e connection_event list \<Rightarrow> 'e list" where
  "client_events tr = concat (map (\<lambda>e. case e of Splitter_event e \<Rightarrow> [] | Client_event e \<Rightarrow> [e]) tr)"

lemma client_events_simps [simp]:
  "client_events [] = []"
  "client_events (xs @ ys) = client_events xs @ client_events ys"
  "client_events (e # tr) = (case e of Splitter_event e \<Rightarrow> [] | Client_event e \<Rightarrow> [e]) @ client_events tr"
  by (simp_all add: client_events_def)

lemma client_events_map [simp]:
  "client_events (map Splitter_event es) = []" "client_events (map Client_event es') = es'"
  by (induction es, simp_all) (induction es', simp_all)

subsection \<open>Clients that keep to the sequence\<close>

definition takes_request :: "(phase \<Rightarrow> 'k \<Rightarrow> bool) \<Rightarrow> ('k \<Rightarrow> bool) \<Rightarrow> ('k \<Rightarrow> 'y list) \<Rightarrow>
    (error_code + request_id \<times> bytes \<Rightarrow> 'k) \<Rightarrow> bool" where
  "takes_request header_code silent bodies h \<longleftrightarrow>
     (\<forall>i name. header_code (Request_body i name) (h (Inr (i, name)))) \<and> (\<forall>ec. silent (h (Inl ec))) \<and>
     (\<forall>r. bodies (h r) = [])"

definition takes_response :: "(phase \<Rightarrow> 'k \<Rightarrow> bool) \<Rightarrow> ('k \<Rightarrow> bool) \<Rightarrow> ('k \<Rightarrow> 'y list) \<Rightarrow>
    (error_code + request_id \<Rightarrow> 'k) \<Rightarrow> bool" where
  "takes_response header_code silent bodies h \<longleftrightarrow>
     (\<forall>i. header_code (Response_body i) (h (Inr i))) \<and> (\<forall>ec. silent (h (Inl ec))) \<and>
     (\<forall>r. bodies (h r) = [])"

definition silent_call :: "(phase \<Rightarrow> 'k \<Rightarrow> bool) \<Rightarrow> ('k \<Rightarrow> bool) \<Rightarrow> ('k \<Rightarrow> 'y list) \<Rightarrow> 'k call \<Rightarrow> bool" where
  "silent_call header_code silent bodies call \<longleftrightarrow>
     (case call of
        Client_code k \<Rightarrow> silent k
      | Wait_for_request h \<Rightarrow> takes_request header_code silent bodies h
      | Wait_for_response h \<Rightarrow> takes_response header_code silent bodies h
      | _ \<Rightarrow> False)"

text \<open>
  Code that has a body in its hands holds it until an event of the client consumes it.
\<close>

definition call_bodies :: "('k \<Rightarrow> 'y list) \<Rightarrow> 'k call \<Rightarrow> 'y list" where
  "call_bodies bodies call = (case call of Client_code k \<Rightarrow> bodies k | _ \<Rightarrow> [])"

definition body_message :: "phase \<Rightarrow> parser_type \<Rightarrow> wire_value \<Rightarrow> message" where
  "body_message ph p v =
     (case ph of Request_body i name \<Rightarrow> Request_message i name p v | Response_body i \<Rightarrow> Response_message i p v)"

text \<open>
  \<open>header_code\<close> says which code handles the header of a message, \<open>body_code\<close> which handles its
  body; all other code is \<open>silent\<close> and does not touch the input. \<open>expects\<close> says which body belongs
  to a header, given the client's events so far; \<open>client_inv\<close> is an invariant of the client's state.
  \<open>bodies\<close> are the bodies that a piece of code holds, \<open>consumed\<close> those an event has used, and
  \<open>belongs\<close> relates them to the messages they arrived in. After an event that makes \<open>lost\<close> true nothing is promised any more.
\<close>

locale message_client =
  fixes is_valid :: "bytes \<Rightarrow> bool"
    and client_code :: "('k, 'c, 'e) client_code"
    and header_code :: "phase \<Rightarrow> 'k \<Rightarrow> bool"
    and body_code :: "'k \<Rightarrow> bool"
    and silent :: "'e list \<Rightarrow> 'k \<Rightarrow> bool"
    and expects :: "'e list \<Rightarrow> phase \<Rightarrow> parser_type \<Rightarrow> (error_code + wire_value \<Rightarrow> 'k) \<Rightarrow> bool"
    and client_inv :: "'e list \<Rightarrow> 'c \<Rightarrow> bool"
    and lost :: "'e \<Rightarrow> bool"
    and bodies :: "'k \<Rightarrow> 'y list"
    and consumed :: "'e \<Rightarrow> 'y list"
    and belongs :: "'e list \<Rightarrow> message \<Rightarrow> 'y \<Rightarrow> bool"
  assumes inv_code: "client_inv tr c \<Longrightarrow> silent tr k \<or> header_code ph k \<or> body_code k \<Longrightarrow> client_code k c = Inr ((c', calls), es) \<Longrightarrow> client_inv (tr @ es) c'"
    and header_step: "client_inv tr c \<Longrightarrow> header_code ph k \<Longrightarrow> client_code k c = Inr ((c', calls), es) \<Longrightarrow>
      \<not> list_ex lost es \<Longrightarrow>
      \<exists>p f rest. calls = Lock_input # Parse_body p f # rest \<and> expects (tr @ es) ph p f \<and> list_all (silent_call header_code (silent (tr @ es)) bodies) rest"
    and body_step: "client_inv tr c \<Longrightarrow> body_code k \<Longrightarrow> client_code k c = Inr ((c', calls), es) \<Longrightarrow>
      \<exists>rest. calls = Unlock_input # rest \<and> list_all (silent_call header_code (silent (tr @ es)) bodies) rest"
    and silent_code: "silent tr k \<Longrightarrow> \<not> header_code ph k \<and> \<not> body_code k"
    and silent_step: "client_inv tr c \<Longrightarrow> silent tr k \<Longrightarrow> client_code k c = Inr ((c', calls), es) \<Longrightarrow> list_all (silent_call header_code (silent (tr @ es)) bodies) calls"
    and expects_mono: "expects tr ph p f \<Longrightarrow> expects (tr @ es) ph p f"
    and expects_body: "expects tr ph p f \<Longrightarrow> body_code (f (Inr v)) \<and>
      (\<exists>y. bodies (f (Inr v)) = [y] \<and> belongs tr (body_message ph p v) y)"
    and bodies_step: "client_inv tr c \<Longrightarrow> client_code k c = Inr ((c', calls), es) \<Longrightarrow>
      mset (bodies k) = mset (concat (map (call_bodies bodies) calls)) + mset (concat (map consumed es))"
    and silent_mono: "silent tr k \<Longrightarrow> silent (tr @ es) k"
    and belongs_mono: "belongs tr m y \<Longrightarrow> belongs (tr @ es) m y"
    and expects_phase: "expects tr ph p f \<Longrightarrow> (\<exists>i name. ph = Request_body i name) \<or> (\<exists>i. ph = Response_body i)"
begin

abbreviation "calm tr \<equiv> silent_call header_code (silent tr) bodies"

text \<open>Tasks of the splitter and of the client that do not own the input.\<close>

definition calm_task :: "'e list \<Rightarrow> 'k task \<Rightarrow> bool" where
  "calm_task tr t \<longleftrightarrow>
     (case t of Perform call \<Rightarrow> calm tr call | Parsed k r \<Rightarrow> False | Report_to_request w ec \<Rightarrow> True | _ \<Rightarrow> True)"

abbreviation "calm_tasks tr \<equiv> list_all (calm_task tr)"

lemma calm_task_simps [simp]:
  "calm_task tr (Perform call) \<longleftrightarrow> calm tr call" "\<not> calm_task tr (Parsed target r)" "calm_task tr (Report_to_request w ec)"
  "calm_task tr (After_response continue')" "calm_task tr (After_request continue')"
  "calm tr (Client_code k) \<longleftrightarrow> silent tr k" "\<not> calm tr Lock_input" "\<not> calm tr Unlock_input" "\<not> calm tr (Parse_body p f)"
  by (simp_all add: calm_task_def silent_call_def)

lemma calm_calls [simp]: "calm_tasks tr (map Perform calls) \<longleftrightarrow> list_all (calm tr) calls"
  by (induction calls) simp_all

definition handlers_ok :: "'e list \<Rightarrow> 'k message_splitter \<Rightarrow> bool" where
  "handlers_ok tr s \<longleftrightarrow>
     (\<forall>h. waiting_for_request s = Some h \<longrightarrow> takes_request header_code (silent tr) bodies h) \<and>
     (\<forall>h. waiting_for_response s = Some h \<longrightarrow> takes_response header_code (silent tr) bodies h)"

fun header_starts :: "'k continuation \<Rightarrow> phase \<Rightarrow> bool" where
  "header_starts On_message_type ph \<longleftrightarrow> ph = Between"
| "header_starts On_request ph \<longleftrightarrow> ph = Header_next message_type_request"
| "header_starts On_response ph \<longleftrightarrow> ph = Header_next message_type_response"
| "header_starts (On_body p f) ph \<longleftrightarrow> False"

fun header_parsed :: "'k continuation \<Rightarrow> wire_value \<Rightarrow> phase \<Rightarrow> bool" where
  "header_parsed On_message_type v ph \<longleftrightarrow> ph = Header_next (the_uint8 v)"
| "header_parsed On_request v ph \<longleftrightarrow> ph = Request_body (fst (request_of_value v)) (snd (request_of_value v))"
| "header_parsed On_response v ph \<longleftrightarrow> ph = Response_body (the_uint64 v)"
| "header_parsed (On_body p f) v ph \<longleftrightarrow> False"

text \<open>Who owns the input, and where in the sequence of messages that is.\<close>

inductive resting :: "'e list \<Rightarrow> phase \<Rightarrow> 'k message_splitter \<Rightarrow> bool" for tr where
  idle: "\<not> parsing_header s \<Longrightarrow> \<not> locked s \<Longrightarrow> reading s = None \<Longrightarrow> resting tr Between s"
| ended: "parsing_header s \<Longrightarrow> \<not> locked s \<Longrightarrow> reading s = None \<Longrightarrow> resting tr ph s"
| reading_header: "parsing_header s \<Longrightarrow> \<not> locked s \<Longrightarrow> reading s = Some (Read_operation q k) \<Longrightarrow>
    header_starts k ph \<Longrightarrow> resting tr ph s"
| reading_body: "\<not> parsing_header s \<Longrightarrow> locked s \<Longrightarrow> reading s = Some (Read_operation q (On_body p f)) \<Longrightarrow>
    expects tr ph p f \<Longrightarrow> resting tr ph s"

inductive position :: "'e list \<Rightarrow> phase \<Rightarrow> 'k task list \<Rightarrow> 'k message_splitter \<Rightarrow> bool" for tr where
  rest: "resting tr ph s \<Longrightarrow> calm_tasks tr ts \<Longrightarrow> position tr ph ts s"
| header_parsed: "parsing_header s \<Longrightarrow> \<not> locked s \<Longrightarrow> reading s = None \<Longrightarrow> header_parsed k v ph \<Longrightarrow>
    calm_tasks tr ts \<Longrightarrow> position tr ph (Parsed k (Inr v) # ts) s"
| handling_header: "\<not> parsing_header s \<Longrightarrow> \<not> locked s \<Longrightarrow> reading s = None \<Longrightarrow> header_code ph k \<Longrightarrow>
    calm_tasks tr ts \<Longrightarrow> position tr ph (Client k # ts) s"
| locking: "\<not> parsing_header s \<Longrightarrow> \<not> locked s \<Longrightarrow> reading s = None \<Longrightarrow> expects tr ph p f \<Longrightarrow>
    calm_tasks tr ts \<Longrightarrow> position tr ph (Perform Lock_input # Perform (Parse_body p f) # ts) s"
| parsing_body: "\<not> parsing_header s \<Longrightarrow> locked s \<Longrightarrow> reading s = None \<Longrightarrow> expects tr ph p f \<Longrightarrow>
    calm_tasks tr ts \<Longrightarrow> position tr ph (Perform (Parse_body p f) # ts) s"
| body_parsed: "\<not> parsing_header s \<Longrightarrow> locked s \<Longrightarrow> reading s = None \<Longrightarrow> body_code (f (Inr v)) \<Longrightarrow>
    calm_tasks tr ts \<Longrightarrow> position tr Between (Parsed (On_body p f) (Inr v) # ts) s"
| handling_body: "\<not> parsing_header s \<Longrightarrow> locked s \<Longrightarrow> reading s = None \<Longrightarrow> body_code k \<Longrightarrow>
    calm_tasks tr ts \<Longrightarrow> position tr Between (Client k # ts) s"
| unlocking: "\<not> parsing_header s \<Longrightarrow> locked s \<Longrightarrow> reading s = None \<Longrightarrow>
    calm_tasks tr ts \<Longrightarrow> position tr Between (Perform Unlock_input # ts) s"

text \<open>The parser that belongs to a phase.\<close>

fun fits :: "'e list \<Rightarrow> phase \<Rightarrow> parser_type \<Rightarrow> bool" where
  "fits tr Between p \<longleftrightarrow> p = P_integer Uint8"
| "fits tr (Header_next t) p \<longleftrightarrow>
     t = message_type_response \<and> p = P_integer Uint64 \<or>
     t = message_type_request \<and> p = P_tuple [P_integer Uint64, P_utf8 Uint8]"
| "fits tr ph p \<longleftrightarrow> (\<exists>f. expects tr ph p f)"

fun well_parsed :: "'e list \<Rightarrow> phase \<Rightarrow> splitter_event list \<Rightarrow> bool" where
  "well_parsed tr ph [] \<longleftrightarrow> True"
| "well_parsed tr ph (e # es) \<longleftrightarrow>
     (case e of
        Delivered p v \<Rightarrow> fits tr ph p \<and> well_parsed tr (fst (deliver p v ph)) es
      | _ \<Rightarrow> well_parsed tr ph es)"

lemma well_parsed_append [simp]:
  "well_parsed tr ph (xs @ ys) \<longleftrightarrow> well_parsed tr ph xs \<and> well_parsed tr (phase_after ph xs) ys"
  by (induction xs arbitrary: ph) (auto split: splitter_event.splits)

lemma fits_mono: "fits tr ph p \<Longrightarrow> fits (tr @ es) ph p"
  by (cases ph) (auto intro: expects_mono)

lemma well_parsed_mono: "well_parsed tr ph es \<Longrightarrow> well_parsed (tr @ es') ph es"
  by (induction es arbitrary: ph) (auto intro: fits_mono split: splitter_event.splits)

text \<open>The bodies that tasks hold; a step passes them on, or takes one from a message that is complete.\<close>

definition held :: "'k task list \<Rightarrow> 'y list" where
  "held ts = concat (map (\<lambda>t. case t of
       Perform call \<Rightarrow> call_bodies bodies call
     | Parsed (On_body p f) r \<Rightarrow> bodies (f r)
     | _ \<Rightarrow> []) ts)"

lemma held_simps [simp]:
  "held [] = []" "held (ts @ ts') = held ts @ held ts'"
  "held (Perform call # ts) = call_bodies bodies call @ held ts"
  "held (Parsed (On_body p f) r # ts) = bodies (f r) @ held ts"
  "held (Parsed On_message_type r # ts) = held ts" "held (Parsed On_request r # ts) = held ts"
  "held (Parsed On_response r # ts) = held ts"
  "held (After_request continue' # ts) = held ts" "held (After_response continue' # ts) = held ts"
  "held (Report_to_request w ec # ts) = held ts"
  "call_bodies bodies (Client_code k) = bodies k" "call_bodies bodies (Wait_for_request h) = []"
  "call_bodies bodies (Wait_for_response h') = []" "call_bodies bodies Lock_input = []"
  "call_bodies bodies Unlock_input = []" "call_bodies bodies (Parse_body p f) = []"
  by (simp_all add: held_def call_bodies_def)

lemma held_calls [simp]: "held (map Perform calls) = concat (map (call_bodies bodies) calls)"
  by (induction calls) simp_all

definition accounts :: "'e list \<Rightarrow> phase \<Rightarrow> splitter_event list \<Rightarrow> 'y list \<Rightarrow> 'k task list \<Rightarrow> bool" where
  "accounts tr ph es ys ts \<longleftrightarrow>
     messages_from ph es = [] \<and> held ts = ys \<or>
     ys = [] \<and> (\<exists>p v f. messages_from ph es = [body_message ph p v] \<and> expects tr ph p f \<and>
       held ts = bodies (f (Inr v)))"

lemma accounts_simps [simp]:
  "accounts tr ph [] ys ts \<longleftrightarrow> held ts = ys"
  "accounts tr ph (Parse_started p # es) ys ts \<longleftrightarrow> accounts tr ph es ys ts"
  "accounts tr ph (Octets_read bs # es) ys ts \<longleftrightarrow> accounts tr ph es ys ts"
  "accounts tr ph (Waited_for_request # es) ys ts \<longleftrightarrow> accounts tr ph es ys ts"
  "accounts tr ph (Waited_for_response # es) ys ts \<longleftrightarrow> accounts tr ph es ys ts"
  "accounts tr ph (Request_handler_called r # es) ys ts \<longleftrightarrow> accounts tr ph es ys ts"
  "accounts tr ph (Response_handler_called r' # es) ys ts \<longleftrightarrow> accounts tr ph es ys ts"
  by (auto simp: accounts_def)

lemma accounts_header:
  "header_starts k ph \<Longrightarrow> accounts tr ph [Delivered p v] [] [Parsed k r]"
  by (cases k) (auto simp: accounts_def)

lemma accounts_body:
  assumes "expects tr ph p f"
  shows "accounts tr ph [Delivered p v] [] [Parsed (On_body p f) (Inr v)]"
  using expects_phase [OF assms] assms by (fastforce simp: accounts_def body_message_def)

lemma calm_held: "calm_task tr t \<Longrightarrow> \<forall>k. t \<noteq> Client k \<Longrightarrow> held [t] = []"
  by (auto simp: calm_task_def silent_call_def split: task.splits call.splits)

lemma accounts_rel:
  assumes "accounts tr ph es ys ts" and "rel_mset (belongs tr) (mset ms) (mset (ys @ zs))"
  shows "rel_mset (belongs tr) (mset (ms @ messages_from ph es)) (mset (held ts @ zs))"
proof (cases "messages_from ph es = [] \<and> held ts = ys")
  case True
  with assms show ?thesis by simp
next
  case False
  with assms(1) obtain p v f where "ys = []" "messages_from ph es = [body_message ph p v]" "expects tr ph p f"
    "held ts = bodies (f (Inr v))" by (auto simp: accounts_def)
  with assms(2) expects_body [of tr ph p f v] show ?thesis
    by (auto intro: rel_mset_Plus)
qed

abbreviation moves where
  "moves tr ph es ys ts' ts s \<equiv>
     position tr (phase_after ph es) (ts' @ ts) s \<and> well_parsed tr ph es \<and> accounts tr ph es ys ts'"

lemma calm_mono: "calm tr call \<Longrightarrow> calm (tr @ es) call"
  by (auto simp: silent_call_def takes_request_def takes_response_def intro: silent_mono split: call.splits)

lemma calm_tasks_mono: "calm_tasks tr ts \<Longrightarrow> calm_tasks (tr @ es) ts"
  by (auto simp: list_all_iff calm_task_def intro: calm_mono split: task.splits)

lemma handlers_ok_mono: "handlers_ok tr s \<Longrightarrow> handlers_ok (tr @ es) s"
  by (auto simp: handlers_ok_def takes_request_def takes_response_def intro: silent_mono)

lemma position_mono:
  "resting tr ph s \<Longrightarrow> resting (tr @ es) ph s"
  "position tr ph ts s \<Longrightarrow> position (tr @ es) ph ts s"
proof -
  show *: "resting tr ph s \<Longrightarrow> resting (tr @ es) ph s" for ph s
    by (induction rule: resting.induct) (auto intro: resting.intros expects_mono)
  show "position tr ph ts s \<Longrightarrow> position (tr @ es) ph ts s"
    by (induction rule: position.induct) (auto intro: position.intros expects_mono calm_tasks_mono *)
qed

lemma position_calm:
  assumes "position tr ph (t # ts) s" and "calm_task tr t"
  shows "resting tr ph s \<and> calm_tasks tr ts"
  using assms silent_code
  by (cases rule: position.cases) (auto simp: calm_task_def silent_call_def)

text \<open>A parse either delivers a value or waits for more octets.\<close>

lemma after_parse_clean:
  assumes "after_parse k s out = Inr ((s', ts'), es)" and "clean es"
  obtains (delivers) v bs where "ts' = [Parsed k (Inr v)]" "es = [Delivered (continuation_parser k) v]"
      "s' = s\<lparr>octets := bs\<rparr>"
  | (waits) q bs where "reading s = None" "ts' = []" "es = []"
      "s' = s\<lparr>octets := bs, reading := Some (Read_operation q k)\<rparr>"
proof -
  obtain op ev where out: "out = (op, ev)" by (cases out)
  show ?thesis
  proof (cases ev)
    case (On_result i r)
    with out assms delivers show ?thesis by (cases r) auto
  next
    case (Async_read_some n)
    with out assms waits show ?thesis by (auto split: if_splits)
  qed
qed

lemma parse_from_buffer_parses:
  assumes "parse_from_buffer is_valid k s = Inr ((s', ts'), es)"
  shows "\<exists>es' out. es = Parse_started (continuation_parser k) # es' \<and>
    after_parse k s out = Inr ((s', ts'), es')"
proof -
  from assms obtain es' where "es = Parse_started (continuation_parser k) # es'"
    and "after_parse k s (begin_parse_value (parser_class_of is_valid (continuation_parser k)) (octets s)) =
      Inr ((s', ts'), es')"
    by (auto simp: parse_from_buffer_def and_then_Inr_iff)
  then show ?thesis by blast
qed

lemma read_completes_parses:
  assumes "read_completes is_valid ec bs s = Inr ((s', ts'), es)"
  shows "\<exists>q k es' out. reading s = Some (Read_operation q k) \<and>
    es = Octets_read (if ec = None then bs else []) # es' \<and>
    after_parse k (s\<lparr>reading := None\<rparr>) out = Inr ((s', ts'), es')"
proof -
  from assms obtain q k es' where "reading s = Some (Read_operation q k)"
    and "es = Octets_read (if ec = None then bs else []) # es'"
    and "after_parse k (s\<lparr>reading := None\<rparr>) (on_read (parser_class_of is_valid (continuation_parser k)) ec bs
      \<lparr>receive_buffer = octets s, parser = q\<rparr>) = Inr ((s', ts'), es')"
    by (auto simp: read_completes_def and_then_Inr_iff split: option.splits read_operation.splits)
  then show ?thesis by blast
qed

lemma header_delivered:
  assumes "header_starts k ph"
  shows "header_parsed k v (fst (deliver (continuation_parser k) v ph))"
  using assms by (cases k) (auto simp: message_type_request_def message_type_response_def
      split: prod.splits)

lemma header_fits: "header_starts k ph \<Longrightarrow> fits tr ph (continuation_parser k)"
  by (cases k) auto

lemma header_parse_position:
  assumes run: "after_parse k s out = Inr ((s', ts'), es)" and clean: "clean es"
    and s: "parsing_header s" "\<not> locked s" "reading s = None" "header_starts k ph" and ts: "calm_tasks tr ts"
  shows "moves tr ph es [] ts' ts s' \<and> (handlers_ok tr s \<longrightarrow> handlers_ok tr s')"
  using run clean
proof (cases rule: after_parse_clean)
  case (delivers v bs)
  with s ts show ?thesis
    by (auto intro!: position.header_parsed header_delivered header_fits accounts_header simp: handlers_ok_def)
next
  case (waits q bs)
  with s ts show ?thesis
    by (auto intro!: position.rest resting.reading_header simp: handlers_ok_def)
qed

lemma body_parse_position:
  assumes run: "after_parse (On_body p f) s out = Inr ((s', ts'), es)" and clean: "clean es"
    and s: "\<not> parsing_header s" "locked s" "reading s = None" "expects tr ph p f" and ts: "calm_tasks tr ts"
  shows "moves tr ph es [] ts' ts s' \<and> (handlers_ok tr s \<longrightarrow> handlers_ok tr s')"
  using run clean
proof (cases rule: after_parse_clean)
  case (delivers v bs)
  from expects_phase [OF s(4)] have "fst (deliver p v ph) = Between \<and> fits tr ph p"
    using s(4) by auto
  with delivers s ts show ?thesis
    by (auto intro!: position.body_parsed expects_body [THEN conjunct1] accounts_body simp: handlers_ok_def)
next
  case (waits q bs)
  with s ts show ?thesis
    by (auto intro!: position.rest resting.reading_body simp: handlers_ok_def)
qed

lemma begin_position:
  assumes run: "call_begin_parse_message is_valid s = Inr ((s', ts'), es)" and clean: "clean es"
    and s: "\<not> locked s" "reading s = None" and ts: "calm_tasks tr ts"
  shows "moves tr Between es [] ts' ts s' \<and> (handlers_ok tr s \<longrightarrow> handlers_ok tr s')"
proof -
  let ?s = "s\<lparr>begin_parse_message := False, parsing_header := True\<rparr>"
  from run s have "parse_from_buffer is_valid On_message_type ?s = Inr ((s', ts'), es)"
    by (simp add: call_begin_parse_message_def split: if_splits)
  from parse_from_buffer_parses [OF this]
  obtain es' out where es: "es = Parse_started (P_integer Uint8) # es'"
    and after: "after_parse On_message_type ?s out = Inr ((s', ts'), es')"
    by (elim exE conjE) simp
  have "moves tr Between es' [] ts' ts s' \<and> (handlers_ok tr ?s \<longrightarrow> handlers_ok tr s')"
    by (rule header_parse_position [OF after]) (use clean es s ts in simp_all)
  moreover have "handlers_ok tr ?s = handlers_ok tr s" by (simp add: handlers_ok_def)
  ultimately show ?thesis unfolding es by simp
qed

text \<open>A task that does not own the input.\<close>

lemma calm_step:
  assumes run: "run_task is_valid t s = Inr ((s', ts'), es)" and clean: "clean es"
    and t: "calm_task tr t" "\<not> (\<exists>k. t = Client k)" and pos: "resting tr ph s" "calm_tasks tr ts" and s: "handlers_ok tr s"
  shows "moves tr ph es [] ts' ts s' \<and> handlers_ok tr s'"
proof -
  have begins: "moves tr ph es' [] ts' ts s' \<and> handlers_ok tr s'"
    if "call_begin_parse_message is_valid s1 = Inr ((s', ts'), es')" "clean es'" "handlers_ok tr s1"
      "\<not> parsing_header s" "reading s1 = reading s" "locked s1 = locked s" "parsing_header s1 = parsing_header s" for s1 es'
    using pos(1)
  proof (cases rule: resting.cases)
    case idle
    with begin_position [OF that(1,2) _ _ pos(2)] that show ?thesis by auto
  next
    case (reading_body q p f)
    with that pos have "s' = s1" "ts' = []" "es' = []"
      by (auto simp: call_begin_parse_message_def split: if_splits)
    with reading_body that pos show ?thesis
      by (auto intro!: position.rest resting.reading_body)
  qed (use that in auto)
  have same: "position tr ph (ts'' @ ts) s1 \<and> handlers_ok tr s1"
    if "calm_tasks tr ts''" "handlers_ok tr s1" "parsing_header s1 = parsing_header s" "reading s1 = reading s"
      "locked s1 = locked s" for s1 ts''
    using pos(1)
  proof (cases rule: resting.cases)
    case (reading_header q k)
    with that pos show ?thesis by (auto intro!: position.rest resting.reading_header)
  next
    case (reading_body q p f)
    with that pos show ?thesis by (auto intro!: position.rest resting.reading_body)
  qed (use that pos in \<open>auto intro!: position.rest intro: resting.intros\<close>)
  show ?thesis
  proof (cases rule: run_task.cases [of "(is_valid, t, s)"])
    case (2 v h s0)
    let ?s = "s\<lparr>waiting_for_response := Some h, begin_parse_message := True\<rparr>"
    from 2 t s have ok: "handlers_ok tr ?s"
      by (simp add: calm_task_def silent_call_def handlers_ok_def)
    show ?thesis
    proof (cases "parsing_header s")
      case True
      with 2 run same [of "[]" ?s] ok show ?thesis
        by (auto simp: wait_for_response_def and_then_Inr_iff split: if_splits)
    next
      case False
      with 2 run obtain es' where "es = Waited_for_response # es'"
        "call_begin_parse_message is_valid ?s = Inr ((s', ts'), es')"
        by (auto simp: wait_for_response_def and_then_Inr_iff split: if_splits)
      with begins [OF this(2)] clean ok False show ?thesis by simp
    qed
  next
    case (3 v h s0)
    let ?s = "s\<lparr>waiting_for_request := Some h, begin_parse_message := True\<rparr>"
    from 3 t s have ok: "handlers_ok tr ?s"
      by (simp add: calm_task_def silent_call_def handlers_ok_def)
    show ?thesis
    proof (cases "parsing_header s")
      case True
      with 3 run same [of "[]" ?s] ok show ?thesis
        by (auto simp: wait_for_request_def and_then_Inr_iff split: if_splits)
    next
      case False
      with 3 run obtain es' where "es = Waited_for_request # es'"
        "call_begin_parse_message is_valid ?s = Inr ((s', ts'), es')"
        by (auto simp: wait_for_request_def and_then_Inr_iff split: if_splits)
      with begins [OF this(2)] clean ok False show ?thesis by simp
    qed
  next
    case (11 v w s0)
    with run clean s same [of "[]" s] begins [of s es] show ?thesis
      by (auto simp: after_response_def split: if_splits)
  next
    case (12 v w s0)
    with run clean s same [of "[]" s] begins [of s es] show ?thesis
      by (auto simp: after_request_def split: if_splits)
  next
    case (13 v w ec s0)
    show ?thesis
    proof (cases "w \<and> waiting_for_request s \<noteq> None")
      case True
      then obtain h where h: "waiting_for_request s = Some h" by auto
      with s have "calm_tasks tr [Client (h (Inl ec))]" "handlers_ok tr (s\<lparr>waiting_for_request := None\<rparr>)"
        "bodies (h (Inl ec)) = []"
        by (auto simp: handlers_ok_def takes_request_def calm_task_def silent_call_def)
      with 13 run h True same [of "[Client (h (Inl ec))]" "s\<lparr>waiting_for_request := None\<rparr>"] show ?thesis
        by (auto simp: report_to_request_def)
    next
      case False
      with 13 run s same [of "[]" s] show ?thesis
        by (auto simp: report_to_request_def split: if_splits option.splits)
    qed
  qed (use t in \<open>auto simp: calm_task_def silent_call_def\<close>)
qed

lemma on_error_position:
  assumes run: "splitter_on_error ec s = Inr ((s', ts'), es)"
    and s: "parsing_header s" "\<not> locked s" "reading s = None" and ts: "calm_tasks tr ts" and ok: "handlers_ok tr s"
  shows "moves tr ph es [] ts' ts s' \<and> handlers_ok tr s'"
proof (cases "waiting_for_response s")
  case None
  with run s ts ok show ?thesis
    by (auto simp: splitter_on_error_def Let_def calm_task_def
        intro!: position.rest intro: resting.ended)
next
  case (Some h)
  with ok have "silent tr (h (Inl ec)) \<and> bodies (h (Inl ec)) = []"
    by (simp add: handlers_ok_def takes_response_def)
  with Some run s ts ok show ?thesis
    by (auto simp: splitter_on_error_def Let_def calm_task_def silent_call_def handlers_ok_def
        intro!: position.rest intro: resting.ended)
qed

lemma unlock_input_cases:
  assumes "unlock_input is_valid s = Inr r"
  shows "r = ((s\<lparr>locked := False\<rparr>, []), []) \<or> call_begin_parse_message is_valid (s\<lparr>locked := False\<rparr>) = Inr r"
  using assms unfolding unlock_input_def Let_def
  by (cases "parsing_header s \<or> \<not> locked s"; cases "begin_parse_message s") (auto split: if_split_asm)

text \<open>The splitter's part of handling a header or a body.\<close>

lemma owner_step:
  assumes pos: "position tr ph (t # ts) s" and t: "\<not> calm_task tr t" "\<not> (\<exists>k. t = Client k)"
    and run: "run_task is_valid t s = Inr ((s', ts'), es)" and clean: "clean es" and ok: "handlers_ok tr s"
  shows "moves tr ph es (held [t]) ts' ts s' \<and> handlers_ok tr s'"
  using pos
proof (cases rule: position.cases)
  case (header_parsed k v)
  show ?thesis
  proof (cases k)
    case On_message_type
    with header_parsed have ph: "ph = Header_next (the_uint8 v)" by simp
    consider (error) ec where "splitter_on_error ec s = Inr ((s', ts'), es)"
      | (header) k' where "parse_from_buffer is_valid k' s = Inr ((s', ts'), es)" "header_starts k' ph"
      using run header_parsed On_message_type ph
      by (auto simp: message_type_parsed_def split: if_splits)
    then show ?thesis
    proof cases
      case error
      from on_error_position [OF this] header_parsed On_message_type ok show ?thesis by simp
    next
      case header
      from parse_from_buffer_parses [OF header(1)]
      obtain es' out where es: "es = Parse_started (continuation_parser k') # es'"
        and after: "after_parse k' s out = Inr ((s', ts'), es')"
        by (elim exE conjE)
      have "moves tr ph es' [] ts' ts s' \<and> (handlers_ok tr s \<longrightarrow> handlers_ok tr s')"
        by (rule header_parse_position [OF after]) (use clean es header header_parsed in simp_all)
      with ok es header_parsed On_message_type show ?thesis by simp
    qed
  next
    case On_response
    with header_parsed run ok show ?thesis
      by (auto simp: response_parsed_def handlers_ok_def takes_response_def calm_task_def
          intro!: position.handling_header split: option.splits)
  next
    case On_request
    with header_parsed run ok show ?thesis
      by (cases "request_of_value v")
        (auto simp: request_parsed_def handlers_ok_def takes_request_def calm_task_def
          intro!: position.handling_header split: option.splits)
  qed (use header_parsed in auto)
next
  case (locking p f)
  with run ok show ?thesis
    by (auto simp: lock_input_def handlers_ok_def intro!: position.parsing_body)
next
  case (parsing_body p f)
  from run parsing_body have "parse_from_buffer is_valid (On_body p f) s = Inr ((s', ts'), es)" by simp
  from parse_from_buffer_parses [OF this]
  obtain es' out where es: "es = Parse_started p # es'"
    and after: "after_parse (On_body p f) s out = Inr ((s', ts'), es')"
    by (elim exE conjE) simp
  have "moves tr ph es' [] ts' ts s' \<and> (handlers_ok tr s \<longrightarrow> handlers_ok tr s')"
    by (rule body_parse_position [OF after]) (use clean es parsing_body in simp_all)
  with ok es parsing_body show ?thesis by simp
next
  case (body_parsed f v p)
  with run ok show ?thesis
    by (auto intro!: position.handling_body)
next
  case unlocking
  let ?s = "s\<lparr>locked := False\<rparr>"
  have ok': "handlers_ok tr ?s" using ok by (simp add: handlers_ok_def)
  from unlocking run consider (idle) "s' = ?s" "ts' = []" "es = []"
    | (begins) "call_begin_parse_message is_valid ?s = Inr ((s', ts'), es)"
    using unlock_input_cases [of s] by auto
  then show ?thesis
  proof cases
    case idle
    with unlocking ok' show ?thesis by (auto intro!: position.rest resting.idle)
  next
    case begins
    from begin_position [OF begins clean, where ts = ts and tr = tr] unlocking ok' show ?thesis by simp
  qed
qed (use t in auto)

lemma top_code: "position tr ph (Client k # ts) s \<Longrightarrow> silent tr k \<or> header_code ph k \<or> body_code k"
  by (cases rule: position.cases) auto

lemma client_step_position:
  assumes pos: "position tr ph (Client k # ts) s" and inv: "client_inv tr c"
    and run: "client_code k c = Inr ((c', calls), es)" and lost: "\<not> list_ex lost es"
  shows "position (tr @ es) ph (map Perform calls @ ts) s"
proof -
  show ?thesis
    using pos
  proof (cases rule: position.cases)
    case rest
    then have "silent tr k" by simp
    from silent_step [OF inv this run] rest position_mono(1) [of tr ph s es] calm_tasks_mono [where tr = tr and ts = ts and es = es] show ?thesis
      by (auto intro!: position.rest)
  next
    case handling_header
    from header_step [OF inv handling_header(4) run lost] obtain p f rest where
      "calls = Lock_input # Parse_body p f # rest" "expects (tr @ es) ph p f" "list_all (calm (tr @ es)) rest" by blast
    with handling_header calm_tasks_mono [where tr = tr and ts = ts and es = es] show ?thesis by (auto intro!: position.locking)
  next
    case handling_body
    from body_step [OF inv handling_body(5) run] obtain rest where
      "calls = Unlock_input # rest" "list_all (calm (tr @ es)) rest" by blast
    with handling_body calm_tasks_mono [where tr = tr and ts = ts and es = es] show ?thesis by (auto intro!: position.unlocking)
  qed
qed

text \<open>The octets of the deliveries are those of the messages.\<close>

lemma delivery_octets:
  assumes "fits tr ph p" and "value_ok is_valid p v"
  shows "phase_octets ph @ encode p v =
    concat (map message_octets (snd (deliver p v ph))) @ phase_octets (fst (deliver p v ph))"
proof (cases ph)
  case Between
  with assms obtain n where "v = V_uint8 n" by (cases v) auto
  with Between assms show ?thesis by simp
next
  case (Header_next t)
  with assms(1) consider (response) "t = message_type_response" "p = P_integer Uint64"
    | (request) "t = message_type_request" "p = P_tuple [P_integer Uint64, P_utf8 Uint8]" by auto
  then show ?thesis
  proof cases
    case response
    with assms obtain n where "v = V_uint64 n" by (cases v) auto
    with Header_next response show ?thesis by (simp add: response_header_def)
  next
    case request
    from assms(2) obtain a b where v: "v = V_tuple [a, b]"
      and "value_ok is_valid (P_integer Uint64) a" "value_ok is_valid (P_utf8 Uint8) b"
      unfolding request by (cases v) (auto simp: tuple_valid_def list_all2_Cons1 simp del: value_ok.simps(1,5))
    then obtain i name where "a = V_uint64 i" "b = V_string name"
      by (cases a; cases b) auto
    with v Header_next request header_encodings(3) [of i name] show ?thesis
      by (simp add: request_of_value_def request_header_def message_type_request_def
          message_type_response_def del: encode.simps)
  qed
qed (use assms in auto)

lemma messages_octets:
  "well_parsed tr ph es \<Longrightarrow> (\<And>p v. Delivered p v \<in> set es \<Longrightarrow> value_ok is_valid p v) \<Longrightarrow>
   phase_octets ph @ delivered_encodings es =
     concat (map message_octets (messages_from ph es)) @ phase_octets (phase_after ph es)"
proof (induction es arbitrary: ph)
  case (Cons e es)
  show ?case
  proof (cases e)
    case (Delivered p v)
    with Cons.prems have "phase_octets ph @ encode p v =
        concat (map message_octets (snd (deliver p v ph))) @ phase_octets (fst (deliver p v ph))"
      by (intro delivery_octets) auto
    moreover have "phase_octets (fst (deliver p v ph)) @ delivered_encodings es =
        concat (map message_octets (messages_from (fst (deliver p v ph)) es)) @
        phase_octets (phase_after (fst (deliver p v ph)) es)"
      using Cons.prems Delivered by (intro Cons.IH) auto
    ultimately have "phase_octets ph @ encode p v @ delivered_encodings es =
        concat (map message_octets (snd (deliver p v ph) @ messages_from (fst (deliver p v ph)) es)) @
        phase_octets (phase_after (fst (deliver p v ph)) es)"
      by (metis append.assoc concat_append map_append)
    with Delivered show ?thesis by simp
  qed (use Cons in auto)
qed simp

text \<open>The bodies are those the headers announced.\<close>

lemma body_announced:
  assumes "well_parsed tr ph es"
  shows "Request_message i name p v \<in> set (messages_from ph es) \<Longrightarrow> \<exists>f. expects tr (Request_body i name) p f"
    and "Response_message i p v \<in> set (messages_from ph es) \<Longrightarrow> \<exists>f. expects tr (Response_body i) p f"
proof -
  have "Request_message i name p v \<in> set (snd (deliver q w ph)) \<Longrightarrow> fits tr ph q \<Longrightarrow>
      \<exists>f. expects tr (Request_body i name) p f"
    "Response_message i p v \<in> set (snd (deliver q w ph)) \<Longrightarrow> fits tr ph q \<Longrightarrow>
      \<exists>f. expects tr (Response_body i) p f" for q w ph
    by (cases ph; auto)+
  then show "Request_message i name p v \<in> set (messages_from ph es) \<Longrightarrow> \<exists>f. expects tr (Request_body i name) p f"
    and "Response_message i p v \<in> set (messages_from ph es) \<Longrightarrow> \<exists>f. expects tr (Response_body i) p f"
    using assms by (induction es arbitrary: ph) (auto split: splitter_event.splits)
qed

text \<open>The invariant of a connection.\<close>

definition grammar_inv :: "'e connection_event list \<Rightarrow> ('k, 'c) connection \<Rightarrow> bool" where
  "grammar_inv tr c \<longleftrightarrow>
     (clean (splitter_events tr) \<and> \<not> list_ex lost (client_events tr) \<longrightarrow>
       client_inv (client_events tr) (client c) \<and>
       position (client_events tr) (phase_of (splitter_events tr)) (tasks c) (splitter c) \<and>
       well_parsed (client_events tr) Between (splitter_events tr) \<and> handlers_ok (client_events tr) (splitter c) \<and>
       rel_mset (belongs (client_events tr)) (mset (messages_of (splitter_events tr)))
         (mset (held (tasks c) @ concat (map consumed (client_events tr)))))"

definition calm_input :: "'k connection_input \<Rightarrow> bool" where
  "calm_input i \<longleftrightarrow> (case i of Call k \<Rightarrow> silent [] k \<and> bodies k = [] | _ \<Rightarrow> True)"

lemma read_position:
  assumes pos: "position tr ph [] s" and run: "read_completes is_valid ec bs s = Inr ((s', ts'), es)"
    and clean: "clean es" and ok: "handlers_ok tr s"
  shows "moves tr ph es [] ts' [] s' \<and> handlers_ok tr s'"
proof -
  from read_completes_parses [OF run] obtain q k es' out where reading: "reading s = Some (Read_operation q k)"
    and es: "es = Octets_read (if ec = None then bs else []) # es'"
    and after: "after_parse k (s\<lparr>reading := None\<rparr>) out = Inr ((s', ts'), es')"
    by (elim exE conjE)
  have ok': "handlers_ok tr (s\<lparr>reading := None\<rparr>)" using ok by (simp add: handlers_ok_def)
  from pos have "resting tr ph s" by (cases rule: position.cases) auto
  then show ?thesis
  proof (cases rule: resting.cases)
    case (reading_header q' k')
    have "moves tr ph es' [] ts' [] s' \<and> (handlers_ok tr (s\<lparr>reading := None\<rparr>) \<longrightarrow> handlers_ok tr s')"
      by (rule header_parse_position [OF after]) (use clean es reading reading_header in simp_all)
    with ok' es show ?thesis by simp
  next
    case (reading_body q' p f)
    with reading after have after': "after_parse (On_body p f) (s\<lparr>reading := None\<rparr>) out = Inr ((s', ts'), es')"
      by simp
    have "moves tr ph es' [] ts' [] s' \<and> (handlers_ok tr (s\<lparr>reading := None\<rparr>) \<longrightarrow> handlers_ok tr s')"
      by (rule body_parse_position [OF after']) (use clean es reading_body in simp_all)
    with ok' es show ?thesis by simp
  qed (use reading in auto)
qed

lemma grammar_step:
  assumes inv: "grammar_inv tr c" and calm: "calm_input i"
    and step: "connection_step is_valid client_code c i = Inr (c', es)"
  shows "grammar_inv (tr @ es) c'"
  using step
proof (cases rule: connection_step_cases)
  case (client_code k rest st calls es')
  have "client_inv (client_events tr @ es') st \<and>
      position (client_events tr @ es') (phase_of (splitter_events tr)) (map Perform calls @ rest) (splitter c) \<and>
      well_parsed (client_events tr @ es') Between (splitter_events tr) \<and> handlers_ok (client_events tr @ es') (splitter c) \<and>
      rel_mset (belongs (client_events tr @ es')) (mset (messages_of (splitter_events tr)))
         (mset (held (map Perform calls @ rest) @ concat (map consumed (client_events tr @ es'))))"
    if "clean (splitter_events tr)" "\<not> list_ex lost (client_events tr @ es')"
  proof -
    from inv that client_code(2) have
      inv': "client_inv (client_events tr) (client c)" and
      pos: "position (client_events tr) (phase_of (splitter_events tr)) (Client k # rest) (splitter c)"
      "well_parsed (client_events tr) Between (splitter_events tr)" "handlers_ok (client_events tr) (splitter c)"
      and rel: "rel_mset (belongs (client_events tr)) (mset (messages_of (splitter_events tr)))
         (mset (held (Client k # rest) @ concat (map consumed (client_events tr))))"
      by (auto simp: grammar_inv_def)
    have "mset (held (map Perform calls @ rest) @ concat (map consumed (client_events tr @ es'))) =
        mset (held (Client k # rest) @ concat (map consumed (client_events tr)))"
      using bodies_step [OF inv' client_code(3)] by simp
    moreover have "rel_mset (belongs (client_events tr @ es')) (mset (messages_of (splitter_events tr)))
         (mset (held (Client k # rest) @ concat (map consumed (client_events tr))))"
      using rel by (rule multiset.rel_mono_strong) (auto intro: belongs_mono)
    ultimately have "rel_mset (belongs (client_events tr @ es')) (mset (messages_of (splitter_events tr)))
         (mset (held (map Perform calls @ rest) @ concat (map consumed (client_events tr @ es'))))" by argo
    then show ?thesis
      using client_step_position [OF pos(1) inv' client_code(3)] inv_code [OF inv' top_code [OF pos(1)] client_code(3)]
        that pos
      by (simp add: well_parsed_mono handlers_ok_mono)
  qed
  with client_code show ?thesis by (simp add: grammar_inv_def)
next
  case (task t rest)
  then obtain s ts es' where run: "run_task is_valid t (splitter c) = Inr ((s, ts), es')"
    and c': "c' = c\<lparr>splitter := s, tasks := ts @ rest\<rparr>" "es = map Splitter_event es'"
    by (auto simp: push_tasks_iff)
  have "moves (client_events tr) (phase_of (splitter_events tr)) es' (held [t]) ts rest s \<and> handlers_ok (client_events tr) s"
    if "clean (splitter_events tr @ es')" "\<not> list_ex lost (client_events tr)"
  proof -
    from inv that task(2) have pos: "position (client_events tr) (phase_of (splitter_events tr)) (t # rest) (splitter c)"
      "handlers_ok (client_events tr) (splitter c)" "clean es'" by (auto simp: grammar_inv_def)
    show ?thesis
    proof (cases "calm_task (client_events tr) t")
      case True
      with position_calm [OF pos(1)] have resting: "resting (client_events tr) (phase_of (splitter_events tr)) (splitter c)"
        "calm_tasks (client_events tr) rest" by simp_all
      from task(3) have "\<not> (\<exists>k. t = Client k)" by simp
      from calm_step [OF run pos(3) True this resting pos(2)] calm_held [OF True] task(3)
      show ?thesis by simp
    next
      case False
      from owner_step [OF pos(1) False _ run pos(3,2)] task(3) show ?thesis by blast
    qed
  qed
  moreover have "held (tasks c) = held [t] @ held rest"
    using task(2) held_simps(2) [of "[t]" rest] by simp
  ultimately show ?thesis
    using inv c' accounts_rel [of "client_events tr" "phase_of (splitter_events tr)" es' "held [t]" ts
      "messages_of (splitter_events tr)" "held rest @ concat (map consumed (client_events tr))"]
    by (auto simp: grammar_inv_def)
next
  case (called k)
  from called calm have "silent (client_events tr) k"
    using silent_mono [of "[]" k "client_events tr"] by (simp add: calm_input_def)
  with called inv calm show ?thesis
    by (auto simp: grammar_inv_def calm_input_def elim!: position.cases intro!: position.rest)
next
  case (read ec bs)
  then obtain s ts es' where run: "read_completes is_valid ec bs (splitter c) = Inr ((s, ts), es')"
    and c': "c' = c\<lparr>splitter := s, tasks := ts\<rparr>" "es = map Splitter_event es'"
    by (auto simp: push_tasks_iff)
  have "moves (client_events tr) (phase_of (splitter_events tr)) es' [] ts [] s \<and> handlers_ok (client_events tr) s"
    if "clean (splitter_events tr @ es')" "\<not> list_ex lost (client_events tr)"
    by (rule read_position [OF _ run]) (use inv that read(2) in \<open>auto simp: grammar_inv_def\<close>)
  with inv c' read(2) accounts_rel [of "client_events tr" "phase_of (splitter_events tr)" es' "[]" ts
      "messages_of (splitter_events tr)" "concat (map consumed (client_events tr))"]
  show ?thesis by (auto simp: grammar_inv_def)
qed (use inv in auto)

lemma grammar_init: "client_inv [] cl \<Longrightarrow> grammar_inv [] (connection_init cl)"
  by (auto simp: grammar_inv_def connection_init_def message_splitter_init_def handlers_ok_def
      intro!: position.rest resting.idle)

lemma grammar_frames:
  assumes "grammar_inv tr c" and "frame_inv is_valid (splitter_events tr) (splitter c)"
    and "clean (splitter_events tr)" and "\<not> list_ex lost (client_events tr)"
  shows "\<exists>rest. received (splitter_events tr) =
    concat (map message_octets (messages_of (splitter_events tr))) @ rest"
proof -
  from assms(2,3) obtain partial where framed: "framed is_valid (splitter_events tr) (splitter c) partial"
    by (auto simp: frame_inv_def)
  then have "Delivered p v \<in> set (splitter_events tr) \<Longrightarrow> value_ok is_valid p v" for p v
    by (simp add: framed_def)
  moreover from assms have "well_parsed (client_events tr) Between (splitter_events tr)"
    by (simp add: grammar_inv_def)
  ultimately have "delivered_encodings (splitter_events tr) =
      concat (map message_octets (messages_of (splitter_events tr))) @ phase_octets (phase_of (splitter_events tr))"
    using messages_octets [where ph = Between] by simp
  with framed show ?thesis by (simp add: framed_def)
qed

end

end
