(* ===== verification/Client_Protocol.thy ===== *)
theory Client_Protocol
  imports Client_Pipeline Message_Grammar
begin

text \<open>
  What the octets that a client of an interface sends and receives mean: it sends the requests of
  its calls, in order and with distinct identifiers, and it is a client of the splitter that keeps
  to the sequence of messages, parsing for each response the result of the method that was called.
\<close>

subsection \<open>What a client has sent\<close>

definition requests_made :: "'h rpc_client_event list \<Rightarrow> (request_id \<times> ident \<times> wire_value list) list" where
  "requests_made tr = concat (map (\<lambda>e. case e of Requested i name args h \<Rightarrow> [(i, name, args)] | _ \<Rightarrow> []) tr)"

definition request_events :: "'h rpc_client_event list \<Rightarrow> unit writer_event list" where
  "request_events tr = concat (map (\<lambda>e. case e of Request_event e \<Rightarrow> [e] | _ \<Rightarrow> []) tr)"

definition all_requests_built :: "'h rpc_client_event list \<Rightarrow> bool" where
  "all_requests_built tr \<longleftrightarrow> list_all (\<lambda>e. case e of Request_failed i \<Rightarrow> False | _ \<Rightarrow> True) tr"

lemma client_trace_simps [simp]:
  "requests_made [] = []" "requests_made (xs @ ys) = requests_made xs @ requests_made ys"
  "requests_made (e # es) = (case e of Requested i name args h \<Rightarrow> [(i, name, args)] | _ \<Rightarrow> []) @ requests_made es"
  "request_events [] = []" "request_events (xs @ ys) = request_events xs @ request_events ys"
  "request_events (e # es) = (case e of Request_event e \<Rightarrow> [e] | _ \<Rightarrow> []) @ request_events es"
  "all_requests_built []" "all_requests_built (xs @ ys) \<longleftrightarrow> all_requests_built xs \<and> all_requests_built ys"
  "all_requests_built (e # es) \<longleftrightarrow>
     (case e of Request_failed i \<Rightarrow> False | _ \<Rightarrow> True) \<and> all_requests_built es"
  by (simp_all add: requests_made_def request_events_def all_requests_built_def)

lemma client_trace_map [simp]:
  "requests_made (map Request_event es) = []" "requests_made (map Registry_event vs) = []"
  "request_events (map Request_event es) = es" "request_events (map Registry_event vs) = []"
  "all_requests_built (map Request_event es)" "all_requests_built (map Registry_event vs)"
  by (induction es, simp_all) (induction vs, simp_all)+

text \<open>A request that its method can be called with and that can be written.\<close>

definition request_ok ::
  "(bytes \<Rightarrow> bool) \<Rightarrow> interface_definition \<Rightarrow> request_id \<times> ident \<times> wire_value list \<Rightarrow> bool" where
  "request_ok is_valid definition request \<longleftrightarrow>
     (case request of (i, name, args) \<Rightarrow>
        (case std_map_find name (methods definition) of
           None \<Rightarrow> False
         | Some m \<Rightarrow> list_all2 (\<lambda>p v. has_type (parameter_type p) v) (parameters m) args \<and>
             snd (build_request is_valid name (parameters m) args) = Completed))"

definition request_octets ::
  "(bytes \<Rightarrow> bool) \<Rightarrow> interface_definition \<Rightarrow> request_id \<times> ident \<times> wire_value list \<Rightarrow> bytes" where
  "request_octets is_valid definition request =
     (case request of (i, name, args) \<Rightarrow>
        write_integer message_type_request @ write_integer i @
        fst (build_request is_valid name
          (parameters (the (std_map_find name (methods definition)))) args))"

definition sending_inv ::
  "(bytes \<Rightarrow> bool) \<Rightarrow> interface_definition \<Rightarrow> 'h rpc_client_event list \<Rightarrow> 'h rpc_client \<Rightarrow> bool" where
  "sending_inv is_valid definition tr c \<longleftrightarrow>
     map fst (requests_made tr) = map of_nat [0..<length (requests_made tr)] \<and>
     next_request_id c = of_nat (length (requests_made tr)) \<and>
     appended (request_events tr) = started (request_events tr) @ buffer (requests c) \<and>
     (all_requests_built tr \<longrightarrow>
       appended (request_events tr) = concat (map (request_octets is_valid definition) (requests_made tr)) \<and>
       list_all (request_ok is_valid definition) (requests_made tr))"

text \<open>The operations of the writer keep what was appended, started and buffered together.\<close>

definition stream_kept :: "'h buffered_writer \<Rightarrow> 'h writer_event list \<Rightarrow> 'h buffered_writer \<Rightarrow> bool" where
  "stream_kept w es w' \<longleftrightarrow> buffer w @ appended es = started es @ buffer w'"

lemma writer_ops_keep:
  "append_to_sink bs w = Inr (w', es) \<Longrightarrow> stream_kept w es w' \<and> appended es = bs"
  "send_buffer h w = Inr (w', es) \<Longrightarrow> stream_kept w es w' \<and> appended es = []"
  "continue_send w = Inr (w', es) \<Longrightarrow> stream_kept w es w' \<and> appended es = []"
  "write_finishes ec w = Inr ((w', hs, c), es) \<Longrightarrow> stream_kept w es w' \<and> appended es = []"
  by (auto simp: stream_kept_def append_to_sink_def send_buffer_def continue_send_def write_finishes_def
      prepare_send_state_def Let_def and_then_Inr_iff appended_def started_def
      split: option.splits send_state.splits if_splits)

lemma stream_kept_append: "stream_kept w es w1 \<Longrightarrow> stream_kept w1 es' w' \<Longrightarrow> stream_kept w (es @ es') w'"
  by (simp add: stream_kept_def) (metis append.assoc)

lemma with_requests_iff:
  "with_requests f c = Inr (c', es) \<longleftrightarrow>
   (\<exists>w es'. f (requests c) = Inr (w, es') \<and> c' = c\<lparr>requests := w\<rparr> \<and> es = map Request_event es')"
  by (auto simp: with_requests_def split: sum.splits)

lemma with_responses_iff:
  "with_responses f c = Inr ((c', calls), es) \<longleftrightarrow>
   (\<exists>r calls' es'. f (responses c) = Inr ((r, calls'), es') \<and> c' = c\<lparr>responses := r\<rparr> \<and>
     calls = map (map_call In_registry) calls' \<and> es = map Registry_event es')"
  by (auto simp: with_responses_def split: sum.splits)

text \<open>What one request does to the stream of octets and to the registry.\<close>

lemma pipeline_request_cases:
  assumes "pipeline_request built p h c = Inr ((c', calls), es)"
  obtains (failed) w es' where "snd built = Returned_error" "es = map Request_event es' @ [Request_failed (next_request_id c)]"
      "calls = [Client_code (In_registry (Call_handler h (Inl Invalid_input_error)))]"
      "c' = c\<lparr>next_request_id := next_request_id c + 1, requests := w\<rparr>"
      "stream_kept (requests c) es' w"
      "appended es' = write_integer message_type_request @ write_integer (next_request_id c) @ fst built"
  | (sent) w r es' vs calls' where "snd built = Completed" "es = map Request_event es' @ map Registry_event vs"
      "expect_response (next_request_id c) p h (responses c) = Inr ((r, calls'), vs)"
      "calls = map (map_call In_registry) calls'"
      "c' = c\<lparr>next_request_id := next_request_id c + 1, requests := w, responses := r\<rparr>"
      "stream_kept (requests c) es' w"
      "appended es' = write_integer message_type_request @ write_integer (next_request_id c) @ fst built"
proof -
  let ?i = "next_request_id c"
  define w3 where "w3 = requests c\<lparr>buffer := buffer (requests c) @ write_integer message_type_request @
    write_integer ?i @ fst built\<rparr>"
  define c3 where "c3 = c\<lparr>next_request_id := ?i + 1, requests := w3\<rparr>"
  define es3 :: "unit writer_event list" where
    "es3 = [Appended (write_integer message_type_request), Appended (write_integer ?i), Appended (fst built)]"
  have "pipeline_request built p h c = and_then (Inr (c3, map Request_event es3)) (\<lambda>c.
      case snd built of Stuck \<Rightarrow> Inl ()
       | Returned_error \<Rightarrow> Inr ((c, [Client_code (In_registry (Call_handler h (Inl Invalid_input_error)))]),
            [Request_failed ?i])
       | Completed \<Rightarrow> and_then (with_requests (send_buffer ()) c)
           (with_responses (expect_response ?i p h)))"
    by (simp add: pipeline_request_def Let_def with_requests_def append_to_sink_def c3_def w3_def es3_def
        and_then_def split: exec_status.splits sum.splits prod.splits)
  with assms obtain rest where es: "es = map Request_event es3 @ rest"
    and tail: "(case snd built of Stuck \<Rightarrow> Inl ()
       | Returned_error \<Rightarrow> Inr ((c3, [Client_code (In_registry (Call_handler h (Inl Invalid_input_error)))]),
            [Request_failed ?i])
       | Completed \<Rightarrow> and_then (with_requests (send_buffer ()) c3)
           (with_responses (expect_response ?i p h))) = Inr ((c', calls), rest)"
    by (auto simp: and_then_Inr_iff)
  have kept: "stream_kept (requests c) es3 w3"
    by (simp add: stream_kept_def es3_def w3_def appended_def started_def)
  have app: "appended es3 = write_integer message_type_request @ write_integer ?i @ fst built"
    by (simp add: appended_def es3_def)
  show ?thesis
  proof (cases "snd built")
    case Returned_error
    with tail es kept app show ?thesis by (intro failed [of es3 w3]) (auto simp: c3_def)
  next
    case Completed
    with tail obtain w4 e4 c4 vs where send: "send_buffer () w3 = Inr (w4, e4)" "c4 = c3\<lparr>requests := w4\<rparr>"
      and expect: "with_responses (expect_response ?i p h) c4 = Inr ((c', calls), vs)"
      and rest: "rest = map Request_event e4 @ vs"
      by (auto simp: and_then_Inr_iff with_requests_iff c3_def)
    from expect obtain r calls' vs' where "expect_response ?i p h (responses c) = Inr ((r, calls'), vs')"
      "c' = c4\<lparr>responses := r\<rparr>" "calls = map (map_call In_registry) calls'" "vs = map Registry_event vs'"
      by (auto simp: with_responses_iff send(2) c3_def)
    moreover have "stream_kept (requests c) (es3 @ e4) w4"
      using kept writer_ops_keep(2) [OF send(1)] stream_kept_append by blast
    moreover have "appended (es3 @ e4) = appended es3"
      using writer_ops_keep(2) [OF send(1)] by (simp add: appended_def)
    ultimately show ?thesis
      using Completed es rest app send(2) by (intro sent [of "es3 @ e4" vs' r calls' w4]) (auto simp: c3_def)
  qed (use tail in auto)
qed

lemma sending_inv_init: "sending_inv is_valid definition [] rpc_client_init"
  by (simp add: sending_inv_def rpc_client_init_def buffered_writer_init_def appended_def started_def)

text \<open>Steps that write no request.\<close>

lemma sending_inv_other:
  assumes "sending_inv is_valid definition tr c" and "stream_kept (requests c) (request_events es) (requests c')"
    and "appended (request_events es) = []" and "requests_made es = []"
    and "next_request_id c' = next_request_id c"
  shows "sending_inv is_valid definition (tr @ es) c'"
  using assms by (auto simp: sending_inv_def stream_kept_def)

lemma sending_inv_responses:
  assumes "sending_inv is_valid definition tr c" and "with_responses f c = Inr ((c', calls), es)"
  shows "sending_inv is_valid definition (tr @ es) c'"
  by (rule sending_inv_other [OF assms(1)])
    (use assms(2) in \<open>auto simp: with_responses_iff stream_kept_def\<close>)

lemma sending_inv_call:
  assumes inv: "sending_inv is_valid definition tr c"
    and run: "call_method is_valid definition name args h c = Inr ((c', calls), es)"
  shows "sending_inv is_valid definition (tr @ es) c'"
proof -
  from run obtain m es' where m: "std_map_find name (methods definition) = Some m"
      "list_all2 (\<lambda>p v. has_type (parameter_type p) v) (parameters m) args"
    and req: "pipeline_request (build_request is_valid name (parameters m) args)
        (parser_type_of (method_result m)) h c = Inr ((c', calls), es')"
    and es: "es = Requested (next_request_id c) name args h # es'"
    by (auto simp: call_method_def and_then_Inr_iff split: option.splits if_splits)
  let ?built = "build_request is_valid name (parameters m) args"
  have octets: "request_octets is_valid definition (next_request_id c, name, args) =
      write_integer message_type_request @ write_integer (next_request_id c) @ fst ?built"
    using m by (simp add: request_octets_def)
  from req show ?thesis
  proof (cases rule: pipeline_request_cases)
    case (failed w es'')
    with inv es show ?thesis
      by (auto simp: sending_inv_def stream_kept_def)
  next
    case (sent w r es'' vs calls')
    from m sent(1) have ok: "request_ok is_valid definition (next_request_id c, name, args)"
      by (simp add: request_ok_def)
    from inv es sent ok octets show ?thesis
      by (auto simp: sending_inv_def stream_kept_def)
  qed
qed

lemma sending_inv_step:
  assumes inv: "sending_inv is_valid definition tr c"
    and run: "run_rpc_client is_valid definition react k c = Inr ((c', calls), es)"
  shows "sending_inv is_valid definition (tr @ es) c'"
proof (cases k)
  case (Generated_method m)
  with run inv show ?thesis by (cases m) (auto intro: sending_inv_call)
next
  case (In_registry k')
  with run inv show ?thesis
    by (cases k') (auto intro: sending_inv_responses sending_inv_other
        simp: stream_kept_def)
next
  case (Request_written ec)
  with run obtain w hs cont es' where "write_finishes ec (requests c) = Inr ((w, hs, cont), es')"
    "c' = c\<lparr>requests := w\<rparr>" "es = map Request_event es'"
    by (auto split: sum.splits prod.splits)
  with writer_ops_keep(4) [of ec "requests c" w hs cont es'] show ?thesis
    by (intro sending_inv_other [OF inv]) auto
next
  case (Request_handler ec)
  have inv': "sending_inv is_valid definition (tr @ [Request_event (Handler_called () ec)]) c"
    by (rule sending_inv_other [OF inv]) (simp_all add: stream_kept_def)
  show ?thesis
  proof (cases ec)
    case None
    with Request_handler run inv' show ?thesis by (simp add: and_then_def)
  next
    case (Some e)
    with Request_handler run obtain es' where "with_responses (registry_on_error e) c = Inr ((c', calls), es')"
      "es = Request_event (Handler_called () ec) # es'"
      by (auto simp: and_then_Inr_iff)
    with sending_inv_responses [OF inv'] Some show ?thesis by fastforce
  qed
next
  case Continue_request
  with run obtain w es' where "continue_send (requests c) = Inr (w, es')"
    "c' = c\<lparr>requests := w\<rparr>" "es = map Request_event es'"
    by (auto simp: and_then_Inr_iff with_requests_iff)
  with writer_ops_keep(3) [of "requests c" w es'] show ?thesis
    by (intro sending_inv_other [OF inv]) auto
qed

subsection \<open>What a client reads\<close>

definition client_header_code :: "phase \<Rightarrow> 'h rpc_client_code \<Rightarrow> bool" where
  "client_header_code ph k \<longleftrightarrow> (\<exists>i. k = In_registry (Header_received (Inr i)) \<and> ph = Response_body i)"

definition client_body_code :: "'h rpc_client_code \<Rightarrow> bool" where
  "client_body_code k \<longleftrightarrow> (\<exists>h v. k = In_registry (Result_received h (Inr v)))"

definition client_silent :: "'h rpc_client_code \<Rightarrow> bool" where
  "client_silent k \<longleftrightarrow>
     (case k of
        In_registry (Header_received r) \<Rightarrow> isl r
      | In_registry (Result_received h r) \<Rightarrow> False
      | _ \<Rightarrow> True)"

definition client_expects ::
  "'h rpc_client_event list \<Rightarrow> phase \<Rightarrow> parser_type \<Rightarrow> (error_code + wire_value \<Rightarrow> 'h rpc_client_code) \<Rightarrow> bool"
  where
  "client_expects tr ph p f \<longleftrightarrow>
     (\<exists>i h. ph = Response_body i \<and> f = (\<lambda>r. In_registry (Result_received h r)) \<and>
       Registry_event (Expected i p h) \<in> set tr)"

definition client_bodies :: "'h rpc_client_code \<Rightarrow> ('h \<times> wire_value) list" where
  "client_bodies k =
     (case k of
        In_registry (Result_received h (Inr v)) \<Rightarrow> [(h, v)]
      | In_registry (Result_unlocked h v) \<Rightarrow> [(h, v)]
      | In_registry (Call_handler h (Inr v)) \<Rightarrow> [(h, v)]
      | _ \<Rightarrow> [])"

definition client_consumed :: "'h rpc_client_event \<Rightarrow> ('h \<times> wire_value) list" where
  "client_consumed e = (case e of Registry_event (Handled h (Inr v)) \<Rightarrow> [(h, v)] | _ \<Rightarrow> [])"

definition client_belongs :: "'h rpc_client_event list \<Rightarrow> message \<Rightarrow> 'h \<times> wire_value \<Rightarrow> bool" where
  "client_belongs tr m y \<longleftrightarrow>
     (case m of
        Response_message i p v \<Rightarrow> snd y = v \<and> Registry_event (Expected i p (fst y)) \<in> set tr
      | _ \<Rightarrow> False)"

definition client_lost :: "'h rpc_client_event \<Rightarrow> bool" where
  "client_lost e \<longleftrightarrow> (case e of Registry_event (Unknown i) \<Rightarrow> True | _ \<Rightarrow> False)"

text \<open>The registry waits for the results of the methods that were called.\<close>

definition registering_inv ::
  "interface_definition \<Rightarrow> 'h rpc_client_event list \<Rightarrow> 'h rpc_client \<Rightarrow> bool" where
  "registering_inv definition tr c \<longleftrightarrow>
     std_map_ok (expected_responses (responses c)) \<and>
     (\<forall>i p h. (i, p, h) \<in> set (expected_responses (responses c)) \<longrightarrow> Registry_event (Expected i p h) \<in> set tr) \<and>
     (\<forall>i p h. Registry_event (Expected i p h) \<in> set tr \<longrightarrow>
       (\<exists>name args m. Requested i name args h \<in> set tr \<and> std_map_find name (methods definition) = Some m \<and>
         p = parser_type_of (method_result m)))"

definition client_inv where
  "client_inv is_valid definition tr c \<longleftrightarrow>
     sending_inv is_valid definition tr c \<and> registering_inv definition tr c"

abbreviation "client_calm_call \<equiv> silent_call client_header_code client_silent client_bodies"

lemma client_calm_simps [simp]:
  "client_calm_call (Client_code k) \<longleftrightarrow> client_silent k"
  "client_calm_call (Wait_for_response (\<lambda>r. In_registry (Header_received r)))"
  by (auto simp: silent_call_def takes_response_def client_header_code_def client_silent_def client_bodies_def)

text \<open>What each piece of the registry's code calls.\<close>

lemmas registry_ops = expect_response_def parse_header_def registry_on_error_def header_received_def
  result_received_def result_unlocked_def Let_def and_then_Inr_iff with_responses_iff

lemma registry_error_calls:
  assumes "registry_on_error ec r = Inr ((r', calls), es)"
  shows "list_all client_calm_call (map (map_call In_registry) calls) \<and>
    concat (map (call_bodies client_bodies) (map (map_call In_registry) calls)) = [] \<and>
    es = [] \<and> expected_responses r' = []"
  using assms
  by (auto simp: registry_on_error_def Let_def list_all_iff client_silent_def call_bodies_def client_bodies_def)

lemma in_registry_calls:
  assumes "run_registry (\<lambda>h r. []) k r = Inr ((r', calls), es)" and "\<forall>h r. k \<noteq> Call_handler h r"
    and ok: "std_map_ok (expected_responses r)"
  shows "(client_silent (In_registry k) \<longrightarrow> list_all client_calm_call (map (map_call In_registry) calls)) \<and>
    mset (client_bodies (In_registry k)) =
      mset (concat (map (call_bodies client_bodies) (map (map_call In_registry) calls))) \<and>
    concat (map client_consumed (map Registry_event es)) = [] \<and>
    std_map_ok (expected_responses r') \<and>
    set (expected_responses r') \<subseteq> set (expected_responses r) \<union>
      {(i, p, h) | i p h. Expected i p h \<in> set es}"
proof (cases k)
  case (Member m)
  show ?thesis
  proof (cases m)
    case (Expect_response i p h)
    have sub: "set (std_map_insert i (p, h) (expected_responses r)) \<subseteq>
        (if std_map_find i (expected_responses r) = None
         then insert (i, p, h) (set (expected_responses r)) else set (expected_responses r))"
      using std_map_insert_mset [OF ok, of i "(p, h)"]
      by (simp split: if_splits) (metis mset_eq_setD order_refl set_mset_mset std_map_insert_subset)+
    from Member Expect_response assms sub std_map_ok_insert [OF ok] show ?thesis
      by (auto simp: registry_ops call_bodies_def client_bodies_def client_consumed_def comp_def
          split: response_state.splits if_splits)
  next
    case (On_error ec)
    with Member assms registry_error_calls show ?thesis
      by (fastforce simp: client_bodies_def std_map_ok_def std_map_keys_def)
  qed
next
  case (Header_received q)
  show ?thesis
  proof (cases q)
    case (Inl ec)
    with Header_received assms registry_error_calls [of ec r r' calls es] show ?thesis
      by (auto simp: header_received_def client_bodies_def std_map_ok_def std_map_keys_def split: if_splits)
  next
    case (Inr i)
    show ?thesis
    proof (cases "std_map_find i (expected_responses r)")
      case None
      with Header_received Inr assms obtain es' where
        "registry_on_error Invalid_input_error (r\<lparr>response_state := Not_expecting_response\<rparr>) = Inr ((r', calls), es')"
        "es = es' @ [Unknown i]"
        by (auto simp: header_received_def and_then_Inr_iff split: if_splits)
      with registry_error_calls [OF this(1)] Header_received Inr show ?thesis
        by (auto simp: client_bodies_def client_consumed_def client_silent_def std_map_ok_def std_map_keys_def)
    next
      case (Some e)
      with Header_received Inr assms std_map_erase_subset [of i "expected_responses r"] show ?thesis
        by (cases e) (auto simp: header_received_def client_bodies_def client_silent_def call_bodies_def
            std_map_ok_erase split: if_splits)
    qed
  qed
next
  case (Result_received h q)
  show ?thesis
  proof (cases q)
    case (Inl ec)
    with Result_received assms obtain es' where
      "registry_on_error ec r = Inr ((r', calls), es')" "es = es' @ [Dropped h]"
      by (auto simp: result_received_def and_then_Inr_iff split: if_splits)
    with registry_error_calls [OF this(1)] Result_received Inl show ?thesis
      by (auto simp: client_bodies_def client_consumed_def client_silent_def std_map_ok_def std_map_keys_def)
  next
    case (Inr v)
    with Result_received assms show ?thesis
      by (auto simp: result_received_def client_bodies_def client_silent_def call_bodies_def split: if_splits)
  qed
next
  case (Result_unlocked h v)
  with assms show ?thesis
    by (auto simp: registry_ops call_bodies_def client_bodies_def client_silent_def comp_def split: if_splits)
qed (use assms in simp)

lemma registering_inv_registry:
  assumes inv: "registering_inv definition tr c" and run: "run_registry (\<lambda>h r. []) k (responses c) = Inr ((r', calls), es)"
    and k: "\<forall>h r. k \<noteq> Call_handler h r"
    and expected: "\<And>i p h. Expected i p h \<in> set es \<Longrightarrow> \<exists>name args m. Requested i name args h \<in> set tr \<and>
      std_map_find name (methods definition) = Some m \<and> p = parser_type_of (method_result m)"
  shows "registering_inv definition (tr @ map Registry_event es) (c\<lparr>responses := r'\<rparr>)"
proof -
  from inv have "std_map_ok (expected_responses (responses c))" by (simp add: registering_inv_def)
  from in_registry_calls [OF run k this] inv expected show ?thesis
    unfolding registering_inv_def by (simp add: image_iff) blast
qed

lemma registering_inv_other:
  assumes "registering_inv definition tr c" and "responses c' = responses c"
    and "\<And>i p h. Registry_event (Expected i p h) \<notin> set es"
  shows "registering_inv definition (tr @ es) c'"
  using assms unfolding registering_inv_def by (metis Un_iff set_append)

lemma registry_member_expects:
  "run_registry (\<lambda>h r. []) k r = Inr ((r', calls), es) \<Longrightarrow> Expected i p h \<in> set es \<Longrightarrow>
   k = Member (Expect_response i p h)"
  by (cases rule: run_registry.cases [of "(\<lambda>h r. [], k, r)"])
    (auto simp: registry_ops split: if_splits sum.splits option.splits response_state.splits)

lemma registering_inv_call:
  assumes inv: "registering_inv definition tr c"
    and run: "call_method is_valid definition name args h c = Inr ((c', calls), es)"
  shows "registering_inv definition (tr @ es) c' \<and> list_all client_calm_call calls \<and>
    concat (map (call_bodies client_bodies) calls) = [] \<and> concat (map client_consumed es) = []"
proof -
  from run obtain m es' where m: "std_map_find name (methods definition) = Some m"
    and req: "pipeline_request (build_request is_valid name (parameters m) args)
        (parser_type_of (method_result m)) h c = Inr ((c', calls), es')"
    and es: "es = Requested (next_request_id c) name args h # es'"
    by (auto simp: call_method_def and_then_Inr_iff split: option.splits if_splits)
  have consumed: "concat (map client_consumed (map Request_event ws)) = []" for ws
    by (induction ws) (simp_all add: client_consumed_def)
  from req show ?thesis
  proof (cases rule: pipeline_request_cases)
    case (failed w es'')
    have "registering_inv definition (tr @ es) c'"
      by (rule registering_inv_other [OF inv]) (use failed es in auto)
    with failed es consumed show ?thesis
      by (auto simp: client_silent_def call_bodies_def client_bodies_def client_consumed_def)
  next
    case (sent w r es'' vs calls')
    let ?p = "parser_type_of (method_result m)" and ?tr = "tr @ Requested (next_request_id c) name args h # map Request_event es''"
    have inv': "registering_inv definition ?tr (c\<lparr>next_request_id := next_request_id c + 1, requests := w\<rparr>)"
      by (rule registering_inv_other [OF inv]) auto
    have run': "run_registry (\<lambda>h r. []) (Member (Expect_response (next_request_id c) ?p h)) (responses c) =
        Inr ((r, calls'), vs)" using sent(3) by simp
    have run'': "run_registry (\<lambda>h r. []) (Member (Expect_response (next_request_id c) ?p h))
        (responses (c\<lparr>next_request_id := next_request_id c + 1, requests := w\<rparr>)) = Inr ((r, calls'), vs)"
      using run' by simp
    have "registering_inv definition (?tr @ map Registry_event vs)
        (c\<lparr>next_request_id := next_request_id c + 1, requests := w\<rparr>\<lparr>responses := r\<rparr>)"
    proof (rule registering_inv_registry [OF inv' run''])
      show "\<exists>name args m. Requested i name args h' \<in> set ?tr \<and>
          std_map_find name (methods definition) = Some m \<and> p = parser_type_of (method_result m)"
        if "Expected i p h' \<in> set vs" for i p h'
        using registry_member_expects [OF run' that] m by auto
    qed simp
    moreover from inv have "std_map_ok (expected_responses (responses c))" by (simp add: registering_inv_def)
    from in_registry_calls [OF run' _ this] sent(4) have "list_all client_calm_call calls \<and>
        concat (map (call_bodies client_bodies) calls) = [] \<and> concat (map client_consumed (map Registry_event vs)) = []"
      by (simp add: client_silent_def client_bodies_def)
    ultimately show ?thesis
      using sent es consumed by (simp add: client_consumed_def)
  qed
qed

text \<open>All code of the client.\<close>

lemma client_code_step:
  assumes inv: "registering_inv definition tr c"
    and run: "run_rpc_client is_valid definition react k c = Inr ((c', calls), es)"
  shows "registering_inv definition (tr @ es) c' \<and>
    (client_silent k \<longrightarrow> list_all client_calm_call calls) \<and>
    mset (client_bodies k) = mset (concat (map (call_bodies client_bodies) calls)) +
      mset (concat (map client_consumed es))"
proof (cases k)
  case (Generated_method m)
  with run registering_inv_call [OF inv] show ?thesis
    by (cases m) (fastforce simp: client_bodies_def)
next
  case (In_registry k')
  show ?thesis
  proof (cases "\<exists>h r. k' = Call_handler h r")
    case True
    then obtain h r where k': "k' = Call_handler h r" by blast
    with In_registry run have out: "c' = c" "es = [Registry_event (Handled h r)]"
      "calls = map (\<lambda>m. Client_code (Generated_method m)) (react h r)" by auto
    have "registering_inv definition (tr @ es) c'"
      by (rule registering_inv_other [OF inv]) (use out in auto)
    moreover have "concat (map (call_bodies client_bodies) calls) = []"
      unfolding out by (induction "react h r") (simp_all add: call_bodies_def client_bodies_def)
    ultimately show ?thesis
      using out In_registry k'
      by (cases r) (auto simp: client_bodies_def client_consumed_def list_all_iff client_silent_def)
  next
    case False
    with In_registry run have run': "with_responses (run_registry (\<lambda>h r. []) k') c = Inr ((c', calls), es)"
      and k': "\<forall>m. k' \<noteq> Member m" by (cases k'; auto)+
    then obtain r calls' vs where r: "run_registry (\<lambda>h r. []) k' (responses c) = Inr ((r, calls'), vs)"
      "c' = c\<lparr>responses := r\<rparr>" "calls = map (map_call In_registry) calls'" "es = map Registry_event vs"
      by (auto simp: with_responses_iff)
    from False have not: "\<forall>h r. k' \<noteq> Call_handler h r" by blast
    from inv have "std_map_ok (expected_responses (responses c))" by (simp add: registering_inv_def)
    note calls = in_registry_calls [OF r(1) not this]
    have "registering_inv definition (tr @ map Registry_event vs) (c\<lparr>responses := r\<rparr>)"
      by (rule registering_inv_registry [OF inv r(1) not]) (use registry_member_expects [OF r(1)] k' in blast)
    with calls r In_registry show ?thesis by auto
  qed
next
  case (Request_written ec)
  with run obtain w hs cont ws where "write_finishes ec (requests c) = Inr ((w, hs, cont), ws)"
    and out: "c' = c\<lparr>requests := w\<rparr>" "es = map Request_event ws"
    "calls = map (\<lambda>h. Client_code (Request_handler ec)) hs @ (if cont then [Client_code Continue_request] else [])"
    by (auto split: sum.splits prod.splits)
  have "registering_inv definition (tr @ es) c'"
    by (rule registering_inv_other [OF inv]) (use out in auto)
  moreover have "concat (map client_consumed es) = []"
    unfolding out by (induction ws) (simp_all add: client_consumed_def)
  moreover have "concat (map (call_bodies client_bodies) calls) = []"
    unfolding out by (induction hs) (simp_all add: call_bodies_def client_bodies_def)
  ultimately show ?thesis
    using out Request_written by (auto simp: client_bodies_def list_all_iff client_silent_def)
next
  case (Request_handler ec)
  have inv': "registering_inv definition (tr @ [Request_event (Handler_called () ec)]) c"
    by (rule registering_inv_other [OF inv]) simp_all
  show ?thesis
  proof (cases ec)
    case None
    with Request_handler run inv' show ?thesis
      by (auto simp: and_then_def client_bodies_def client_consumed_def)
  next
    case (Some e)
    with Request_handler run obtain es' where err: "with_responses (registry_on_error e) c = Inr ((c', calls), es')"
      and es: "es = Request_event (Handler_called () ec) # es'"
      by (auto simp: and_then_Inr_iff)
    then obtain r calls' vs where r: "registry_on_error e (responses c) = Inr ((r, calls'), vs)"
      "c' = c\<lparr>responses := r\<rparr>" "calls = map (map_call In_registry) calls'" "es' = map Registry_event vs"
      by (auto simp: with_responses_iff)
    from registry_error_calls [OF r(1)] r es inv' Request_handler show ?thesis
      by (auto simp: client_bodies_def client_consumed_def registering_inv_def std_map_ok_def std_map_keys_def)
  qed
next
  case Continue_request
  with run obtain w ws where out: "c' = c\<lparr>requests := w\<rparr>" "es = map Request_event ws" "calls = []"
    by (auto simp: and_then_Inr_iff with_requests_iff)
  have "registering_inv definition (tr @ es) c'"
    by (rule registering_inv_other [OF inv]) (use out in auto)
  moreover have "concat (map client_consumed es) = []"
    unfolding out by (induction ws) (simp_all add: client_consumed_def)
  ultimately show ?thesis
    using out Continue_request by (auto simp: client_bodies_def)
qed

interpretation client_protocol: message_client is_valid "run_rpc_client is_valid d react"
  client_header_code client_body_code "\<lambda>tr. client_silent" client_expects "client_inv is_valid d"
  client_lost client_bodies client_consumed client_belongs
  for is_valid d react
proof
  fix tr c k c' calls es
  assume inv: "client_inv is_valid d tr c" and run: "run_rpc_client is_valid d react k c = Inr ((c', calls), es)"
  then show "client_inv is_valid d (tr @ es) c'"
    using sending_inv_step client_code_step unfolding client_inv_def by blast
  fix ph
  assume k: "client_header_code ph k" and lost: "\<not> list_ex client_lost es"
  then obtain i where k: "k = In_registry (Header_received (Inr i))" "ph = Response_body i"
    by (auto simp: client_header_code_def)
  with run obtain r calls' vs where r: "run_registry (\<lambda>h r. []) (Header_received (Inr i)) (responses c) = Inr ((r, calls'), vs)"
    and out: "calls = map (map_call In_registry) calls'" "es = map Registry_event vs"
    by (auto simp: with_responses_iff)
  show "\<exists>p f rest. calls = Lock_input # Parse_body p f # rest \<and> client_expects (tr @ es) ph p f \<and>
      list_all client_calm_call rest"
  proof (cases "std_map_find i (expected_responses (responses c))")
    case None
    with r out lost show ?thesis
      by (auto simp: header_received_def and_then_Inr_iff client_lost_def split: if_splits)
  next
    case (Some e)
    obtain p h where e: "e = (p, h)" by (cases e)
    with Some have "(i, p, h) \<in> set (expected_responses (responses c))"
      by (simp add: std_map_find_def map_of_SomeD)
    with inv have "Registry_event (Expected i p h) \<in> set tr"
      by (simp add: client_inv_def registering_inv_def)
    with r out Some e k show ?thesis
      by (auto simp: header_received_def client_expects_def comp_def split: if_splits)
  qed
next
  fix tr c k c' calls es
  assume inv: "client_inv is_valid d tr c" and run: "run_rpc_client is_valid d react k c = Inr ((c', calls), es)"
  then have step: "(client_silent k \<longrightarrow> list_all client_calm_call calls) \<and>
      mset (client_bodies k) = mset (concat (map (call_bodies client_bodies) calls)) +
        mset (concat (map client_consumed es))"
    using client_code_step unfolding client_inv_def by blast
  then show "mset (client_bodies k) = mset (concat (map (call_bodies client_bodies) calls)) +
        mset (concat (map client_consumed es))" by blast
  show "client_silent k \<Longrightarrow> list_all client_calm_call calls" using step by blast
  assume k: "client_body_code k"
  with run show "\<exists>rest. calls = Unlock_input # rest \<and> list_all client_calm_call rest"
    by (auto simp: client_body_code_def with_responses_iff result_received_def client_silent_def split: if_splits)
next
  show "client_body_code (f (Inr v)) \<and>
      (\<exists>y. client_bodies (f (Inr v)) = [y] \<and> client_belongs tr (body_message ph p v) y)"
    if "client_expects tr ph p f" for tr ph p f v
    using that by (auto simp: client_body_code_def client_expects_def client_bodies_def client_belongs_def body_message_def)
qed (auto simp: client_silent_def client_header_code_def client_body_code_def client_expects_def client_belongs_def
    split: rpc_client_code.splits registry_code.splits message.splits)

end
