(* ===== verification/Server_Protocol.thy ===== *)
theory Server_Protocol
  imports Generated_Server Message_Grammar Client_Protocol
begin

text \<open>
  What the octets that a server of an interface receives and sends mean: it keeps to the sequence of
  messages, calls the implementation once for each request that is complete, with the arguments that
  arrived, and responds with the identifier of the request and the result of its method.
\<close>

subsection \<open>What a server has done\<close>

definition calls_made :: "'h rpc_server_event list \<Rightarrow> (request_id \<times> ident \<times> wire_value list) list" where
  "calls_made tr = concat (map (\<lambda>e. case e of Implementation_called i name args \<Rightarrow> [(i, name, args)] | _ \<Rightarrow> []) tr)"

definition responses_made :: "'h rpc_server_event list \<Rightarrow> (request_id \<times> wire_type \<times> wire_value) list" where
  "responses_made tr = concat (map (\<lambda>e. case e of Responded i t v \<Rightarrow> [(i, t, v)] | _ \<Rightarrow> []) tr)"

definition response_events :: "'h rpc_server_event list \<Rightarrow> 'h writer_event list" where
  "response_events tr = concat (map (\<lambda>e. case e of Response_event e \<Rightarrow> [e] | _ \<Rightarrow> []) tr)"

definition all_responses_built :: "'h rpc_server_event list \<Rightarrow> bool" where
  "all_responses_built tr \<longleftrightarrow> list_all (\<lambda>e. case e of Response_failed i \<Rightarrow> False | _ \<Rightarrow> True) tr"

lemma server_trace_simps [simp]:
  "calls_made [] = []" "calls_made (xs @ ys) = calls_made xs @ calls_made ys"
  "calls_made (e # es) = (case e of Implementation_called i name args \<Rightarrow> [(i, name, args)] | _ \<Rightarrow> []) @ calls_made es"
  "responses_made [] = []" "responses_made (xs @ ys) = responses_made xs @ responses_made ys"
  "responses_made (e # es) = (case e of Responded i t v \<Rightarrow> [(i, t, v)] | _ \<Rightarrow> []) @ responses_made es"
  "response_events [] = []" "response_events (xs @ ys) = response_events xs @ response_events ys"
  "response_events (e # es) = (case e of Response_event e \<Rightarrow> [e] | _ \<Rightarrow> []) @ response_events es"
  "all_responses_built []" "all_responses_built (xs @ ys) \<longleftrightarrow> all_responses_built xs \<and> all_responses_built ys"
  "all_responses_built (e # es) \<longleftrightarrow>
     (case e of Response_failed i \<Rightarrow> False | _ \<Rightarrow> True) \<and> all_responses_built es"
  by (simp_all add: calls_made_def responses_made_def response_events_def all_responses_built_def)

lemma server_trace_map [simp]:
  "calls_made (map Response_event es) = []" "responses_made (map Response_event es) = []"
  "response_events (map Response_event es) = es" "all_responses_built (map Response_event es)"
  by (induction es) simp_all

definition response_octets :: "(bytes \<Rightarrow> bool) \<Rightarrow> request_id \<times> wire_type \<times> wire_value \<Rightarrow> bytes" where
  "response_octets is_valid response =
     (case response of (i, t, v) \<Rightarrow>
        write_integer message_type_response @ write_integer i @ fst (serialized_result is_valid t v))"

definition response_ok :: "(bytes \<Rightarrow> bool) \<Rightarrow> request_id \<times> wire_type \<times> wire_value \<Rightarrow> bool" where
  "response_ok is_valid response \<longleftrightarrow>
     (case response of (i, t, v) \<Rightarrow> has_type t v \<and> snd (serialized_result is_valid t v) = Completed)"

definition responding_inv :: "(bytes \<Rightarrow> bool) \<Rightarrow> 'h rpc_server_event list \<Rightarrow> 'h rpc_server \<Rightarrow> bool" where
  "responding_inv is_valid tr c \<longleftrightarrow>
     appended (response_events tr) = started (response_events tr) @ buffer (replies c) \<and>
     (all_responses_built tr \<longrightarrow>
       appended (response_events tr) = concat (map (response_octets is_valid) (responses_made tr)) \<and>
       list_all (response_ok is_valid) (responses_made tr))"

lemma with_replies_iff:
  "with_replies f c = Inr (c', es) \<longleftrightarrow>
   (\<exists>w es'. f (replies c) = Inr (w, es') \<and> c' = c\<lparr>replies := w\<rparr> \<and> es = map Response_event es')"
  by (auto simp: with_replies_def split: sum.splits)

lemma responding_inv_other:
  assumes "responding_inv is_valid tr c" and "stream_kept (replies c) (response_events es) (replies c')"
    and "appended (response_events es) = []" and "responses_made es = []"
  shows "responding_inv is_valid (tr @ es) c'"
  using assms by (auto simp: responding_inv_def stream_kept_def)

text \<open>What one response does to the stream of octets.\<close>

lemma result_received_for_cases:
  assumes "result_received_for is_valid h i t result c = Inr ((c', calls), es)"
  obtains (error) ec where "result = Inl ec" "c' = c" "calls = [Client_code (Handle_result h (Some ec))]" "es = []"
  | (failed) v w es' where "result = Inr v" "has_type t v" "snd (serialized_result is_valid t v) = Returned_error"
      "c' = c\<lparr>replies := w\<rparr>" "calls = [Client_code (Handle_result h (Some Invalid_input_error))]"
      "es = map Response_event es' @ [Response_failed i]"
      "stream_kept (replies c) es' w" "appended es' = response_octets is_valid (i, t, v)"
  | (responded) v w es1 es2 where "result = Inr v" "has_type t v"
      "snd (serialized_result is_valid t v) = Completed" "c' = c\<lparr>replies := w\<rparr>" "calls = []"
      "es = map Response_event es1 @ [Responded i t v] @ map Response_event es2"
      "stream_kept (replies c) (es1 @ es2) w" "appended (es1 @ es2) = response_octets is_valid (i, t, v)"
proof (cases result)
  case (Inl ec)
  with assms show ?thesis by (intro error) (auto simp: result_received_for_def)
next
  case (Inr v)
  let ?out = "serialized_result is_valid t v"
  define w3 where "w3 = replies c\<lparr>buffer := buffer (replies c) @ response_octets is_valid (i, t, v)\<rparr>"
  define c3 where "c3 = c\<lparr>replies := w3\<rparr>"
  define es3 :: "'a writer_event list" where
    "es3 = [Appended (write_integer message_type_response), Appended (write_integer i), Appended (fst ?out)]"
  from Inr assms have type: "has_type t v" by (auto simp: result_received_for_def split: if_splits)
  have "result_received_for is_valid h i t result c = and_then (Inr (c3, map Response_event es3)) (\<lambda>c.
      case snd ?out of Stuck \<Rightarrow> Inl ()
       | Returned_error \<Rightarrow> Inr ((c, [Client_code (Handle_result h (Some Invalid_input_error))]), [Response_failed i])
       | Completed \<Rightarrow> and_then (Inr (c, [Responded i t v])) (\<lambda>c.
           and_then (with_replies (send_buffer h) c) (\<lambda>c. Inr ((c, []), []))))"
    using type
    by (simp add: result_received_for_def Inr with_replies_def append_to_sink_def c3_def w3_def es3_def
        response_octets_def and_then_def split: exec_status.splits sum.splits prod.splits)
  with assms obtain rest where es: "es = map Response_event es3 @ rest"
    and tail: "(case snd ?out of Stuck \<Rightarrow> Inl ()
       | Returned_error \<Rightarrow> Inr ((c3, [Client_code (Handle_result h (Some Invalid_input_error))]), [Response_failed i])
       | Completed \<Rightarrow> and_then (Inr (c3, [Responded i t v])) (\<lambda>c.
           and_then (with_replies (send_buffer h) c) (\<lambda>c. Inr ((c, []), [])))) = Inr ((c', calls), rest)"
    by (auto simp: and_then_Inr_iff)
  have kept: "stream_kept (replies c) es3 w3" and app: "appended es3 = response_octets is_valid (i, t, v)"
    by (simp_all add: stream_kept_def es3_def w3_def response_octets_def)
  show ?thesis
  proof (cases "snd ?out")
    case Returned_error
    with tail es kept app Inr type show ?thesis by (intro failed [of v w3 es3]) (auto simp: c3_def)
  next
    case Completed
    with tail obtain w4 es4 where send: "send_buffer h w3 = Inr (w4, es4)" "c' = c3\<lparr>replies := w4\<rparr>"
      and out: "calls = []" "rest = [Responded i t v] @ map Response_event es4"
      by (auto simp: and_then_Inr_iff with_replies_iff c3_def)
    from kept writer_ops_keep(2) [OF send(1)] stream_kept_append
    have "stream_kept (replies c) (es3 @ es4) w4" "appended (es3 @ es4) = appended es3" by auto
    with Inr type Completed send out es app show ?thesis
      by (intro responded [of v w4 es3 es4]) (auto simp: c3_def)
  qed (use tail in auto)
qed

lemma responding_inv_step:
  assumes inv: "responding_inv is_valid tr c"
    and run: "run_rpc_server is_valid d implementation react k c = Inr ((c', calls), es)"
  shows "responding_inv is_valid (tr @ es) c'"
proof (cases k)
  case (Result_received_for h i t result)
  with run have "result_received_for is_valid h i t result c = Inr ((c', calls), es)" by simp
  then show ?thesis
  proof (cases rule: result_received_for_cases)
    case (responded v w es1 es2)
    then have "response_ok is_valid (i, t, v)" by (simp add: response_ok_def)
    with responded inv show ?thesis by (auto simp: responding_inv_def stream_kept_def)
  qed (use inv in \<open>auto simp: responding_inv_def stream_kept_def\<close>)
next
  case (Response_written ec)
  with run obtain w hs cont ws where "write_finishes ec (replies c) = Inr ((w, hs, cont), ws)"
    "c' = c\<lparr>replies := w\<rparr>" "es = map Response_event ws"
    by (auto split: sum.splits prod.splits)
  with writer_ops_keep(4) [of ec "replies c" w hs cont ws] show ?thesis
    by (intro responding_inv_other [OF inv]) auto
next
  case Continue_response
  with run obtain w es' where "continue_send (replies c) = Inr (w, es')"
    "c' = c\<lparr>replies := w\<rparr>" "es = map Response_event es'"
    by (auto simp: and_then_Inr_iff with_replies_iff)
  with writer_ops_keep(3) [of "replies c" w es'] show ?thesis
    by (intro responding_inv_other [OF inv]) auto
qed (use run inv in \<open>auto simp: responding_inv_def request_received_def argument_unlocked_def Let_def
    split: sum.splits option.splits prod.splits if_splits\<close>)

subsection \<open>What a server reads\<close>

definition arguments_of :: "interface_definition \<Rightarrow> ident \<Rightarrow> wire_value \<Rightarrow> wire_value list" where
  "arguments_of d name v =
     (case std_map_find name (methods d) of
        None \<Rightarrow> []
      | Some m \<Rightarrow> move_arguments_out_of_tuple (length (parameters m)) v)"

text \<open>
  A result is owed to a call that was made, its type is that of the method's result, and it is what
  the implementation returned if it returned at once.
\<close>

definition owed ::
  "interface_definition \<Rightarrow> (ident \<Rightarrow> wire_value list \<Rightarrow> (error_code + wire_value) option) \<Rightarrow>
    'h rpc_server_event list \<Rightarrow> request_id \<Rightarrow> wire_type \<Rightarrow> error_code + wire_value \<Rightarrow> bool" where
  "owed d implementation tr i t r \<longleftrightarrow>
     (\<exists>name args m. Implementation_called i name args \<in> set tr \<and>
       std_map_find name (methods d) = Some m \<and> t = method_result m \<and>
       (\<forall>r'. implementation name args = Some r' \<longrightarrow> r = r'))"

definition server_header_code :: "phase \<Rightarrow> 'h rpc_server_code \<Rightarrow> bool" where
  "server_header_code ph k \<longleftrightarrow>
     (\<exists>h i name. k = Request_received h (Inr (i, name)) \<and> ph = Request_body i name)"

definition server_body_code :: "'h rpc_server_code \<Rightarrow> bool" where
  "server_body_code k \<longleftrightarrow> (\<exists>h i name r. k = Argument_received h i name r)"

definition server_silent ::
  "interface_definition \<Rightarrow> (ident \<Rightarrow> wire_value list \<Rightarrow> (error_code + wire_value) option) \<Rightarrow> 'h rpc_server_event list \<Rightarrow> 'h rpc_server_code \<Rightarrow> bool" where
  "server_silent d implementation tr k \<longleftrightarrow>
     (case k of
        Request_received h r \<Rightarrow> isl r
      | Argument_received h i name r \<Rightarrow> False
      | Result_received_for h i t r \<Rightarrow> owed d implementation tr i t r
      | _ \<Rightarrow> True)"

definition server_expects ::
  "interface_definition \<Rightarrow> phase \<Rightarrow> parser_type \<Rightarrow> (error_code + wire_value \<Rightarrow> 'h rpc_server_code) \<Rightarrow> bool"
  where
  "server_expects d ph p f \<longleftrightarrow>
     (\<exists>h i name k m. ph = Request_body i name \<and> find_method name (methods d) = Some (k, m) \<and>
       p = parser_type_of (get_parameter_type (parameters m)) \<and> f = Argument_received h i k)"

definition server_bodies ::
  "interface_definition \<Rightarrow> 'h rpc_server_code \<Rightarrow> (request_id \<times> ident \<times> wire_value list) list" where
  "server_bodies d k =
     (case k of
        Argument_received h i name (Inr v) \<Rightarrow> [(i, name, arguments_of d name v)]
      | Argument_unlocked h i name (Inr v) \<Rightarrow> [(i, name, arguments_of d name v)]
      | _ \<Rightarrow> [])"

definition server_consumed :: "'h rpc_server_event \<Rightarrow> (request_id \<times> ident \<times> wire_value list) list" where
  "server_consumed e = (case e of Implementation_called i name args \<Rightarrow> [(i, name, args)] | _ \<Rightarrow> [])"

text \<open>The call that a request message asks for.\<close>

definition requested_call :: "interface_definition \<Rightarrow> message \<Rightarrow> (request_id \<times> ident \<times> wire_value list) option" where
  "requested_call d m =
     (case m of
        Request_message i name p v \<Rightarrow>
          (case find_method name (methods d) of
             None \<Rightarrow> None
           | Some (k, m) \<Rightarrow> Some (i, k, arguments_of d k v))
      | _ \<Rightarrow> None)"

definition server_inv ::
  "(bytes \<Rightarrow> bool) \<Rightarrow> interface_definition \<Rightarrow> (ident \<Rightarrow> wire_value list \<Rightarrow> (error_code + wire_value) option) \<Rightarrow>
    'h rpc_server_event list \<Rightarrow> 'h rpc_server \<Rightarrow> bool" where
  "server_inv is_valid d implementation tr c \<longleftrightarrow>
     responding_inv is_valid tr c \<and>
     (\<forall>h i t r. (h, i, t) \<in> set (running c) \<longrightarrow> owed d implementation tr i t r) \<and>
     (\<forall>i t v. Responded i t v \<in> set tr \<longrightarrow> owed d implementation tr i t (Inr v))"

abbreviation "server_calm_call d implementation tr \<equiv> silent_call server_header_code (server_silent d implementation tr) (server_bodies d)"

lemma owed_mono: "owed d implementation tr i t r \<Longrightarrow> owed d implementation (tr @ es) i t r"
  by (auto simp: owed_def)

lemma server_calm_simps [simp]:
  "server_calm_call d implementation tr (Client_code k) \<longleftrightarrow> server_silent d implementation tr k"
  "server_calm_call d implementation tr (Wait_for_request (Request_received h))"
  by (auto simp: silent_call_def takes_request_def server_header_code_def server_silent_def server_bodies_def)

lemma server_code_step:
  assumes inv: "server_inv is_valid d implementation tr c" and k: "server_silent d implementation tr k \<or> server_header_code ph k \<or> server_body_code k"
    and run: "run_rpc_server is_valid d implementation react k c = Inr ((c', calls), es)"
  shows "server_inv is_valid d implementation (tr @ es) c' \<and>
    (server_silent d implementation tr k \<longrightarrow> list_all (server_calm_call d implementation (tr @ es)) calls)"
proof -
  from inv have responding: "responding_inv is_valid (tr @ es) c'"
    using responding_inv_step [OF _ run] by (simp add: server_inv_def)
  have old: "Responded i t v \<in> set tr \<Longrightarrow> owed d implementation (tr @ es) i t (Inr v)"
    "(h, i, t) \<in> set (running c) \<Longrightarrow> owed d implementation (tr @ es) i t r"
    "owed d implementation tr i t r \<Longrightarrow> owed d implementation (tr @ es) i t r" for h i t v r
    using inv owed_mono unfolding server_inv_def by blast+
  show ?thesis
  proof (cases k)
    case (Result_received_for h i t result)
    with k have owed: "owed d implementation tr i t result"
      by (auto simp: server_silent_def server_header_code_def server_body_code_def)
    from Result_received_for run have "result_received_for is_valid h i t result c = Inr ((c', calls), es)" by simp
    then show ?thesis
      by (cases rule: result_received_for_cases)
        (use old(3) [OF owed] old(1,2) responding in \<open>auto simp: server_inv_def server_silent_def\<close>)
  next
    case (Argument_unlocked h i name argument)
    show ?thesis
    proof (cases argument)
      case (Inl ec)
      with Argument_unlocked run inv responding show ?thesis
        by (auto simp: argument_unlocked_def server_inv_def server_silent_def)
    next
      case (Inr v)
      with Argument_unlocked run obtain m where m: "std_map_find name (methods d) = Some m"
        by (auto simp: argument_unlocked_def split: option.splits)
      define args where "args = move_arguments_out_of_tuple (length (parameters m)) v"
      have new: "owed d implementation (tr @ es) i (method_result m) r"
        if "es = [Implementation_called i name args]" "\<forall>r'. implementation name args = Some r' \<longrightarrow> r = r'" for r
        using that m unfolding owed_def by auto
      from Argument_unlocked Inr m run have "(\<exists>r. implementation name args = Some r \<and> c' = c \<and>
            calls = [Client_code (Result_received_for h i (method_result m) r)] \<or>
          implementation name args = None \<and> c' = c\<lparr>running := running c @ [(h, i, method_result m)]\<rparr> \<and> calls = []) \<and>
          es = [Implementation_called i name args]"
        by (auto simp: argument_unlocked_def args_def Let_def split: option.splits)
      with new old responding Argument_unlocked show ?thesis
        by (auto simp: server_inv_def server_silent_def)
    qed
  next
    case (Callback_invoked n result)
    from inv have "n < length (running c) \<Longrightarrow> running c ! n = (h, i, t) \<Longrightarrow> owed d implementation tr i t r" for h i t r
      unfolding server_inv_def by (metis nth_mem)
    moreover have "(h, i, t) \<in> set (take n (running c)) \<union> set (drop (Suc n) (running c)) \<Longrightarrow> owed d implementation tr i t r" for h i t r
      using inv unfolding server_inv_def by (auto dest!: in_set_takeD in_set_dropD)
    ultimately show ?thesis
      using Callback_invoked run inv responding
      by (auto simp: server_inv_def server_silent_def split: if_splits prod.splits)
  qed (use run inv responding old in \<open>auto simp: server_inv_def server_silent_def request_received_def list_all_iff
      and_then_Inr_iff with_replies_iff split: sum.splits option.splits prod.splits\<close>)
qed

lemma server_bodies_step:
  assumes "run_rpc_server is_valid d implementation react k c = Inr ((c', calls), es)"
  shows "mset (server_bodies d k) = mset (concat (map (call_bodies (server_bodies d)) calls)) +
    mset (concat (map server_consumed es))"
proof -
  have written [simp]: "server_consumed (Response_event e) = []" for e
    by (simp add: server_consumed_def)
  have handled: "concat (map (call_bodies (server_bodies d)) (map (\<lambda>h. Client_code (Handle_result h ec)) hs)) = []"
    "concat (map (call_bodies (server_bodies d)) (map (\<lambda>h. Client_code (Serve_one_request h)) hs)) = []" for hs ec
    by (induction hs) (simp_all add: call_bodies_def server_bodies_def)
  show ?thesis
  proof (cases k)
    case (Argument_received h i name r)
    with assms show ?thesis by (auto simp: call_bodies_def server_bodies_def)
  next
    case (Argument_unlocked h i name r)
    with assms show ?thesis
      by (cases r) (auto simp: argument_unlocked_def arguments_of_def Let_def call_bodies_def server_bodies_def
          server_consumed_def split: option.splits)
  next
    case (Result_received_for h i t result)
    with assms have "result_received_for is_valid h i t result c = Inr ((c', calls), es)" by simp
    then show ?thesis
      by (cases rule: result_received_for_cases)
        (use Result_received_for in \<open>auto simp: call_bodies_def server_bodies_def server_consumed_def\<close>)
  next
    case (Response_written ec)
    with assms obtain w hs cont ws where "write_finishes ec (replies c) = Inr ((w, hs, cont), ws)"
      "es = map Response_event ws" "calls = map (\<lambda>h. Client_code (Handle_result h ec)) hs @
        (if cont then [Client_code Continue_response] else [])"
      by (auto split: sum.splits prod.splits)
    with Response_written handled show ?thesis
      by (auto simp: call_bodies_def server_bodies_def)
  next
    case Continue_response
    with assms show ?thesis
      by (auto simp: and_then_Inr_iff with_replies_iff server_bodies_def)
  qed (use assms handled in \<open>auto simp: request_received_def call_bodies_def server_bodies_def server_consumed_def
      split: sum.splits option.splits prod.splits if_splits\<close>)
qed

interpretation server_protocol: message_client is_valid "run_rpc_server is_valid d implementation react"
  server_header_code server_body_code "server_silent d implementation" "\<lambda>tr. server_expects d" "server_inv is_valid d implementation"
  "\<lambda>e. False" "server_bodies d" server_consumed "\<lambda>tr m y. requested_call d m = Some y"
  for is_valid d implementation react
proof
  fix tr c k c' calls es ph
  assume inv: "server_inv is_valid d implementation tr c" and run: "run_rpc_server is_valid d implementation react k c = Inr ((c', calls), es)"
  then show "server_silent d implementation tr k \<or> server_header_code ph k \<or> server_body_code k \<Longrightarrow> server_inv is_valid d implementation (tr @ es) c'"
    and "server_silent d implementation tr k \<Longrightarrow> list_all (server_calm_call d implementation (tr @ es)) calls"
    using server_code_step by blast+
  show "server_header_code ph k \<Longrightarrow> \<exists>p f rest. calls = Lock_input # Parse_body p f # rest \<and>
      server_expects d ph p f \<and> list_all (server_calm_call d implementation (tr @ es)) rest"
    using run by (fastforce simp: server_header_code_def request_received_def server_expects_def
        split: option.splits prod.splits)
  show "server_body_code k \<Longrightarrow> \<exists>rest. calls = Unlock_input # rest \<and> list_all (server_calm_call d implementation (tr @ es)) rest"
    using run by (auto simp: server_body_code_def server_silent_def)
  show "mset (server_bodies d k) = mset (concat (map (call_bodies (server_bodies d)) calls)) +
      mset (concat (map server_consumed es))"
    by (rule server_bodies_step [OF run])
next
  show "server_body_code (f (Inr v)) \<and>
      (\<exists>y. server_bodies d (f (Inr v)) = [y] \<and> requested_call d (body_message ph p v) = Some y)"
    if "server_expects d ph p f" for ph p f v
    using that by (auto simp: server_expects_def server_body_code_def server_bodies_def requested_call_def
        body_message_def)
qed (auto simp: server_silent_def server_header_code_def server_body_code_def server_expects_def
    split: rpc_server_code.splits intro: owed_mono)

end
