(* ===== verification/Remote_Calls.thy ===== *)
theory Remote_Calls
  imports Server_Protocol "HOL-Library.Sublist"
begin

text \<open>
  A client and a server of the same interface, connected by two streams of octets: what the server
  does is what the client asked for, and the client gets what the implementation returned. The two
  machines run on their own; the streams are the hypothesis that what one side has received is a
  prefix of what the other side has given to its transport.
\<close>

subsection \<open>Interfaces\<close>

definition name_ok :: "(bytes \<Rightarrow> bool) \<Rightarrow> bytes \<Rightarrow> bool" where
  "name_ok is_valid name \<longleftrightarrow> length name < 256 \<and> (name = [] \<or> is_valid name)"

text \<open>
  The interfaces that the generated code handles: method names without NUL and of at most 255 octets,
  parameters with different names, and no empty tuple or structure inside another type.
\<close>

definition method_ok :: "(bytes \<Rightarrow> bool) \<Rightarrow> ident \<times> method_definition \<Rightarrow> bool" where
  "method_ok is_valid method \<longleftrightarrow>
     (case method of (name, m) \<Rightarrow>
        list_all (\<lambda>c. c \<noteq> CHR 0x00) name \<and> name_ok is_valid (c_str_range name) \<and>
        distinct (map parameter_name (parameters m)) \<and>
        (parameters m = [] \<or> wire_ok (get_parameter_type (parameters m))) \<and>
        (wire_ok (method_result m) \<or> method_result m = Tuple [] \<or> method_result m = Structure []))"

definition rpc_interface :: "(bytes \<Rightarrow> bool) \<Rightarrow> interface_definition \<Rightarrow> bool" where
  "rpc_interface is_valid d \<longleftrightarrow> interface_ok d \<and> list_all (method_ok is_valid) (methods d)"

lemma rpc_interface_method:
  assumes "rpc_interface is_valid d" and "std_map_find name (methods d) = Some m"
  shows "method_ok is_valid (name, m)"
  using assms by (auto simp: rpc_interface_def list_all_iff std_map_find_def dest: map_of_SomeD)

lemma of_char_u8_inj: "(of_char c :: u8) = of_char c' \<longleftrightarrow> c = c'"
proof -
  have "unat (of_char c :: u8) = of_char c" for c :: char
    using of_nat_inverse [of "of_char c" "of_char c :: u8"] nat_of_char_less_256 [of c] by (simp add: of_nat_of_char)
  then show ?thesis by (metis of_char_eq_iff)
qed

lemma c_str_range_inj:
  assumes "list_all (\<lambda>c. c \<noteq> CHR 0x00) name" and "list_all (\<lambda>c. c \<noteq> CHR 0x00) name'"
    and "c_str_range name = c_str_range name'"
  shows "name = name'"
proof -
  have "takeWhile (\<lambda>c. c \<noteq> CHR 0x00) name = name" "takeWhile (\<lambda>c. c \<noteq> CHR 0x00) name' = name'"
    using assms(1,2) by (simp_all add: list_all_iff takeWhile_eq_all_conv)
  with assms(3) have "map (of_char :: char \<Rightarrow> u8) name = map of_char name'"
    unfolding c_str_range_def by metis
  moreover have "inj (of_char :: char \<Rightarrow> u8)"
    by (rule injI) (simp only: of_char_u8_inj)
  ultimately show ?thesis by (simp only: inj_map_eq_map)
qed

lemma length_c_str_range: "list_all (\<lambda>c. c \<noteq> CHR 0x00) name \<Longrightarrow> length (c_str_range name) = length name"
  by (simp add: c_str_range_def list_all_iff takeWhile_eq_all_conv [THEN iffD2])

text \<open>The chain of comparisons in the server finds the method that was called.\<close>

lemma find_method_iff:
  assumes "rpc_interface is_valid d"
  shows "find_method (c_str_range name) (methods d) = Some (name', m) \<and> list_all (\<lambda>c. c \<noteq> CHR 0x00) name \<longleftrightarrow>
    name = name' \<and> std_map_find name (methods d) = Some m"
proof -
  have "distinct (map fst ms) \<Longrightarrow> list_all (\<lambda>(k, m). list_all (\<lambda>c. c \<noteq> CHR 0x00) k) ms \<Longrightarrow>
      find_method (c_str_range name) ms = Some (name', m) \<and> list_all (\<lambda>c. c \<noteq> CHR 0x00) name \<longleftrightarrow>
      name = name' \<and> std_map_find name ms = Some m" for ms
    by (induction ms) (auto simp: std_map_find_def dest: c_str_range_inj map_of_SomeD split: if_splits)
  moreover have "distinct (map fst (methods d))" "list_all (\<lambda>(k, m). list_all (\<lambda>c. c \<noteq> CHR 0x00) k) (methods d)"
    using assms by (auto simp: rpc_interface_def interface_ok_def std_map_ok_def std_map_keys_def method_ok_def
        list_all_iff strict_sorted_iff)
  ultimately show ?thesis by blast
qed

lemma find_method_name:
  assumes "rpc_interface is_valid d" and "find_method name (methods d) = Some (k, m)"
  shows "std_map_find k (methods d) = Some m"
proof -
  have "find_method name ms = Some (k, m) \<Longrightarrow> (k, m) \<in> set ms" for ms
    by (induction ms) (auto split: if_splits)
  moreover from assms(1) have "distinct (map fst (methods d))"
    by (simp add: rpc_interface_def interface_ok_def std_map_ok_def std_map_keys_def strict_sorted_iff)
  ultimately show ?thesis using assms(2) by (simp add: std_map_find_def map_of_is_SomeI)
qed

subsection \<open>The octets of requests and responses\<close>

text \<open>Values of types parsed on their own are prefix-free too.\<close>

lemma encode_alone_prefix_free:
  assumes "parsed_alone p" and "value_ok is_valid p v" "value_ok is_valid p w"
    and "encode p v @ xs = encode p w @ ys"
  shows "v = w \<and> xs = ys"
proof (cases "no_empty p")
  case True
  from byte_parser.encode_prefix_free [OF parser_class_contract [OF this] assms(2-4)] show ?thesis .
next
  case False
  with assms(1) have "takes_nothing p" by (simp add: parsed_alone_def)
  with assms(2-4) show ?thesis
    by (auto simp: takes_nothing_def tuple_valid_def tuple_encode_def is_V_tuple_def is_V_structure_def
        split: parser_type.splits)
qed

lemma serialize_tuple:
  assumes "length ts = length vs"
  shows "serialize is_valid (Tuple ts) (V_tuple vs) =
    in_sequence (map (\<lambda>(t, v). serialize is_valid t v) (zip ts vs))"
  using assms by (simp add: zip_map1 split_def comp_def)

lemma build_request_parts:
  assumes ok: "method_ok is_valid (name, m)" and args: "list_all2 (\<lambda>p v. has_type (parameter_type p) v) (parameters m) args"
    and built: "build_request is_valid name (parameters m) args = (w, Completed)"
  shows "\<exists>out. serialize is_valid (get_parameter_type (parameters m)) (V_tuple args) = (out, Completed) \<and>
    w = of_nat (length name) # c_str_range name @ out"
proof -
  let ?ps = "parameters m" and ?env = "map_of (zip (map parameter_name (parameters m)) args)"
  from args have len: "length ?ps = length args" by (rule list_all2_lengthD)
  have "exec_all is_valid (value_serialization (parameter_type p) (E_var (parameter_name p))) ?env =
      serialize is_valid (parameter_type p) v" if "(p, v) \<in> set (zip ?ps args)" for p v
  proof (rule value_serialization_correct)
    from that args show "has_type (parameter_type p) v"
      by (auto simp: list_all2_iff)
    from ok have "distinct (map parameter_name ?ps)" by (simp add: method_ok_def)
    moreover from that have "(parameter_name p, v) \<in> set (zip (map parameter_name ?ps) args)"
      by (force simp: in_set_zip)
    ultimately show "eval ?env (E_var (parameter_name p)) = Some v"
      using len by (simp add: map_of_is_SomeI)
  qed
  then have "map (\<lambda>p. exec_all is_valid (value_serialization (parameter_type p) (E_var (parameter_name p))) ?env) ?ps =
      map (\<lambda>(p, v). serialize is_valid (parameter_type p) v) (zip ?ps args)"
    using len by (intro nth_equalityI) (auto simp: set_zip)
  then have params: "exec_all is_valid
      (concat (map (\<lambda>p. value_serialization (parameter_type p) (E_var (parameter_name p))) ?ps)) ?env =
      serialize is_valid (get_parameter_type ?ps) (V_tuple args)"
    using len
    by (simp add: exec_all_concat comp_def get_parameter_type_def clone_id serialize_tuple zip_map1 split_def
        del: serialize.simps)
  with built show ?thesis by (auto simp: build_request_def split: prod.splits if_splits)
qed

lemma build_request_octets:
  assumes ok: "method_ok is_valid (name, m)" and args: "list_all2 (\<lambda>p v. has_type (parameter_type p) v) (parameters m) args"
    and built: "build_request is_valid name (parameters m) args = (w, Completed)"
  shows "w = write_integer (of_nat (length (c_str_range name)) :: u8) @ c_str_range name @
      encode (parser_type_of (get_parameter_type (parameters m))) (V_tuple args)"
    and "value_ok is_valid (parser_type_of (get_parameter_type (parameters m))) (V_tuple args)"
proof -
  let ?ps = "parameters m"
  from args have len: "length ?ps = length args" by (rule list_all2_lengthD)
  obtain out where out: "serialize is_valid (get_parameter_type ?ps) (V_tuple args) = (out, Completed)"
    and w: "w = of_nat (length name) # c_str_range name @ out"
    using build_request_parts [OF assms] by blast
  have "value_ok is_valid (parser_type_of (get_parameter_type ?ps)) (V_tuple args) \<and>
      out = encode (parser_type_of (get_parameter_type ?ps)) (V_tuple args)"
  proof (cases "?ps = []")
    case True
    with len out show ?thesis
      by (simp add: get_parameter_type_def tuple_valid_def tuple_encode_def)
  next
    case False
    with ok have "wire_ok (get_parameter_type ?ps)" by (simp add: method_ok_def)
    moreover have "has_type (get_parameter_type ?ps) (V_tuple args)"
      using args by (simp add: get_parameter_type_def clone_id list_all2_map1 comp_def)
    ultimately show ?thesis using serialize_encodes out by blast
  qed
  moreover have "write_integer (of_nat (length (c_str_range name)) :: u8) = [of_nat (length name)]"
    using ok length_c_str_range [of name] by (simp add: method_ok_def write_integer_def sizeof_def)
  ultimately show "w = write_integer (of_nat (length (c_str_range name)) :: u8) @ c_str_range name @
      encode (parser_type_of (get_parameter_type (parameters m))) (V_tuple args)"
    and "value_ok is_valid (parser_type_of (get_parameter_type (parameters m))) (V_tuple args)"
    using w by simp_all
qed

subsection \<open>Two readings of the same octets\<close>

text \<open>
  A message whose body has the type that its header announces. Such messages are prefix-free, so a
  receiver that has read some octets of a sequence of them has read its first messages.
\<close>

definition message_ok :: "(bytes \<Rightarrow> bool) \<Rightarrow> (phase \<Rightarrow> parser_type) \<Rightarrow> message \<Rightarrow> bool" where
  "message_ok is_valid announced m \<longleftrightarrow>
     (case m of
        Request_message i name p v \<Rightarrow>
          name_ok is_valid name \<and> p = announced (Request_body i name) \<and> parsed_alone p \<and> value_ok is_valid p v
      | Response_message i p v \<Rightarrow>
          p = announced (Response_body i) \<and> parsed_alone p \<and> value_ok is_valid p v)"

lemma message_kinds: "write_integer message_type_request = [0]" "write_integer message_type_response = [1]"
  by (simp_all add: write_integer_def sizeof_def message_type_request_def message_type_response_def)

lemma request_header_prefix_free:
  assumes "name_ok is_valid name" "name_ok is_valid name'"
    and "request_header i name @ xs = request_header i' name' @ ys"
  shows "i = i' \<and> name = name' \<and> xs = ys"
proof -
  let ?p = "P_tuple [P_integer Uint64, P_utf8 Uint8]"
  have "no_empty ?p" by code_simp
  from byte_parser.encode_prefix_free [OF parser_class_contract [OF this],
      of is_valid "V_tuple [V_uint64 i, V_string name]" "V_tuple [V_uint64 i', V_string name']" xs ys] assms
  show ?thesis
    unfolding header_values header_encodings by (simp add: name_ok_def request_header_def)
qed

lemma response_header_prefix_free:
  assumes "response_header i @ xs = response_header i' @ ys"
  shows "i = i' \<and> xs = ys"
proof -
  have "no_empty (P_integer Uint64)" by code_simp
  from byte_parser.encode_prefix_free [OF parser_class_contract [OF this], of "\<lambda>_. True" "V_uint64 i" "V_uint64 i'" xs ys] assms
  show ?thesis
    unfolding header_values header_encodings by (simp add: response_header_def)
qed

lemma message_octets_prefix_free:
  assumes "message_ok is_valid announced m" "message_ok is_valid announced n"
    and eq: "message_octets m @ xs = message_octets n @ ys"
  shows "m = n \<and> xs = ys"
proof (cases m; cases n)
  fix i name p v i' name' p' v'
  assume m: "m = Request_message i name p v" "n = Request_message i' name' p' v'"
  with assms request_header_prefix_free [of is_valid name name' i "encode p v @ xs" i' "encode p' v' @ ys"]
  have "i = i'" "name = name'" "encode p v @ xs = encode p' v' @ ys"
    by (simp_all add: message_ok_def)
  with m assms encode_alone_prefix_free [of p is_valid v v' xs ys] show ?thesis by (auto simp: message_ok_def)
next
  fix i p v i' p' v'
  assume m: "m = Response_message i p v" "n = Response_message i' p' v'"
  with eq response_header_prefix_free [of i "encode p v @ xs" i' "encode p' v' @ ys"]
  have "i = i'" "encode p v @ xs = encode p' v' @ ys" by simp_all
  with m assms encode_alone_prefix_free [of p is_valid v v' xs ys] show ?thesis by (auto simp: message_ok_def)
qed (use eq in \<open>auto simp: request_header_def response_header_def message_kinds\<close>)

lemma messages_prefix:
  assumes "list_all (message_ok is_valid announced) ms" "list_all (message_ok is_valid announced) ns"
    and "prefix (concat (map message_octets ms)) (concat (map message_octets ns))"
  shows "prefix ms ns"
  using assms
proof (induction ms arbitrary: ns)
  case (Cons m ms)
  have "message_octets m \<noteq> []"
    by (cases m) (simp_all add: request_header_def response_header_def message_kinds)
  with Cons.prems(3) obtain n ns' where ns: "ns = n # ns'" by (cases ns) auto
  from Cons.prems(3) obtain zs where
    "message_octets m @ concat (map message_octets ms) @ zs = message_octets n @ concat (map message_octets ns')"
    unfolding ns prefix_def by auto
  with message_octets_prefix_free [of is_valid announced m n] Cons.prems(1,2) ns
  have "m = n \<and> concat (map message_octets ms) @ zs = concat (map message_octets ns')" by simp
  then have "m = n" "prefix (concat (map message_octets ms)) (concat (map message_octets ns'))"
    by (auto simp: prefix_def dest: sym)
  with Cons.IH [of ns'] Cons.prems ns show ?case by simp
qed simp

subsection \<open>The two machines\<close>

text \<open>An invariant of the client's part of a connection that each piece of its code keeps.\<close>

lemma client_part_step:
  assumes inv: "P (client_events tr) (client c)" and step: "connection_step is_valid client_code c i = Inr (c', es)"
    and code: "\<And>k calls es' st. P (client_events tr) (client c) \<Longrightarrow> client_code k (client c) = Inr ((st, calls), es') \<Longrightarrow>
      P (client_events tr @ es') st"
  shows "P (client_events (tr @ es)) (client c')"
  using step by (cases rule: connection_step_cases) (use inv code in \<open>auto simp: push_tasks_iff\<close>)

interpretation rpc_client_machine: traced_invariant "rpc_client_step is_valid d react"
  "\<lambda>tr c. sending_inv is_valid d (client_events tr) (client c) \<and> client_protocol.grammar_inv is_valid d tr c \<and>
     frame_inv is_valid (splitter_events tr) (splitter c)"
  for is_valid d react
proof
  fix tr c i c' es
  assume inv: "sending_inv is_valid d (client_events tr) (client c) \<and> client_protocol.grammar_inv is_valid d tr c \<and>
      frame_inv is_valid (splitter_events tr) (splitter c)"
    and step: "rpc_client_step is_valid d react c i = Inr (c', es)"
  then have step': "connection_step is_valid (run_rpc_client is_valid d react) c (rpc_client_input_of i) = Inr (c', es)"
    by (simp add: rpc_client_step_def)
  have "client_protocol.calm_input (rpc_client_input_of i)"
    by (cases i) (simp_all add: client_protocol.calm_input_def client_silent_def client_bodies_def)
  moreover have "sending_inv is_valid d (client_events (tr @ es)) (client c')"
    by (rule client_part_step [OF _ step']) (use inv in \<open>blast intro: sending_inv_step\<close>)+
  ultimately
  show "sending_inv is_valid d (client_events (tr @ es)) (client c') \<and>
      client_protocol.grammar_inv is_valid d (tr @ es) c' \<and>
      frame_inv is_valid (splitter_events (tr @ es)) (splitter c')"
    using inv step' client_protocol.grammar_step connection_frame_step by blast
qed

interpretation rpc_server_machine: traced_invariant "rpc_server_step is_valid d implementation react"
  "\<lambda>tr c. responding_inv is_valid (client_events tr) (client c) \<and>
     server_protocol.grammar_inv d implementation is_valid tr c \<and> frame_inv is_valid (splitter_events tr) (splitter c)"
  for is_valid d implementation react
proof
  fix tr c i c' es
  assume inv: "responding_inv is_valid (client_events tr) (client c) \<and>
      server_protocol.grammar_inv d implementation is_valid tr c \<and> frame_inv is_valid (splitter_events tr) (splitter c)"
    and step: "rpc_server_step is_valid d implementation react c i = Inr (c', es)"
  then have step': "connection_step is_valid (run_rpc_server is_valid d implementation react) c (rpc_server_input_of i) =
      Inr (c', es)"
    by (simp add: rpc_server_step_def)
  have "server_protocol.calm_input d implementation (rpc_server_input_of i)"
    by (cases i) (simp_all add: server_protocol.calm_input_def server_silent_def server_bodies_def)
  moreover have "responding_inv is_valid (client_events (tr @ es)) (client c')"
    by (rule client_part_step [OF _ step']) (use inv in \<open>blast intro: responding_inv_step\<close>)+
  ultimately
  show "responding_inv is_valid (client_events (tr @ es)) (client c') \<and>
      server_protocol.grammar_inv d implementation is_valid (tr @ es) c' \<and>
      frame_inv is_valid (splitter_events (tr @ es)) (splitter c')"
    using inv step' server_protocol.grammar_step connection_frame_step by blast
qed

lemma rpc_client_facts:
  assumes "rpc_client_run is_valid d react inputs = Inr (c :: 'h rpc_client_connection, tr)"
  shows "sending_inv is_valid d (client_events tr) (client c)" and "client_protocol.grammar_inv is_valid d tr c"
    and "frame_inv is_valid (splitter_events tr) (splitter c)"
proof -
  have "client_inv is_valid d [] (rpc_client_init :: 'h rpc_client)"
    unfolding client_inv_def
    by (intro conjI sending_inv_init)
      (simp add: registering_inv_def rpc_client_init_def registry_init_def std_map_ok_def std_map_keys_def)
  then have "sending_inv is_valid d (client_events []) (client (connection_init (rpc_client_init :: 'h rpc_client))) \<and>
      client_protocol.grammar_inv is_valid d [] (connection_init (rpc_client_init :: 'h rpc_client)) \<and>
      frame_inv is_valid (splitter_events []) (splitter (connection_init (rpc_client_init :: 'h rpc_client)))"
    using client_protocol.grammar_init [of is_valid d rpc_client_init]
    by (simp add: client_inv_def frame_inv_init connection_init_def)
  from rpc_client_machine.inv_run [OF this assms] show
    "sending_inv is_valid d (client_events tr) (client c)" and "client_protocol.grammar_inv is_valid d tr c"
    and "frame_inv is_valid (splitter_events tr) (splitter c)" by simp_all
qed

lemma rpc_server_facts:
  assumes "rpc_server_run is_valid d implementation react inputs = Inr (c :: 'h rpc_server_connection, tr)"
  shows "responding_inv is_valid (client_events tr) (client c)"
    and "server_protocol.grammar_inv d implementation is_valid tr c"
    and "frame_inv is_valid (splitter_events tr) (splitter c)"
proof -
  have "server_inv is_valid d implementation [] (rpc_server_init :: 'h rpc_server)"
    by (simp add: server_inv_def responding_inv_def rpc_server_init_def buffered_writer_init_def appended_def started_def)
  then have "responding_inv is_valid (client_events []) (client (connection_init (rpc_server_init :: 'h rpc_server))) \<and>
      server_protocol.grammar_inv d implementation is_valid [] (connection_init (rpc_server_init :: 'h rpc_server)) \<and>
      frame_inv is_valid (splitter_events []) (splitter (connection_init (rpc_server_init :: 'h rpc_server)))"
    using server_protocol.grammar_init [of is_valid d implementation rpc_server_init]
    by (simp add: server_inv_def frame_inv_init connection_init_def)
  from rpc_server_machine.inv_run [OF this assms] show
    "responding_inv is_valid (client_events tr) (client c)"
    and "server_protocol.grammar_inv d implementation is_valid tr c"
    and "frame_inv is_valid (splitter_events tr) (splitter c)" by simp_all
qed

subsection \<open>Requests\<close>

definition announced_arguments :: "interface_definition \<Rightarrow> phase \<Rightarrow> parser_type" where
  "announced_arguments d ph =
     (case ph of
        Request_body i name \<Rightarrow>
          (case find_method name (methods d) of
             None \<Rightarrow> P_tuple []
           | Some (k, m) \<Rightarrow> parser_type_of (get_parameter_type (parameters m)))
      | _ \<Rightarrow> P_tuple [])"

definition request_message :: "interface_definition \<Rightarrow> request_id \<times> ident \<times> wire_value list \<Rightarrow> message" where
  "request_message d request =
     (case request of (i, name, args) \<Rightarrow>
        Request_message i (c_str_range name)
          (parser_type_of (get_parameter_type (parameters (the (std_map_find name (methods d)))))) (V_tuple args))"

lemma parsed_alone_arguments:
  assumes "method_ok is_valid (name, m)"
  shows "parsed_alone (parser_type_of (get_parameter_type (parameters m)))"
proof (cases "parameters m = []")
  case True
  then show ?thesis by (simp add: get_parameter_type_def parsed_alone_def takes_nothing_def)
next
  case False
  with assms have "wire_ok (get_parameter_type (parameters m))" by (simp add: method_ok_def)
  then show ?thesis by (simp add: parsed_alone_def wire_ok_no_empty)
qed

lemma request_ok_message:
  assumes d: "rpc_interface is_valid d" and ok: "request_ok is_valid d r"
  shows "request_octets is_valid d r = message_octets (request_message d r)"
    and "message_ok is_valid (announced_arguments d) (request_message d r)"
    and "requested_call d (request_message d r) = Some r"
proof -
  obtain i name args where r: "r = (i, name, args)" by (cases r)
  with ok obtain m w where m: "std_map_find name (methods d) = Some m"
    and args: "list_all2 (\<lambda>p v. has_type (parameter_type p) v) (parameters m) args"
    and built: "build_request is_valid name (parameters m) args = (w, Completed)"
    by (cases "build_request is_valid name (parameters (the (std_map_find name (methods d)))) args")
      (auto simp: request_ok_def split: option.splits)
  note callable = rpc_interface_method [OF d m]
  note octets = build_request_octets [OF callable args built]
  from find_method_iff [OF d, of name name m] m
  have find: "find_method (c_str_range name) (methods d) = Some (name, m)" by simp
  show "request_octets is_valid d r = message_octets (request_message d r)"
    using r m built octets(1) by (simp add: request_octets_def request_message_def request_header_def)
  show "message_ok is_valid (announced_arguments d) (request_message d r)"
    using r m find callable octets(2) parsed_alone_arguments [OF callable]
    by (simp add: message_ok_def announced_arguments_def request_message_def method_ok_def)
  show "requested_call d (request_message d r) = Some r"
    using r m find list_all2_lengthD [OF args]
    by (simp add: requested_call_def request_message_def arguments_of_def move_arguments_out_of_tuple_def map_nth)
qed

text \<open>The names in the headers that were read are those of well-formed headers.\<close>

lemma header_name_ok:
  assumes "fits tr ph q" and "value_ok is_valid q w" and "fst (deliver q w ph) = Request_body i name"
    and fits: "\<And>t. fits tr (Header_next t) q \<Longrightarrow> t = message_type_response \<or> q = P_tuple [P_integer Uint64, P_utf8 Uint8]"
  shows "name_ok is_valid name"
proof -
  from assms obtain t where ph: "ph = Header_next t" "t \<noteq> message_type_response" and name: "request_of_value w = (i, name)"
    by (cases ph) (auto split: if_splits prod.splits)
  with assms(1) fits have q: "q = P_tuple [P_integer Uint64, P_utf8 Uint8]" by blast
  from assms(2) obtain a b where w: "w = V_tuple [a, b]" "value_ok is_valid (P_utf8 Uint8) b"
    unfolding q by (cases w) (auto simp: tuple_valid_def list_all2_Cons1 simp del: value_ok.simps(1,5))
  then show ?thesis
    using name by (cases b) (auto simp: request_of_value_def name_ok_def utf8_valid_def size_fits_def)
qed

lemma header_names:
  assumes "server_protocol.well_parsed d tr ph es" and "Request_message i name p v \<in> set (messages_from ph es)"
    and "\<And>p v. Delivered p v \<in> set es \<Longrightarrow> value_ok is_valid p v"
    and "\<And>i name. ph = Request_body i name \<Longrightarrow> name_ok is_valid name"
  shows "name_ok is_valid name"
  using assms
proof (induction es arbitrary: ph)
  case (Cons e es)
  show ?case
  proof (cases "\<exists>q w. e = Delivered q w")
    case True
    then obtain q w where e: "e = Delivered q w" by blast
    with Cons.prems have "value_ok is_valid q w" "server_protocol.fits d tr ph q" by auto
    then have next_name: "name_ok is_valid name'" if "fst (deliver q w ph) = Request_body i' name'" for i' name'
      using header_name_ok [of "server_protocol.fits d" tr ph q is_valid w] that by auto
    from Cons.prems(2) e consider "Request_message i name p v \<in> set (snd (deliver q w ph))"
      | "Request_message i name p v \<in> set (messages_from (fst (deliver q w ph)) es)" by auto
    then show ?thesis
    proof cases
      case 1
      with Cons.prems(4) show ?thesis by (cases ph) (auto split: prod.splits)
    next
      case 2
      show ?thesis
        by (rule Cons.IH [OF _ 2]) (use Cons.prems e next_name in auto)
    qed
  next
    case False
    with Cons show ?thesis by (cases e) auto
  qed
qed simp

text \<open>What a server has read of the octets that a client has sent.\<close>

lemma server_messages_ok:
  assumes d: "rpc_interface is_valid d"
    and server: "rpc_server_run is_valid d implementation react inputs = Inr (s, trs)"
    and clean: "clean (splitter_events trs)"
  shows "list_all (message_ok is_valid (announced_arguments d)) (messages_of (splitter_events trs))"
proof -
  let ?ms = "messages_of (splitter_events trs)" and ?cs = "client_events trs"
  note facts = rpc_server_facts [OF server]
  from facts(3) clean have delivered: "Delivered p v \<in> set (splitter_events trs) \<Longrightarrow> value_ok is_valid p v" for p v
    by (auto simp: frame_inv_def framed_def)
  from facts(2) clean have parsed: "server_protocol.well_parsed d ?cs Between (splitter_events trs)"
    by (simp add: server_protocol.grammar_inv_def list_ex_iff)
  have "message_ok is_valid (announced_arguments d) m" if "m \<in> set ?ms" for m
  proof (cases m)
    case (Request_message i name p v)
    with that have m: "Request_message i name p v \<in> set ?ms" by simp
    from server_protocol.body_announced(1) [OF parsed m] obtain k m' where
      find: "find_method name (methods d) = Some (k, m')" "p = parser_type_of (get_parameter_type (parameters m'))"
      by (auto simp: server_expects_def)
    moreover from find_method_name [OF d find(1)] have "method_ok is_valid (k, m')"
      by (rule rpc_interface_method [OF d])
    moreover from header_names [OF parsed m delivered] have "name_ok is_valid name" by simp
    moreover from message_delivered(1) [OF m] delivered have "value_ok is_valid p v" by blast
    ultimately show ?thesis
      using Request_message parsed_alone_arguments by (auto simp: message_ok_def announced_arguments_def)
  next
    case (Response_message i p v)
    with that server_protocol.body_announced(2) [OF parsed] show ?thesis by (auto simp: server_expects_def)
  qed
  then show ?thesis by (simp add: list_all_iff)
qed

lemma server_messages:
  assumes d: "rpc_interface is_valid d"
    and server: "rpc_server_run is_valid d implementation react inputs = Inr (s, trs)"
    and clean: "clean (splitter_events trs)"
    and ok: "list_all (request_ok is_valid d) rs"
    and octets: "prefix (received (splitter_events trs)) (concat (map (request_octets is_valid d) rs))"
  shows "\<exists>read. prefix read rs \<and> map (requested_call d) (messages_of (splitter_events trs)) = map Some read"
proof -
  let ?ms = "messages_of (splitter_events trs)"
  note facts = rpc_server_facts [OF server]
  note ms = server_messages_ok [OF d server clean]
  have made: "list_all (message_ok is_valid (announced_arguments d)) (map (request_message d) rs)"
    "map (request_octets is_valid d) rs = map message_octets (map (request_message d) rs)"
    "map (requested_call d) (map (request_message d) rs) = map Some rs"
    using ok request_ok_message [OF d] by (auto simp: list_all_iff)
  from server_protocol.grammar_frames [OF facts(2,3) clean] obtain rest where
    "received (splitter_events trs) = concat (map message_octets ?ms) @ rest" by (auto simp: list_ex_iff)
  with octets made(2) have "prefix (concat (map message_octets ?ms)) (concat (map message_octets (map (request_message d) rs)))"
    by (metis append_prefixD)
  from messages_prefix [OF ms made(1) this] obtain ns where "map (request_message d) rs = ?ms @ ns"
    by (auto simp: prefix_def)
  then have "map (requested_call d) ?ms @ map (requested_call d) ns = map Some rs" using made(3) by (metis map_append)
  then have "map (requested_call d) ?ms = map Some (take (length ?ms) rs)"
    by (metis append_eq_conv_conj length_map take_map)
  then show ?thesis using take_is_prefix by blast
qed

text \<open>The calls that a server has made of the requests it has read.\<close>

lemma rel_mset_image:
  assumes "rel_mset (\<lambda>m y. f m = Some y) M N"
  shows "image_mset f M = image_mset Some N"
proof -
  from assms obtain ms ys where m: "mset ms = M" "mset ys = N" "list_all2 (\<lambda>m y. f m = Some y) ms ys"
    by (auto simp: rel_mset_def)
  from m(3) have "map f ms = map Some ys" by induction simp_all
  with m(1,2) show ?thesis by (metis mset_map)
qed

lemma server_calls_held:
  assumes "rpc_server_run is_valid d implementation react inputs = Inr (s, trs)" and "clean (splitter_events trs)"
    and "map (requested_call d) (messages_of (splitter_events trs)) = map Some read"
  shows "mset read = mset (server_protocol.held d (tasks s) @ calls_made (client_events trs))"
proof -
  from rpc_server_facts(2) [OF assms(1)] assms(2)
  have "rel_mset (\<lambda>m y. requested_call d m = Some y) (mset (messages_of (splitter_events trs)))
      (mset (server_protocol.held d (tasks s) @ concat (map server_consumed (client_events trs))))"
    by (simp add: server_protocol.grammar_inv_def list_ex_iff)
  from rel_mset_image [OF this] assms(3)
  have "image_mset Some (mset read) =
      image_mset Some (mset (server_protocol.held d (tasks s) @ concat (map server_consumed (client_events trs))))"
    by (metis mset_map)
  then have "mset read = mset (server_protocol.held d (tasks s) @ concat (map server_consumed (client_events trs)))"
    using multiset.inj_map [OF inj_Some, THEN injD] by blast
  moreover have "concat (map server_consumed es) = calls_made es" for es :: "'a rpc_server_event list"
    by (simp add: calls_made_def server_consumed_def [abs_def])
  ultimately show ?thesis by simp
qed

lemma server_calls:
  assumes "rpc_server_run is_valid d implementation react inputs = Inr (s, trs)" and "clean (splitter_events trs)"
    and "map (requested_call d) (messages_of (splitter_events trs)) = map Some read"
  shows "mset (calls_made (client_events trs)) \<subseteq># mset read"
  using server_calls_held [OF assms] by simp

text \<open>What a client has sent, when every request could be written.\<close>

lemma client_sent:
  assumes "rpc_client_run is_valid d react inputs = Inr (c, trc)"
    and "all_requests_built (client_events trc)"
    and "prefix bs (started (request_events (client_events trc)))"
  shows "list_all (request_ok is_valid d) (requests_made (client_events trc))"
    and "prefix bs (concat (map (request_octets is_valid d) (requests_made (client_events trc))))"
  using rpc_client_facts(1) [OF assms(1)] assms(2,3)
  by (auto simp: sending_inv_def intro: prefix_order.trans)

lemma calls_requested:
  assumes "rpc_interface is_valid d" and "rpc_client_run is_valid d react inputs = Inr (c, trc)"
    and "rpc_server_run is_valid d implementation reacts inputs' = Inr (s, trs)"
    and "all_requests_built (client_events trc)" and "clean (splitter_events trs)"
    and "prefix (received (splitter_events trs)) (started (request_events (client_events trc)))"
  shows "\<exists>read. prefix read (requests_made (client_events trc)) \<and> mset (calls_made (client_events trs)) \<subseteq># mset read \<and>
    map (requested_call d) (messages_of (splitter_events trs)) = map Some read"
proof -
  note sent = client_sent [OF assms(2,4,6)]
  from server_messages [OF assms(1,3,5) sent] obtain read where
    "prefix read (requests_made (client_events trc))"
    "map (requested_call d) (messages_of (splitter_events trs)) = map Some read" by blast
  with server_calls [OF assms(3,5)] show ?thesis by blast
qed

lemma calls_subset:
  assumes "prefix read rs" and "mset cs \<subseteq># mset read"
  shows "set cs \<subseteq> set rs"
  using set_mono_prefix [OF assms(1)] set_mset_mono [OF assms(2)] by simp

subsection \<open>Responses\<close>

definition announced_result ::
  "interface_definition \<Rightarrow> (request_id \<times> ident \<times> wire_value list) list \<Rightarrow> phase \<Rightarrow> parser_type" where
  "announced_result d rs ph =
     (case ph of
        Response_body i \<Rightarrow>
          (case map_of rs i of
             None \<Rightarrow> P_tuple []
           | Some (name, args) \<Rightarrow> parser_type_of (method_result (the (std_map_find name (methods d)))))
      | _ \<Rightarrow> P_tuple [])"

definition response_message :: "request_id \<times> wire_type \<times> wire_value \<Rightarrow> message" where
  "response_message response = (case response of (i, t, v) \<Rightarrow> Response_message i (parser_type_of t) v)"

lemma parsed_alone_result:
  assumes "method_ok is_valid (name, m)"
  shows "parsed_alone (parser_type_of (method_result m))"
proof -
  from assms consider "wire_ok (method_result m)" | "method_result m = Tuple []" | "method_result m = Structure []"
    by (auto simp: method_ok_def)
  then show ?thesis by cases (simp_all add: parsed_alone_def wire_ok_no_empty takes_nothing_def)
qed

lemma response_octets_message:
  assumes m: "method_ok is_valid (name, m)" and ok: "response_ok is_valid (i, method_result m, v)"
  shows "response_octets is_valid (i, method_result m, v) = message_octets (response_message (i, method_result m, v))"
    and "value_ok is_valid (parser_type_of (method_result m)) v"
proof -
  let ?t = "method_result m"
  have "value_ok is_valid (parser_type_of ?t) v \<and> fst (serialized_result is_valid ?t v) = encode (parser_type_of ?t) v"
  proof (cases "wire_ok ?t")
    case True
    then have "type_emptiness_of ?t = Non_empty"
      by (cases ?t) (auto simp: type_emptiness_of_def)
    moreover have "eval [''result.get()'' \<mapsto> v] (E_var ''result.get()'') = Some v" by simp
    ultimately have "serialized_result is_valid ?t v = serialize is_valid ?t v"
      using ok value_serialization_correct [of ?t v "[''result.get()'' \<mapsto> v]" "E_var ''result.get()''" is_valid]
      by (simp add: serialized_result_def response_ok_def)
    with ok serialize_encodes [OF True, of v is_valid] show ?thesis
      by (cases "serialize is_valid ?t v") (auto simp: response_ok_def)
  next
    case False
    with m have "?t = Tuple [] \<or> ?t = Structure []" by (auto simp: method_ok_def)
    with ok show ?thesis
      by (auto simp: serialized_result_def type_emptiness_of_def response_ok_def tuple_valid_def tuple_encode_def)
  qed
  then show "response_octets is_valid (i, ?t, v) = message_octets (response_message (i, ?t, v))"
    and "value_ok is_valid (parser_type_of ?t) v"
    by (simp_all add: response_octets_def response_message_def response_header_def)
qed

lemma request_ids_distinct:
  assumes "map fst (rs :: (request_id \<times> 'a) list) = map of_nat [0..<length rs]" and "length rs \<le> 2 ^ 64"
  shows "distinct (map fst rs)"
proof -
  have "unat (of_nat a :: request_id) = a" if "a < length rs" for a
    using that assms(2) by (simp add: unsigned_of_nat take_bit_nat_eq_self)
  then have "inj_on (of_nat :: nat \<Rightarrow> request_id) {0..<length rs}"
    by (intro inj_on_inverseI [where g = unat]) simp
  with assms(1) show ?thesis by (simp add: distinct_map)
qed

text \<open>The events behind the lists.\<close>

lemma in_trace_lists:
  "(i, name, args) \<in> set (requests_made tr) \<longleftrightarrow> (\<exists>h. Requested i name args h \<in> set tr)"
  "(i, name, args) \<in> set (calls_made tr') \<longleftrightarrow> Implementation_called i name args \<in> set tr'"
  "(i, t, v) \<in> set (responses_made tr') \<longleftrightarrow> Responded i t v \<in> set tr'"
  by (force simp: requests_made_def calls_made_def responses_made_def
      split: rpc_client_event.splits rpc_server_event.splits)+

text \<open>What the server has responded to calls that were requested.\<close>

lemma responses_ok:
  assumes d: "rpc_interface is_valid d"
    and server: "rpc_server_run is_valid d implementation reacts inputs' = Inr (s, trs)"
    and clean: "clean (splitter_events trs)" and built: "all_responses_built (client_events trs)"
    and calls: "set (calls_made (client_events trs)) \<subseteq> set rs" and ids: "distinct (map fst rs)"
  shows "list_all (message_ok is_valid (announced_result d rs)) (map response_message (responses_made (client_events trs)))"
    and "appended (response_events (client_events trs)) =
      concat (map message_octets (map response_message (responses_made (client_events trs))))"
proof -
  let ?rs = "responses_made (client_events trs)"
  note facts = rpc_server_facts [OF server]
  from facts(2) clean have inv: "server_inv is_valid d implementation (client_events trs) (client s)"
    by (simp add: server_protocol.grammar_inv_def list_ex_iff)
  have each: "message_ok is_valid (announced_result d rs) (response_message r) \<and>
      response_octets is_valid r = message_octets (response_message r)" if "r \<in> set ?rs" for r
  proof -
    obtain i t v where r: "r = (i, t, v)" by (cases r)
    from facts(1) built that have ok: "response_ok is_valid (i, t, v)"
      by (auto simp: responding_inv_def list_all_iff r)
    from that have "Responded i t v \<in> set (client_events trs)" by (simp add: r in_trace_lists)
    with inv have "owed d implementation (client_events trs) i t (Inr v)" by (simp add: server_inv_def)
    then obtain name args m where "Implementation_called i name args \<in> set (client_events trs)"
      and m: "std_map_find name (methods d) = Some m" "t = method_result m" by (auto simp: owed_def)
    with calls have "(i, name, args) \<in> set rs" using in_trace_lists(2) by blast
    with ids have "map_of rs i = Some (name, args)" by simp
    moreover note callable = rpc_interface_method [OF d m(1)]
    moreover note response_octets_message [OF callable ok [unfolded m(2)]] parsed_alone_result [OF callable]
    ultimately show ?thesis
      using r m by (simp add: message_ok_def response_message_def announced_result_def)
  qed
  then show "list_all (message_ok is_valid (announced_result d rs)) (map response_message ?rs)"
    by (simp add: list_all_iff)
  have "map (response_octets is_valid) ?rs = map message_octets (map response_message ?rs)"
    using each by simp
  moreover from facts(1) built have "appended (response_events (client_events trs)) =
      concat (map (response_octets is_valid) ?rs)"
    unfolding responding_inv_def by blast
  ultimately show "appended (response_events (client_events trs)) =
      concat (map message_octets (map response_message ?rs))" by (simp only:)
qed

text \<open>What the client has read.\<close>

lemma client_messages_ok:
  assumes d: "rpc_interface is_valid d" and client: "rpc_client_run is_valid d react inputs = Inr (c, trc)"
    and clean: "clean (splitter_events trc)" and lost: "\<not> list_ex client_lost (client_events trc)"
    and ids: "distinct (map fst (requests_made (client_events trc)))"
  shows "list_all (message_ok is_valid (announced_result d (requests_made (client_events trc))))
    (messages_of (splitter_events trc))"
proof -
  note facts = rpc_client_facts [OF client]
  from facts(3) clean obtain partial where "framed is_valid (splitter_events trc) (splitter c) partial"
    by (auto simp: frame_inv_def)
  then have delivered: "Delivered p v \<in> set (splitter_events trc) \<Longrightarrow> value_ok is_valid p v" for p v
    by (simp add: framed_def)
  from facts(2) clean lost have inv: "registering_inv d (client_events trc) (client c)"
    and parsed: "client_protocol.well_parsed (client_events trc) Between (splitter_events trc)"
    by (simp_all add: client_protocol.grammar_inv_def client_inv_def)
  have "message_ok is_valid (announced_result d (requests_made (client_events trc))) n"
    if "n \<in> set (messages_of (splitter_events trc))" for n
  proof (cases n)
    case (Request_message i name p v)
    with that client_protocol.body_announced(1) [OF parsed] show ?thesis by (auto simp: client_expects_def)
  next
    case (Response_message i p v)
    with that have n: "Response_message i p v \<in> set (messages_of (splitter_events trc))" by simp
    from client_protocol.body_announced(2) [OF parsed n] obtain h where
      "Registry_event (Expected i p h) \<in> set (client_events trc)" by (auto simp: client_expects_def)
    with inv obtain name args m where "Requested i name args h \<in> set (client_events trc)"
      and m: "std_map_find name (methods d) = Some m" "p = parser_type_of (method_result m)"
      unfolding registering_inv_def by blast
    then have "(i, name, args) \<in> set (requests_made (client_events trc))" using in_trace_lists(1) by blast
    with ids have "map_of (requests_made (client_events trc)) i = Some (name, args)" by simp
    moreover from message_delivered(2) [OF n] delivered have "value_ok is_valid p v" by blast
    moreover note parsed_alone_result [OF rpc_interface_method [OF d m(1)]]
    ultimately show ?thesis
      using Response_message m by (simp add: message_ok_def announced_result_def)
  qed
  then show ?thesis by (simp add: list_all_iff)
qed

text \<open>Two ends of a connection: what one has received is a prefix of what the other has sent.\<close>

definition connected ::
  "'h rpc_client_trace \<Rightarrow> 'k rpc_server_trace \<Rightarrow> bool" where
  "connected trc trs \<longleftrightarrow>
     prefix (received (splitter_events trs)) (started (request_events (client_events trc))) \<and>
     prefix (received (splitter_events trc)) (started (response_events (client_events trs)))"

lemma client_read_responses:
  assumes d: "rpc_interface is_valid d" and client: "rpc_client_run is_valid d react inputs = Inr (c, trc)"
    and server: "rpc_server_run is_valid d implementation reacts inputs' = Inr (s, trs)"
    and connected: "connected trc trs"
    and client_ok: "all_requests_built (client_events trc)" "clean (splitter_events trc)"
      "\<not> list_ex client_lost (client_events trc)" "length (requests_made (client_events trc)) \<le> 2 ^ 64"
    and server_ok: "all_responses_built (client_events trs)" "clean (splitter_events trs)"
  shows "prefix (messages_of (splitter_events trc)) (map response_message (responses_made (client_events trs)))"
proof -
  note facts = rpc_client_facts [OF client]
  from facts(1) client_ok(4) have ids: "distinct (map fst (requests_made (client_events trc)))"
    by (intro request_ids_distinct) (simp_all add: sending_inv_def)
  from connected calls_requested [OF d client server client_ok(1) server_ok(2)] obtain ready where
    "prefix ready (requests_made (client_events trc))" "mset (calls_made (client_events trs)) \<subseteq># mset ready"
    unfolding connected_def by blast
  then have "set (calls_made (client_events trs)) \<subseteq> set (requests_made (client_events trc))" by (rule calls_subset)
  note responses = responses_ok [OF d server server_ok(2,1) this ids]
  from rpc_server_facts(1) [OF server] connected have
    "prefix (received (splitter_events trc)) (appended (response_events (client_events trs)))"
    unfolding connected_def responding_inv_def by (metis prefix_prefix)
  moreover from client_protocol.grammar_frames [OF facts(2,3) client_ok(2,3)] obtain rest where
    "received (splitter_events trc) = concat (map message_octets (messages_of (splitter_events trc))) @ rest" by blast
  ultimately have "prefix (concat (map message_octets (messages_of (splitter_events trc))))
      (concat (map message_octets (map response_message (responses_made (client_events trs)))))"
    unfolding responses(2) by (metis append_prefixD)
  with messages_prefix [OF client_messages_ok [OF d client client_ok(2,3) ids] responses(1)] show ?thesis .
qed

subsection \<open>An example\<close>

text \<open>A service with one method, called once: the octets that the two sides exchange.\<close>

definition greeter :: interface_definition where
  "greeter = declare_method ''hello'' (Utf8 (Integer_range 0 255)) [(''name'', Utf8 (Integer_range 0 255))]
     \<lparr>methods = []\<rparr>"

definition greet :: "ident \<Rightarrow> wire_value list \<Rightarrow> (error_code + wire_value) option" where
  "greet name args = Some (Inr (V_string (the_string (args ! 0) @ [33])))"

definition greeter_client_run where
  "greeter_client_run =
     rpc_client_run (\<lambda>_. True) greeter (\<lambda>_ _. [])
       ([Client_calls (Call_method ''hello'' [V_string [65, 66]] (5::nat))] @ replicate 6 Client_runs @
        [Client_write_completes None] @ replicate 3 Client_runs @
        [Client_reads None [1, 0, 0, 0, 0, 0, 0, 0, 0, 3, 65, 66, 33]] @ replicate 20 Client_runs)"

definition greeter_server_run where
  "greeter_server_run =
     rpc_server_run (\<lambda>_. True) greeter greet (\<lambda>_ _. [])
       ([Server_serves (1::nat)] @ replicate 2 Server_runs @
        [Server_reads None [0, 0, 0, 0, 0, 0, 0, 0, 0, 5, 104, 101, 108, 108, 111, 2, 65, 66]] @
        replicate 20 Server_runs)"

lemma greeter_runs:
  "case greeter_client_run of
     Inl f \<Rightarrow> False
   | Inr (c, trc) \<Rightarrow>
       (case greeter_server_run of
          Inl f \<Rightarrow> False
        | Inr (s, trs) \<Rightarrow>
            connected trc trs \<and> all_requests_built (client_events trc) \<and> clean (splitter_events trc) \<and>
            \<not> list_ex client_lost (client_events trc) \<and> length (requests_made (client_events trc)) = 1 \<and>
            all_responses_built (client_events trs) \<and> clean (splitter_events trs) \<and>
            Registry_event (Handled 5 (Inr (V_string [65, 66, 33]))) \<in> set (client_events trc))"
  by code_simp

lemma greeter_interface: "rpc_interface (\<lambda>_. True) greeter"
  by code_simp

lemma greeter_runs_obtain:
  obtains c trc s trs where "greeter_client_run = Inr (c, trc)" "greeter_server_run = Inr (s, trs)"
    "connected trc trs" "all_requests_built (client_events trc)" "clean (splitter_events trc)"
    "\<not> list_ex client_lost (client_events trc)" "length (requests_made (client_events trc)) \<le> 2 ^ 64"
    "all_responses_built (client_events trs)" "clean (splitter_events trs)"
    "Registry_event (Handled 5 (Inr (V_string [65, 66, 33]))) \<in> set (client_events trc)"
proof (cases greeter_client_run)
  case (Inl f)
  from greeter_runs [unfolded Inl] show thesis by simp
next
  case (Inr x)
  then obtain c trc where c: "greeter_client_run = Inr (c, trc)" by (cases x) simp
  show thesis
  proof (cases greeter_server_run)
    case (Inl f)
    from greeter_runs [unfolded c Inl] show thesis by simp
  next
    case (Inr y)
    then obtain s trs where s: "greeter_server_run = Inr (s, trs)" by (cases y) simp
    show thesis
      by (rule that [OF c s]) (use greeter_runs [unfolded c s] in simp_all)
  qed
qed

subsection \<open>Properties\<close>







end
