(* ===== verification/Call_Completion.thy ===== *)
theory Call_Completion
  imports Remote_Calls
begin

text \<open>
  No call is lost: when a client and a server have come to rest and everything that was sent has
  been received, the handler of every call has been called.
  \<^item> A connection is \<open>at_rest\<close> when all calls have returned, no octet is waiting in the buffer, and
    a header parser that is at work waits for a read. Then it has read whole messages only: the
    parser that waits would have completed with any of the octets of a message.
  \<^item> A server answers each call at once, later through the callback that the implementation keeps,
    or with an error to its handler; nothing else can become of it.
\<close>

subsection \<open>Connections at rest\<close>

definition at_rest :: "('k, 'c) connection \<Rightarrow> bool" where
  "at_rest c \<longleftrightarrow> tasks c = [] \<and> octets (splitter c) = [] \<and>
     (parsing_header (splitter c) \<longrightarrow> reading (splitter c) \<noteq> None)"

lemma pending_not_encoding:
  assumes "no_empty p" and "reached_by (parser_class_of is_valid p) partial q" and "value_ok is_valid p v"
  shows "partial \<noteq> encode p v @ rest"
proof
  assume "partial = encode p v @ rest"
  with assms(3) have "feed (class_parse (parser_class_of is_valid p)) (class_init (parser_class_of is_valid p)) partial
      = Done v rest"
    by (simp add: byte_parser.accepts [OF parser_class_contract [OF assms(1)]])
  with assms(2) show False by (simp add: reached_by_def)
qed

context message_client
begin

text \<open>A header parser that waits has not seen the whole header.\<close>

lemma header_incomplete:
  assumes starts: "header_starts k ph" and reached: "reached_by (parser_of is_valid k) partial q"
    and m: "message_ok is_valid announced m"
  shows "phase_octets ph @ partial \<noteq> message_octets m @ rest"
proof
  assume eq: "phase_octets ph @ partial = message_octets m @ rest"
  show False
  proof (cases k)
    case On_message_type
    then have k: "no_empty (P_integer Uint8)" "reached_by (parser_class_of is_valid (P_integer Uint8)) partial q"
      using reached by (simp_all add: parser_of_def del: parser_class_of.simps)
    from eq starts On_message_type obtain t rest' where "partial = write_integer (t :: u8) @ rest'"
      by (cases m) (auto simp: request_header_def response_header_def)
    with pending_not_encoding [OF k, of "V_uint8 t" rest'] show False
      by (simp add: header_encodings header_values del: encode.simps value_ok.simps(1))
  next
    case On_request
    then have ph: "ph = Header_next message_type_request" using starts by simp
    let ?p = "P_tuple [P_integer Uint64, P_utf8 Uint8]"
    have k: "no_empty ?p" "reached_by (parser_class_of is_valid ?p) partial q"
      using reached On_request by (simp_all add: parser_of_def del: parser_class_of.simps)
    from eq obtain i name p v where m': "m = Request_message i name p v"
      by (cases m) (auto simp: ph response_header_def message_kinds)
    with eq have "partial = encode ?p (V_tuple [V_uint64 i, V_string name]) @ encode p v @ rest"
      unfolding header_encodings by (simp add: ph request_header_def message_kinds)
    with pending_not_encoding [OF k, of "V_tuple [V_uint64 i, V_string name]" "encode p v @ rest"] m m' show False
      unfolding header_values by (simp add: message_ok_def name_ok_def)
  next
    case On_response
    then have ph: "ph = Header_next message_type_response" using starts by simp
    have k: "no_empty (P_integer Uint64)" "reached_by (parser_class_of is_valid (P_integer Uint64)) partial q"
      using reached On_response by (simp_all add: parser_of_def del: parser_class_of.simps)
    from eq obtain i p v where m': "m = Response_message i p v"
      by (cases m) (auto simp: ph request_header_def message_kinds)
    with eq have "partial = encode (P_integer Uint64) (V_uint64 i) @ encode p v @ rest"
      unfolding header_encodings by (simp add: ph response_header_def message_kinds)
    with pending_not_encoding [OF k, of "V_uint64 i" "encode p v @ rest"] show False
      by (simp add: header_values del: encode.simps value_ok.simps(1))
  qed (use starts in simp)
qed

text \<open>A body parser that waits has not seen the whole body.\<close>

lemma body_incomplete:
  assumes "expects tr ph p f" and p: "no_empty p" "reached_by (parser_class_of is_valid p) partial q"
    and announced: "p = announced ph" "\<And>i name. ph = Request_body i name \<Longrightarrow> name_ok is_valid name"
    and m: "message_ok is_valid announced m"
  shows "phase_octets ph @ partial \<noteq> message_octets m @ rest"
proof
  assume eq: "phase_octets ph @ partial = message_octets m @ rest"
  from expects_phase [OF assms(1)] consider i name where "ph = Request_body i name" | i where "ph = Response_body i"
    by blast
  then show False
  proof cases
    case (1 i name)
    with eq obtain i' name' p' v where m': "m = Request_message i' name' p' v"
      by (cases m) (auto simp: request_header_def response_header_def message_kinds)
    with eq 1 m announced(2) request_header_prefix_free [of is_valid name name' i partial i' "encode p' v @ rest"]
    have "i = i'" "name = name'" "partial = encode p' v @ rest" by (simp_all add: message_ok_def)
    with pending_not_encoding [OF p, of v rest] m m' announced(1) 1 show False by (auto simp: message_ok_def)
  next
    case (2 i)
    with eq obtain i' p' v where m': "m = Response_message i' p' v"
      by (cases m) (auto simp: request_header_def response_header_def message_kinds)
    with eq 2 response_header_prefix_free [of i partial i' "encode p' v @ rest"]
    have "i = i'" "partial = encode p' v @ rest" by simp_all
    with pending_not_encoding [OF p, of v rest] m m' announced(1) 2 show False by (auto simp: message_ok_def)
  qed
qed

lemma quiet_messages:
  assumes inv: "grammar_inv tr c" "frame_inv is_valid (splitter_events tr) (splitter c)"
    and clean: "clean (splitter_events tr)" "\<not> list_ex lost (client_events tr)" and at_rest: "at_rest c"
    and received: "received (splitter_events tr) = concat (map message_octets ns)"
    and ok: "list_all (message_ok is_valid announced) ns"
      "list_all (message_ok is_valid announced) (messages_of (splitter_events tr))"
    and announced: "\<And>p f. expects (client_events tr) (phase_of (splitter_events tr)) p f \<Longrightarrow>
      p = announced (phase_of (splitter_events tr))"
      "\<And>p f i name. expects (client_events tr) (Request_body i name) p f \<Longrightarrow>
        phase_of (splitter_events tr) = Request_body i name \<Longrightarrow> name_ok is_valid name"
  shows "messages_of (splitter_events tr) = ns"
proof -
  let ?es = "splitter_events tr" and ?s = "splitter c"
  let ?ms = "messages_of ?es" and ?ph = "phase_of ?es"
  from inv(2) clean(1) obtain partial where framed: "framed is_valid ?es ?s partial"
    by (auto simp: frame_inv_def)
  then have "Delivered p v \<in> set ?es \<Longrightarrow> value_ok is_valid p v" for p v
    by (simp add: framed_def)
  moreover from inv clean have "well_parsed (client_events tr) Between ?es"
    and pos: "position (client_events tr) ?ph (tasks c) ?s"
    by (simp_all add: grammar_inv_def)
  ultimately have "delivered_encodings ?es = concat (map message_octets ?ms) @ phase_octets ?ph"
    using messages_octets [where ph = Between] by simp
  with framed at_rest have octets: "received ?es = concat (map message_octets ?ms) @ phase_octets ?ph @ partial"
    by (simp add: framed_def at_rest_def)
  with received have "prefix (concat (map message_octets ?ms)) (concat (map message_octets ns))"
    by (metis prefixI)
  from messages_prefix [OF ok(2,1) this] obtain ms where ns: "ns = ?ms @ ms" by (auto simp: prefix_def)
  with octets received have rest: "phase_octets ?ph @ partial = concat (map message_octets ms)" by simp
  show ?thesis
  proof (cases ms)
    case Nil
    with ns show ?thesis by simp
  next
    case (Cons m ms')
    with rest ns ok(1) have m: "message_ok is_valid announced m"
      "phase_octets ?ph @ partial = message_octets m @ concat (map message_octets ms')" by simp_all
    from pos at_rest have "resting (client_events tr) ?ph ?s"
      by (cases rule: position.cases) (auto simp: at_rest_def)
    then have False
    proof (cases rule: resting.cases)
      case idle
      with framed m(2) show False
        by (cases m) (simp_all add: framed_def request_header_def response_header_def message_kinds)
    next
      case ended
      with at_rest show False by (simp add: at_rest_def)
    next
      case (reading_header q k)
      with framed header_incomplete [OF _ _ m(1), of k ?ph partial q "concat (map message_octets ms')"] m(2) show False
        by (simp add: framed_def)
    next
      case (reading_body q p f)
      with framed have "no_empty p" "reached_by (parser_class_of is_valid p) partial q"
        by (simp_all add: framed_def parser_of_def)
      moreover from announced(2) reading_body(4) have "name_ok is_valid name" if "?ph = Request_body i name" for i name
        using that by metis
      ultimately show False
        using body_incomplete [OF reading_body(4) _ _ announced(1) [OF reading_body(4)] _ m(1)] m(2) by blast
    qed
    then show ?thesis ..
  qed
qed

end

subsection \<open>What becomes of the calls that a server has made\<close>

text \<open>The handlers that the server passes to the splitter.\<close>

definition server_call_known :: "'h rpc_server_code call \<Rightarrow> bool" where
  "server_call_known call \<longleftrightarrow>
     (case call of
        Wait_for_request f \<Rightarrow> \<exists>h. f = Request_received h
      | Wait_for_response f \<Rightarrow> False
      | Parse_body p f \<Rightarrow> \<exists>h i k. f = Argument_received h i k
      | _ \<Rightarrow> True)"

definition server_continuation_known :: "'h rpc_server_code continuation \<Rightarrow> bool" where
  "server_continuation_known k \<longleftrightarrow> (case k of On_body p f \<Rightarrow> \<exists>h i k. f = Argument_received h i k | _ \<Rightarrow> True)"

definition server_task_known :: "'h rpc_server_code task \<Rightarrow> bool" where
  "server_task_known t \<longleftrightarrow>
     (case t of Perform call \<Rightarrow> server_call_known call | Parsed k r \<Rightarrow> server_continuation_known k | _ \<Rightarrow> True)"

definition server_splitter_known :: "'h rpc_server_code message_splitter \<Rightarrow> bool" where
  "server_splitter_known s \<longleftrightarrow>
     (\<forall>f. waiting_for_request s = Some f \<longrightarrow> (\<exists>h. f = Request_received h)) \<and> waiting_for_response s = None \<and>
     (\<forall>op. reading s = Some op \<longrightarrow> server_continuation_known (op_continuation op))"

text \<open>The identifiers of the calls that tasks are about to answer, and tasks that report an error.\<close>

definition answering :: "'h rpc_server_code task list \<Rightarrow> request_id list" where
  "answering ts = concat (map (\<lambda>t. case t of
       Perform (Client_code (Result_received_for h i t r)) \<Rightarrow> [i] | _ \<Rightarrow> []) ts)"

definition reporting :: "'h rpc_server_code task \<Rightarrow> bool" where
  "reporting t \<longleftrightarrow> (\<exists>h ec. t = Client (Handle_result h (Some ec)))"

definition server_reported :: "'h rpc_server_event \<Rightarrow> bool" where
  "server_reported e \<longleftrightarrow> (case e of Served h (Some ec) \<Rightarrow> True | _ \<Rightarrow> False)"

lemma answering_simps [simp]:
  "answering [] = []" "answering (ts @ ts') = answering ts @ answering ts'"
  "answering (t # ts) = (case t of
       Perform (Client_code (Result_received_for h i t r)) \<Rightarrow> [i] | _ \<Rightarrow> []) @ answering ts"
  by (simp_all add: answering_def)

lemma answering_handlers [simp]:
  "answering (map (Perform \<circ> (\<lambda>h. Client_code (Serve_one_request h))) hs) = []"
  "answering (map (Perform \<circ> (\<lambda>h. Client_code (Handle_result h ec))) hs) = []"
  by (induction hs) simp_all

abbreviation passes_on where
  "passes_on s ts \<equiv> server_splitter_known s \<and> list_all server_task_known ts \<and> answering ts = []"

lemma after_parse_known:
  assumes "after_parse k s out = Inr ((s', ts), es)" and "server_splitter_known s" and "server_continuation_known k"
  shows "passes_on s' ts"
  using assms
  by (induction k s out rule: after_parse.induct)
    (auto simp: server_splitter_known_def server_task_known_def split: if_splits)

lemma parse_from_buffer_known:
  assumes "parse_from_buffer is_valid k s = Inr ((s', ts), es)" and "server_splitter_known s"
    and "server_continuation_known k"
  shows "passes_on s' ts"
  using assms by (auto simp: parse_from_buffer_def and_then_Inr_iff dest!: after_parse_known)

lemma call_begin_parse_message_known:
  assumes "call_begin_parse_message is_valid s = Inr ((s', ts), es)" and "server_splitter_known s"
  shows "passes_on s' ts"
  using assms
  by (auto simp: call_begin_parse_message_def server_splitter_known_def server_continuation_known_def
      split: if_splits dest!: parse_from_buffer_known)

lemma splitter_on_error_known:
  assumes "splitter_on_error ec s = Inr ((s', ts), es)" and "server_splitter_known s"
  shows "passes_on s' ts"
  using assms
  by (auto simp: splitter_on_error_def server_splitter_known_def server_task_known_def Let_def)

lemma run_task_known:
  assumes run: "run_task is_valid t s = Inr ((s', ts), es)" and s: "server_splitter_known s"
    and t: "server_task_known t" and not: "\<forall>k. t \<noteq> Client k"
  shows "passes_on s' ts"
proof (cases rule: run_task.cases [of "(is_valid, t, s)"])
  case (2 v handler s0)
  with run t s show ?thesis by (simp add: server_task_known_def server_call_known_def)
next
  case (3 v handler s0)
  with t obtain h where "handler = Request_received h" by (auto simp: server_task_known_def server_call_known_def)
  with 3 run s call_begin_parse_message_known [of v "s\<lparr>waiting_for_request := Some handler, begin_parse_message := True\<rparr>" s' ts]
  show ?thesis
    by (auto simp: wait_for_request_def and_then_Inr_iff server_splitter_known_def split: if_splits)
next
  case (4 v s0)
  with run s show ?thesis by (auto simp: lock_input_def server_splitter_known_def split: if_splits)
next
  case (5 v s0)
  with run s call_begin_parse_message_known [of v "s\<lparr>locked := False\<rparr>" s' ts es] show ?thesis
    by (auto simp: unlock_input_def server_splitter_known_def Let_def split: if_splits)
next
  case (6 v p f s0)
  with run s t parse_from_buffer_known [of v "On_body p f" s s' ts es] show ?thesis
    by (auto simp: server_task_known_def server_call_known_def server_continuation_known_def)
next
  case (7 v r s0)
  with run s parse_from_buffer_known [of v On_response s s' ts es] parse_from_buffer_known [of v On_request s s' ts es]
  show ?thesis
    by (auto simp: message_type_parsed_def server_continuation_known_def dest!: splitter_on_error_known
        split: sum.splits if_splits)
next
  case (8 v r s0)
  with run s show ?thesis by (simp add: response_parsed_def server_splitter_known_def)
next
  case (9 v r s0)
  with run s show ?thesis
    by (auto simp: request_parsed_def dest!: splitter_on_error_known split: sum.splits option.splits if_splits)
      (auto simp: server_splitter_known_def server_task_known_def server_call_known_def)
next
  case (10 v p f r s0)
  with run s t show ?thesis
    by (auto simp: server_task_known_def server_continuation_known_def server_call_known_def)
next
  case (11 v c s0)
  with run s call_begin_parse_message_known [of v s s' ts es] show ?thesis
    by (auto simp: after_response_def split: if_splits)
next
  case (12 v c s0)
  with run s call_begin_parse_message_known [of v s s' ts es] show ?thesis
    by (auto simp: after_request_def split: if_splits)
next
  case (13 v w ec s0)
  with run s show ?thesis
    by (auto simp: report_to_request_def server_splitter_known_def server_task_known_def server_call_known_def
        split: if_splits option.splits)
qed (use not in auto)

text \<open>
  A call that the server has made is answered, or its callback is kept, or its result is in the hands
  of a task; unless an error was reported to a handler.
\<close>

definition unreported :: "'h rpc_server_event list \<Rightarrow> 'h rpc_server_code task list \<Rightarrow> bool" where
  "unreported es ts \<longleftrightarrow> \<not> list_ex server_reported es \<and> \<not> list_ex reporting ts"

definition kept :: "'h rpc_server \<Rightarrow> request_id list" where
  "kept c = map (\<lambda>(h, i, t). i) (running c)"

definition answers_inv :: "'h rpc_server_trace \<Rightarrow> 'h rpc_server_connection \<Rightarrow> bool" where
  "answers_inv tr c \<longleftrightarrow>
     server_splitter_known (splitter c) \<and> list_all server_task_known (tasks c) \<and>
     (unreported (client_events tr) (tasks c) \<longrightarrow>
       mset (map fst (calls_made (client_events tr))) =
         mset (map fst (responses_made (client_events tr)) @ kept (client c) @ answering (tasks c)))"

lemma unreported_simps [simp]:
  "unreported (es @ es') (ts @ ts') \<longleftrightarrow> unreported es ts \<and> unreported es' ts'"
  "unreported es (t # ts) \<longleftrightarrow> \<not> reporting t \<and> unreported es ts" "unreported [] []"
  "unreported (e # es) ts \<longleftrightarrow> \<not> server_reported e \<and> unreported es ts"
  "unreported (map Response_event ws) ts \<longleftrightarrow> unreported [] ts"
  by (auto simp: unreported_def server_reported_def list_ex_iff)

lemma reporting_iff [simp]: "reporting (Client k) \<longleftrightarrow> (\<exists>h ec. k = Handle_result h (Some ec))"
  by (simp add: reporting_def)

lemma server_known_simps [simp]:
  "server_task_known (Perform (Client_code k))" "server_task_known (Perform Lock_input)"
  "server_task_known (Perform Unlock_input)" "server_task_known (Perform (Wait_for_request (Request_received h)))"
  "server_task_known (Perform (Parse_body p (Argument_received h i name)))"
  by (auto simp: server_task_known_def server_call_known_def)

lemma server_code_known:
  assumes "run_rpc_server is_valid d implementation react k c = Inr ((c', calls), es)"
  shows "list_all server_task_known (map Perform calls)"
proof (cases k)
  case (Result_received_for h i t result)
  with assms have "result_received_for is_valid h i t result c = Inr ((c', calls), es)" by simp
  then show ?thesis by (cases rule: result_received_for_cases) simp_all
qed (use assms in \<open>auto simp: list_all_iff request_received_def argument_unlocked_def and_then_Inr_iff Let_def
    split: sum.splits option.splits prod.splits if_splits\<close>)

lemma server_code_answers:
  assumes run: "run_rpc_server is_valid d implementation react k c = Inr ((c', calls), es)"
    and clean: "unreported es (map Perform calls)"
  shows "\<not> reporting (Client k)"
    and "mset (map fst (calls_made es)) + mset (kept c) + mset (answering [Client k]) =
      mset (map fst (responses_made es)) + mset (kept c') + mset (answering (map Perform calls))"
proof -
  have "\<not> reporting (Client k) \<and> mset (map fst (calls_made es)) + mset (kept c) + mset (answering [Client k]) =
      mset (map fst (responses_made es)) + mset (kept c') + mset (answering (map Perform calls))"
  proof (cases k)
    case (Result_received_for h i t result)
    with run have "result_received_for is_valid h i t result c = Inr ((c', calls), es)" by simp
    then show ?thesis
      by (cases rule: result_received_for_cases) (use clean Result_received_for in \<open>auto simp: kept_def\<close>)
  next
    case (Callback_invoked n result)
    then obtain h i t where n: "n < length (running c)" "running c ! n = (h, i, t)"
      and out: "c' = c\<lparr>running := take n (running c) @ drop (Suc n) (running c)\<rparr>"
        "calls = [Client_code (Result_received_for h i t result)]" "es = []"
      using run by (auto split: if_splits prod.splits)
    from id_take_nth_drop [OF n(1)] n(2) have "running c = take n (running c) @ (h, i, t) # drop (Suc n) (running c)"
      by simp
    then have "mset (kept c) = mset (map (\<lambda>(h, i, t). i) (take n (running c) @ (h, i, t) # drop (Suc n) (running c)))"
      by (simp only: kept_def)
    then have "mset (kept c) = add_mset i (mset (kept c'))"
      by (simp add: kept_def out)
    with Callback_invoked out show ?thesis by simp
  qed (use run clean in \<open>auto simp: kept_def request_received_def argument_unlocked_def Let_def and_then_Inr_iff
      with_replies_iff server_reported_def split: sum.splits option.splits prod.splits\<close>)
  then show "\<not> reporting (Client k)"
    and "mset (map fst (calls_made es)) + mset (kept c) + mset (answering [Client k]) =
      mset (map fst (responses_made es)) + mset (kept c') + mset (answering (map Perform calls))" by blast+
qed

lemma server_input_known:
  "rpc_server_input_of i = Call k \<Longrightarrow> answering [Client k] = []"
  by (cases i) auto

lemma answers_step:
  assumes inv: "answers_inv tr c" and step: "rpc_server_step is_valid d implementation react c i = Inr (c', es)"
  shows "answers_inv (tr @ es) c'"
proof -
  from step have "connection_step is_valid (run_rpc_server is_valid d implementation react) c (rpc_server_input_of i) =
      Inr (c', es)"
    by (simp add: rpc_server_step_def)
  then show ?thesis
  proof (cases rule: connection_step_cases)
    case (client_code k rest st calls es')
    with inv server_code_known [OF client_code(3)] have known: "server_splitter_known (splitter c')"
      "list_all server_task_known (tasks c')"
      by (auto simp: answers_inv_def)
    have "mset (map fst (calls_made (client_events tr @ es'))) =
        mset (map fst (responses_made (client_events tr @ es')) @ kept st @ answering (map Perform calls @ rest))"
      if clean: "unreported (client_events tr @ es') (map Perform calls @ rest)"
    proof -
      from clean have "unreported (client_events tr) rest" "unreported es' (map Perform calls)"
        by (simp_all add: unreported_def)
      note code = server_code_answers [OF client_code(3) this(2)]
      with \<open>unreported (client_events tr) rest\<close> inv client_code(2) have
        "mset (map fst (calls_made (client_events tr))) =
          mset (map fst (responses_made (client_events tr)) @ kept (client c) @ answering (Client k # rest))"
        by (simp add: answers_inv_def del: answering_simps(3))
      with code(2) show ?thesis
        using answering_simps(2) [of "[Client k]" rest] by (simp add: algebra_simps del: answering_simps(3))
    qed
    with known client_code show ?thesis by (simp add: answers_inv_def)
  next
    case (task t rest)
    then obtain s ts es' where run: "run_task is_valid t (splitter c) = Inr ((s, ts), es')"
      and c': "c' = c\<lparr>splitter := s, tasks := ts @ rest\<rparr>" "es = map Splitter_event es'"
      by (auto simp: push_tasks_iff)
    from inv task(2) have t: "server_splitter_known (splitter c)" "server_task_known t" "list_all server_task_known rest"
      by (auto simp: answers_inv_def)
    from run_task_known [OF run t(1,2) task(3)] have "passes_on s ts" .
    moreover from task(3) have "answering [t] = []" "\<not> reporting t"
      by (auto simp: reporting_def split: task.splits call.splits)
    moreover have "unreported (client_events tr) rest" if "unreported (client_events tr) (ts @ rest)"
      using that by (simp add: unreported_def)
    ultimately show ?thesis
      using inv task(2) t(3) c' answering_simps(2) [of "[t]" rest]
      by (auto simp: answers_inv_def simp del: answering_simps(3))
  next
    case (called k)
    with inv server_input_known [OF called(1)] show ?thesis
      by (auto simp: answers_inv_def simp del: answering_simps(3))
  next
    case (read ec bs)
    then obtain s ts es' where run: "read_completes is_valid ec bs (splitter c) = Inr ((s, ts), es')"
      and c': "c' = c\<lparr>splitter := s, tasks := ts\<rparr>" "es = map Splitter_event es'"
      by (auto simp: push_tasks_iff)
    from run inv have "passes_on s ts"
      by (auto simp: read_completes_def and_then_Inr_iff answers_inv_def server_splitter_known_def
          split: option.splits read_operation.splits dest!: after_parse_known)
    moreover have "unreported (client_events tr) []" if "unreported (client_events tr) ts"
      using that by (simp add: unreported_def)
    ultimately show ?thesis
      using inv read(2) c' by (auto simp: answers_inv_def)
  qed (use inv in auto)
qed

interpretation answering_machine: traced_invariant "rpc_server_step is_valid d implementation react" answers_inv
  for is_valid d implementation react
  by unfold_locales (rule answers_step)

lemma server_answers:
  assumes "rpc_server_run is_valid d implementation react inputs = Inr (s, trs)"
    and "tasks s = []" and "running (client s) = []" and "\<not> list_ex server_reported (client_events trs)"
  shows "mset (map fst (calls_made (client_events trs))) = mset (map fst (responses_made (client_events trs)))"
proof -
  have "answers_inv [] (connection_init (rpc_server_init :: 'a rpc_server))"
    by (simp add: answers_inv_def connection_init_def message_splitter_init_def server_splitter_known_def
        rpc_server_init_def kept_def)
  from answering_machine.inv_run [OF this assms(1)] assms(2-4) show ?thesis
    by (simp add: answers_inv_def unreported_def kept_def)
qed

subsection \<open>Everything that was sent has been received\<close>

lemma phase_name:
  assumes "server_protocol.well_parsed d tr ph es" and "phase_after ph es = Request_body i name"
    and "\<And>p v. Delivered p v \<in> set es \<Longrightarrow> value_ok is_valid p v"
    and "\<And>i name. ph = Request_body i name \<Longrightarrow> name_ok is_valid name"
  shows "name_ok is_valid name"
  using assms
proof (induction es arbitrary: ph)
  case (Cons e es)
  show ?case
  proof (cases "\<exists>q w. e = Delivered q w")
    case True
    then obtain q w where e: "e = Delivered q w" by blast
    with Cons.prems have "value_ok is_valid q w" "server_protocol.fits d tr ph q" by auto
    then have "name_ok is_valid name'" if "fst (deliver q w ph) = Request_body i' name'" for i' name'
      using header_name_ok [of "server_protocol.fits d" tr ph q is_valid w] that by auto
    with Cons.prems e show ?thesis
      by (intro Cons.IH [of "fst (deliver q w ph)"]) auto
  next
    case False
    with Cons show ?thesis by (cases e) auto
  qed
qed simp

lemma quiet_server_calls:
  assumes d: "rpc_interface is_valid d"
    and server: "rpc_server_run is_valid d implementation react inputs = Inr (s, trs)"
    and clean: "clean (splitter_events trs)" and at_rest: "at_rest s"
    and ok: "list_all (request_ok is_valid d) rs"
    and received: "received (splitter_events trs) = concat (map (request_octets is_valid d) rs)"
  shows "mset (calls_made (client_events trs)) = mset rs"
proof -
  note facts = rpc_server_facts [OF server]
  from facts(3) clean have delivered: "Delivered p v \<in> set (splitter_events trs) \<Longrightarrow> value_ok is_valid p v" for p v
    by (auto simp: frame_inv_def framed_def)
  from facts(2) clean have parsed: "server_protocol.well_parsed d (client_events trs) Between (splitter_events trs)"
    by (simp add: server_protocol.grammar_inv_def list_ex_iff)
  have made: "list_all (message_ok is_valid (announced_arguments d)) (map (request_message d) rs)"
    "map (request_octets is_valid d) rs = map message_octets (map (request_message d) rs)"
    "map (requested_call d) (map (request_message d) rs) = map Some rs"
    using ok request_ok_message [OF d] by (auto simp: list_all_iff)
  have "messages_of (splitter_events trs) = map (request_message d) rs"
  proof (rule server_protocol.quiet_messages [OF facts(2,3) clean _ at_rest])
    show "received (splitter_events trs) = concat (map message_octets (map (request_message d) rs))"
      using received made(2) by simp
    show "list_all (message_ok is_valid (announced_arguments d)) (messages_of (splitter_events trs))"
      by (rule server_messages_ok [OF d server clean])
    show "name_ok is_valid name" if "phase_of (splitter_events trs) = Request_body i name" for i name
      by (rule phase_name [OF parsed that delivered]) simp_all
  qed (use made(1) in \<open>auto simp: list_ex_iff server_expects_def announced_arguments_def\<close>)
  with made(3) show ?thesis
    using server_calls_held [OF server clean] at_rest by (simp add: at_rest_def)
qed

lemma quiet_client_results:
  assumes d: "rpc_interface is_valid d" and client: "rpc_client_run is_valid d react inputs = Inr (c, trc)"
    and clean: "clean (splitter_events trc)" and lost: "\<not> list_ex client_lost (client_events trc)"
    and ids: "distinct (map fst (requests_made (client_events trc)))" and at_rest: "at_rest c"
    and ok: "list_all (message_ok is_valid (announced_result d (requests_made (client_events trc)))) (map response_message rs)"
    and received: "received (splitter_events trc) = concat (map message_octets (map response_message rs))"
    and r: "(i, t, v) \<in> set rs"
  shows "\<exists>name args h. Requested i name args h \<in> set (client_events trc) \<and>
    Registry_event (Handled h (Inr v)) \<in> set (client_events trc)"
proof -
  note facts = rpc_client_facts [OF client]
  from facts(2) clean lost have inv: "registering_inv d (client_events trc) (client c)"
    and rel: "rel_mset (client_belongs (client_events trc)) (mset (messages_of (splitter_events trc)))
      (mset (client_protocol.held (tasks c) @ concat (map client_consumed (client_events trc))))"
    by (simp_all add: client_protocol.grammar_inv_def client_inv_def)
  have "messages_of (splitter_events trc) = map response_message rs"
  proof (rule client_protocol.quiet_messages [OF facts(2,3) clean lost at_rest received ok])
    show "list_all (message_ok is_valid (announced_result d (requests_made (client_events trc))))
        (messages_of (splitter_events trc))"
      by (rule client_messages_ok [OF d client clean lost ids])
    fix p f
    assume "client_expects (client_events trc) (phase_of (splitter_events trc)) p f"
    then obtain i h where ph: "phase_of (splitter_events trc) = Response_body i"
      and "Registry_event (Expected i p h) \<in> set (client_events trc)" by (auto simp: client_expects_def)
    with inv obtain name args m where "Requested i name args h \<in> set (client_events trc)"
      and m: "std_map_find name (methods d) = Some m" "p = parser_type_of (method_result m)"
      unfolding registering_inv_def by blast
    then have "(i, name, args) \<in> set (requests_made (client_events trc))" using in_trace_lists(1) by blast
    with ids have "map_of (requests_made (client_events trc)) i = Some (name, args)" by simp
    with ph m show "p = announced_result d (requests_made (client_events trc)) (phase_of (splitter_events trc))"
      by (simp add: announced_result_def)
  qed (auto simp: client_expects_def)
  with rel at_rest have "rel_mset (client_belongs (client_events trc)) (mset (map response_message rs))
      (mset (concat (map client_consumed (client_events trc))))"
    by (simp add: at_rest_def)
  moreover from r have "response_message (i, t, v) \<in># mset (map response_message rs)" by force
  ultimately obtain y where y: "y \<in> set (concat (map client_consumed (client_events trc)))"
    and belongs: "client_belongs (client_events trc) (response_message (i, t, v)) y"
    by (metis multi_member_split msed_rel_invL in_multiset_in_set union_single_eq_member)
  from belongs obtain h where h: "y = (h, v)" "Registry_event (Expected i (parser_type_of t) h) \<in> set (client_events trc)"
    by (cases y) (auto simp: client_belongs_def response_message_def)
  from y h(1) have "Registry_event (Handled h (Inr v)) \<in> set (client_events trc)"
    by (auto simp: client_consumed_def split: rpc_client_event.splits registry_event.splits sum.splits)
  with h(2) inv show ?thesis unfolding registering_inv_def by blast
qed

text \<open>The handler that an identifier belongs to.\<close>

lemma requested_unique:
  assumes "distinct (map fst (requests_made tr))"
    and "Requested i name args h \<in> set tr" and "Requested i name' args' h' \<in> set tr"
  shows "name = name' \<and> args = args' \<and> h = h'"
  using assms
proof (induction tr)
  case (Cons e tr)
  have "i \<in> fst ` set (requests_made tr)" if "Requested i name args h \<in> set tr" for name args h
    using that in_trace_lists(1) by force
  with Cons show ?case by (auto split: rpc_client_event.splits)
qed simp


lemma greeter_runs_rest:
  "case (greeter_client_run, greeter_server_run) of
     (Inr (c, trc), Inr (s, trs)) \<Rightarrow>
       at_rest c \<and> at_rest s \<and> running (client s) = [] \<and>
       received (splitter_events trs) = appended (request_events (client_events trc)) \<and>
       received (splitter_events trc) = appended (response_events (client_events trs)) \<and>
       \<not> list_ex server_reported (client_events trs) \<and>
       Requested 0 ''hello'' [V_string [65, 66]] 5 \<in> set (client_events trc)
   | _ \<Rightarrow> False"
  by code_simp


end
