(* ===== verification/Client_Progress.thy ===== *)
theory Client_Progress
  imports Remote_Calls
begin

text \<open>
  A client with unanswered calls is reading: as long as no error has occurred, whenever all calls
  have returned, the handler of each call has been called, or a read of the stream is outstanding.
  \<^item> The registry is in a state in which somebody is on the way for it: a call of
    \<open>wait_for_response\<close>, the handler that the splitter holds, or the body of a response
    (\<open>header_way\<close>, \<open>body_way\<close>). When it expects no response, no request is pending.
  \<^item> The splitter parses a header, or its input is locked, when somebody waits for a response.
  \<^item> A handler is in the map of the registry, on its way with the body of its response, or has
    been called, dropped or discarded.
\<close>

subsection \<open>The code that the client passes to the splitter\<close>

abbreviation header_handler :: "error_code + request_id \<Rightarrow> 'h rpc_client_code" where
  "header_handler \<equiv> \<lambda>r. In_registry (Header_received r)"

definition client_call_known :: "'h rpc_client_code call \<Rightarrow> bool" where
  "client_call_known call \<longleftrightarrow>
     (case call of
        Wait_for_response f \<Rightarrow> f = header_handler
      | Wait_for_request f \<Rightarrow> False
      | Parse_body p f \<Rightarrow> \<exists>h. f = (\<lambda>r. In_registry (Result_received h r))
      | _ \<Rightarrow> True)"

definition client_continuation_known :: "'h rpc_client_code continuation \<Rightarrow> bool" where
  "client_continuation_known k \<longleftrightarrow>
     (case k of
        On_request \<Rightarrow> False
      | On_body p f \<Rightarrow> \<exists>h. f = (\<lambda>r. In_registry (Result_received h r))
      | _ \<Rightarrow> True)"

definition client_task_known :: "'h rpc_client_code task \<Rightarrow> bool" where
  "client_task_known t \<longleftrightarrow>
     (case t of
        Perform call \<Rightarrow> client_call_known call
      | Parsed k r \<Rightarrow> client_continuation_known k
      | After_response continue' \<Rightarrow> \<not> continue'
      | After_request continue' \<Rightarrow> False
      | Report_to_request w ec \<Rightarrow> \<not> w)"

definition client_splitter_known :: "'h rpc_client_code message_splitter \<Rightarrow> bool" where
  "client_splitter_known s \<longleftrightarrow>
     (\<forall>f. waiting_for_response s = Some f \<longrightarrow> f = header_handler) \<and> waiting_for_request s = None \<and>
     (\<forall>op. reading s = Some op \<longrightarrow> client_continuation_known (op_continuation op))"

text \<open>Who is on the way to the registry.\<close>

definition header_task :: "'h rpc_client_code task \<Rightarrow> bool" where
  "header_task t \<longleftrightarrow>
     (case t of
        Perform (Wait_for_response f) \<Rightarrow> True
      | Perform (Client_code (In_registry (Header_received r))) \<Rightarrow> True
      | _ \<Rightarrow> False)"

definition header_way :: "'h rpc_client_code task list \<Rightarrow> 'h rpc_client_code message_splitter \<Rightarrow> bool" where
  "header_way ts s \<longleftrightarrow> list_ex header_task ts \<or> waiting_for_response s \<noteq> None"

definition reads_body :: "'h rpc_client_code message_splitter \<Rightarrow> bool" where
  "reads_body s \<longleftrightarrow> (case reading s of None \<Rightarrow> False | Some op \<Rightarrow> is_On_body (op_continuation op))"

definition body_task :: "'h rpc_client_code task \<Rightarrow> bool" where
  "body_task t \<longleftrightarrow>
     (case t of
        Perform (Parse_body p f) \<Rightarrow> True
      | Parsed k r \<Rightarrow> is_On_body k
      | Perform (Client_code (In_registry (Result_received h r))) \<Rightarrow> True
      | Perform (Client_code (In_registry (Result_unlocked h v))) \<Rightarrow> True
      | _ \<Rightarrow> False)"

definition body_way :: "'h rpc_client_code task list \<Rightarrow> 'h rpc_client_code message_splitter \<Rightarrow> bool" where
  "body_way ts s \<longleftrightarrow> list_ex body_task ts \<or> reads_body s"

text \<open>Who is on the way to unlock the input; who locks it parses a body afterwards.\<close>

definition lock_task :: "'h rpc_client_code task \<Rightarrow> bool" where
  "lock_task t \<longleftrightarrow>
     (case t of
        Perform (Parse_body p f) \<Rightarrow> True
      | Perform Unlock_input \<Rightarrow> True
      | Parsed k r \<Rightarrow> is_On_body k
      | Perform (Client_code (In_registry (Result_received h r))) \<Rightarrow> True
      | _ \<Rightarrow> False)"

definition lock_way :: "'h rpc_client_code task list \<Rightarrow> 'h rpc_client_code message_splitter \<Rightarrow> bool" where
  "lock_way ts s \<longleftrightarrow> list_ex lock_task ts \<or> reads_body s"

definition locking :: "'h rpc_client_code task \<Rightarrow> bool" where
  "locking t \<longleftrightarrow> (case t of Perform Lock_input \<Rightarrow> True | _ \<Rightarrow> False)"

fun locks_ok :: "'h rpc_client_code task list \<Rightarrow> bool" where
  "locks_ok [] \<longleftrightarrow> True"
| "locks_ok (t # ts) \<longleftrightarrow> (locking t \<longrightarrow> list_ex lock_task ts) \<and> locks_ok ts"

text \<open>Whether the splitter parses for whoever waits, and whether somebody waits for what it parses.\<close>

definition serves :: "'h rpc_client_code message_splitter \<Rightarrow> bool" where
  "serves s \<longleftrightarrow> (waiting_for_response s \<noteq> None \<longrightarrow> parsing_header s \<or> locked s)"

definition parses :: "'h rpc_client_code task list \<Rightarrow> 'h rpc_client_code message_splitter \<Rightarrow> bool" where
  "parses ts s \<longleftrightarrow>
     (parsing_header s \<longrightarrow> waiting_for_response s \<noteq> None \<and> reading_headers s @ task_headers ts \<noteq> [])"

definition refused :: "splitter_event \<Rightarrow> bool" where
  "refused e \<longleftrightarrow> (case e of Response_handler_called (Inl ec) \<Rightarrow> True | _ \<Rightarrow> False)"

text \<open>The result handlers that tasks and the outstanding read hold.\<close>

fun client_code_handlers :: "'h rpc_client_code \<Rightarrow> 'h list" where
  "client_code_handlers (In_registry k) = code_handlers k"
| "client_code_handlers _ = []"

fun client_continuation_handlers :: "'h rpc_client_code continuation \<Rightarrow> 'h list" where
  "client_continuation_handlers (On_body p f) = client_code_handlers (f (Inl Invalid_input_error))"
| "client_continuation_handlers _ = []"

fun client_task_handlers :: "'h rpc_client_code task \<Rightarrow> 'h list" where
  "client_task_handlers (Perform (Client_code k)) = client_code_handlers k"
| "client_task_handlers (Perform (Parse_body p f)) = client_continuation_handlers (On_body p f)"
| "client_task_handlers (Parsed k r) = client_continuation_handlers k"
| "client_task_handlers _ = []"

definition read_handlers :: "'h rpc_client_code message_splitter \<Rightarrow> 'h set" where
  "read_handlers s =
     (case reading s of None \<Rightarrow> {} | Some op \<Rightarrow> set (client_continuation_handlers (op_continuation op)))"

definition carried :: "'h rpc_client_code task list \<Rightarrow> 'h rpc_client_code message_splitter \<Rightarrow> 'h set" where
  "carried ts s = (\<Union>t\<in>set ts. set (client_task_handlers t)) \<union> read_handlers s"

lemma way_simps [simp]:
  "header_way (t # ts) s \<longleftrightarrow> header_task t \<or> header_way ts s"
  "header_way (ts @ ts') s \<longleftrightarrow> header_way ts s \<or> header_way ts' s"
  "header_way [] s \<longleftrightarrow> waiting_for_response s \<noteq> None"
  "body_way (t # ts) s \<longleftrightarrow> body_task t \<or> body_way ts s"
  "body_way (ts @ ts') s \<longleftrightarrow> body_way ts s \<or> body_way ts' s"
  "body_way [] s \<longleftrightarrow> reads_body s"
  "lock_way (t # ts) s \<longleftrightarrow> lock_task t \<or> lock_way ts s"
  "lock_way (ts @ ts') s \<longleftrightarrow> lock_way ts s \<or> lock_way ts' s"
  "lock_way [] s \<longleftrightarrow> reads_body s"
  "carried (t # ts) s = set (client_task_handlers t) \<union> carried ts s"
  "carried (ts @ ts') s = carried ts s \<union> carried ts' s"
  "carried [] s = read_handlers s"
  by (auto simp: header_way_def body_way_def lock_way_def carried_def list_ex_iff)

lemma locks_ok_append: "locks_ok ts \<Longrightarrow> locks_ok ts' \<Longrightarrow> locks_ok (ts @ ts')"
  by (induction ts) auto

text \<open>The parts of a list of tasks that do not depend on the splitter.\<close>

lemma way_change:
  "header_way ts s \<Longrightarrow> header_way ts s' \<or> waiting_for_response s \<noteq> None"
  "body_way ts s \<Longrightarrow> body_way ts s' \<or> reads_body s"
  "lock_way ts s \<Longrightarrow> lock_way ts s' \<or> reads_body s"
  "h \<in> carried ts s \<Longrightarrow> h \<in> carried ts s' \<or> h \<in> read_handlers s"
  by (auto simp: header_way_def body_way_def lock_way_def carried_def)

lemma task_simps [simp]:
  "header_task (Perform (Wait_for_response f))" "header_task (Client (In_registry (Header_received r)))"
  "\<not> header_task (Parsed k x)" "\<not> header_task (After_response b)" "\<not> header_task (Report_to_request b ec)"
  "\<not> header_task (Perform Lock_input)" "\<not> header_task (Perform Unlock_input)" "\<not> header_task (Perform (Parse_body p g))"
  "body_task (Perform (Parse_body p g))" "body_task (Parsed k x) \<longleftrightarrow> is_On_body k"
  "body_task (Client (In_registry (Result_received h y)))" "body_task (Client (In_registry (Result_unlocked h v)))"
  "\<not> body_task (After_response b)" "\<not> body_task (Report_to_request b ec)" "\<not> body_task (Perform Lock_input)"
  "\<not> body_task (Perform Unlock_input)" "\<not> body_task (Perform (Wait_for_response f))"
  "\<not> body_task (Client (In_registry (Header_received r)))"
  "lock_task (Perform (Parse_body p g))" "lock_task (Perform Unlock_input)" "lock_task (Parsed k x) \<longleftrightarrow> is_On_body k"
  "lock_task (Client (In_registry (Result_received h y)))" "\<not> lock_task (After_response b)"
  "\<not> lock_task (Report_to_request b ec)" "\<not> lock_task (Perform Lock_input)" "\<not> lock_task (Perform (Wait_for_response f))"
  "locking (Perform Lock_input)" "\<not> locking (Perform Unlock_input)" "\<not> locking (Perform (Parse_body p g))"
  "\<not> locking (Perform (Wait_for_response f))" "\<not> locking (Client c)" "\<not> locking (Parsed k x)"
  "\<not> locking (After_response b)" "\<not> locking (Report_to_request b ec)"
  by (simp_all add: header_task_def body_task_def lock_task_def locking_def)

lemma splitter_update_simps [simp]:
  "reads_body (s\<lparr>octets := x\<rparr>) = reads_body s" "reads_body (s\<lparr>locked := l\<rparr>) = reads_body s"
  "reads_body (s\<lparr>begin_parse_message := b\<rparr>) = reads_body s" "reads_body (s\<lparr>parsing_header := b\<rparr>) = reads_body s"
  "reads_body (s\<lparr>waiting_for_response := w\<rparr>) = reads_body s" "\<not> reads_body (s\<lparr>reading := None\<rparr>)"
  "reads_body (s\<lparr>reading := Some (Read_operation q k)\<rparr>) = is_On_body k"
  "read_handlers (s\<lparr>octets := x\<rparr>) = read_handlers s" "read_handlers (s\<lparr>locked := l\<rparr>) = read_handlers s"
  "read_handlers (s\<lparr>begin_parse_message := b\<rparr>) = read_handlers s"
  "read_handlers (s\<lparr>parsing_header := b\<rparr>) = read_handlers s"
  "read_handlers (s\<lparr>waiting_for_response := w\<rparr>) = read_handlers s" "read_handlers (s\<lparr>reading := None\<rparr>) = {}"
  "read_handlers (s\<lparr>reading := Some (Read_operation q k)\<rparr>) = set (client_continuation_handlers k)"
  by (simp_all add: reads_body_def read_handlers_def)

subsection \<open>The tasks of the splitter\<close>

text \<open>A parse from the buffer ends in a result, or in an outstanding read.\<close>

definition parse_proceeds where
  "parse_proceeds k s s' ts es \<longleftrightarrow> \<not> list_ex refused es \<and>
     ((\<exists>x r. s' = s\<lparr>octets := x\<rparr> \<and> ts = [Parsed k r]) \<or>
      (\<exists>x q. reading s = None \<and> s' = s\<lparr>octets := x, reading := Some (Read_operation q k)\<rparr> \<and> ts = []))"

lemma after_parse_proceeds: "after_parse k s out = Inr ((s', ts), es) \<Longrightarrow> parse_proceeds k s s' ts es"
  by (induction k s out rule: after_parse.induct) (auto simp: parse_proceeds_def refused_def split: if_splits)

lemma parse_from_buffer_proceeds:
  "parse_from_buffer is_valid k s = Inr ((s', ts), es) \<Longrightarrow> parse_proceeds k s s' ts es"
  by (auto simp: parse_from_buffer_def and_then_Inr_iff dest!: after_parse_proceeds)
    (auto simp: parse_proceeds_def refused_def)

text \<open>What a step of the splitter keeps of the ways, given the tasks before and after it.\<close>

definition advances where
  "advances ts s ts' s' \<longleftrightarrow>
     client_splitter_known s' \<and> list_all client_task_known ts' \<and>
     (header_way ts s \<longrightarrow> header_way ts' s') \<and> (body_way ts s \<longrightarrow> body_way ts' s') \<and>
     (lock_way ts s \<and> locked s' \<longrightarrow> lock_way ts' s') \<and> (locked s' \<longrightarrow> locked s \<or> list_ex locking ts) \<and>
     locks_ok ts' \<and> carried ts s \<subseteq> carried ts' s' \<and> (serves s \<longrightarrow> serves s')"

lemma advances_rest:
  assumes "advances ts s ts' s'" and "list_all client_task_known rest" and "locks_ok rest"
  shows "advances (ts @ rest) s (ts' @ rest) s'"
  unfolding advances_def
proof (intro conjI impI)
  show "header_way (ts' @ rest) s'" if "header_way (ts @ rest) s"
    using that assms(1) way_change(1) [of rest s s'] by (auto simp: advances_def header_way_def)
  show "body_way (ts' @ rest) s'" if "body_way (ts @ rest) s"
    using that assms(1) way_change(2) [of rest s s'] by (auto simp: advances_def body_way_def)
  show "lock_way (ts' @ rest) s'" if "lock_way (ts @ rest) s \<and> locked s'"
    using that assms(1) way_change(3) [of rest s s'] by (auto simp: advances_def lock_way_def)
  show "carried (ts @ rest) s \<subseteq> carried (ts' @ rest) s'"
  proof -
    have "carried rest s \<subseteq> carried rest s' \<union> read_handlers s" using way_change(4) by fast
    moreover have "read_handlers s \<subseteq> carried ts s" by (simp add: carried_def)
    moreover have "carried ts s \<subseteq> carried ts' s'" using assms(1) by (simp add: advances_def)
    ultimately show ?thesis by (simp only: way_simps) blast
  qed
qed (use assms in \<open>auto simp: advances_def intro: locks_ok_append\<close>)

text \<open>A parse that proceeds carries on what its continuation stands for.\<close>

lemma parse_advances:
  assumes parse: "parse_proceeds k s s' ts es" and s: "client_splitter_known s" and k: "client_continuation_known k"
    and t: "\<not> header_task t" "lock_task t \<longrightarrow> is_On_body k" "body_task t \<longrightarrow> is_On_body k" "set (client_task_handlers t) = set (client_continuation_handlers k)"
  shows "advances [t] s ts s'"
  using parse unfolding parse_proceeds_def
proof (elim conjE disjE exE)
  fix x r
  assume "s' = s\<lparr>octets := x\<rparr>" "ts = [Parsed k r]"
  with s k t show ?thesis
    by (auto simp: advances_def client_splitter_known_def client_task_known_def serves_def)
next
  fix x q
  assume "reading s = None" "s' = s\<lparr>octets := x, reading := Some (Read_operation q k)\<rparr>" "ts = []"
  with s k t show ?thesis
    by (auto simp: advances_def client_splitter_known_def serves_def reads_body_def [of s] read_handlers_def [of s])
qed

lemma read_advances:
  assumes parse: "parse_proceeds k (s\<lparr>reading := None\<rparr>) s' ts es" and s: "client_splitter_known s"
    and reading: "reading s = Some (Read_operation q k)"
  shows "advances [] s ts s'"
proof -
  from s reading have k: "client_continuation_known k" by (auto simp: client_splitter_known_def)
  from parse show ?thesis
    unfolding parse_proceeds_def
  proof (elim conjE disjE exE)
    fix x r
    assume "s' = s\<lparr>reading := None\<rparr>\<lparr>octets := x\<rparr>" "ts = [Parsed k r]"
    with s k reading show ?thesis
      by (auto simp: advances_def client_splitter_known_def client_task_known_def serves_def reads_body_def read_handlers_def)
  next
    fix x q'
    assume "s' = s\<lparr>reading := None\<rparr>\<lparr>octets := x, reading := Some (Read_operation q' k)\<rparr>" "ts = []"
    with s k reading show ?thesis
      by (auto simp: advances_def client_splitter_known_def serves_def reads_body_def read_handlers_def)
  qed
qed

lemma begin_advances:
  assumes begins: "call_begin_parse_message is_valid s = Inr ((s', ts), es)" and s: "client_splitter_known s"
  shows "advances [] s ts s' \<and> serves s' \<and> \<not> list_ex refused es"
proof (cases "locked s")
  case True
  with assms show ?thesis
    by (auto simp: call_begin_parse_message_def advances_def serves_def split: if_splits)
next
  case False
  let ?s = "s\<lparr>begin_parse_message := False, parsing_header := True\<rparr>"
  from begins False have "parse_proceeds On_message_type ?s s' ts es"
    by (auto simp: call_begin_parse_message_def split: if_splits dest: parse_from_buffer_proceeds)
  moreover from this have "serves s'" by (auto simp: parse_proceeds_def serves_def)
  moreover have "client_splitter_known ?s" using s by (simp add: client_splitter_known_def)
  ultimately show ?thesis
    using parse_advances [of On_message_type ?s s' ts es "After_response False"]
    by (auto simp: client_continuation_known_def parse_proceeds_def advances_def)
qed

lemma on_error_advances:
  assumes "splitter_on_error ec s = Inr ((s', ts), es)" and "client_splitter_known s"
  shows "advances [] s ts s' \<and> (waiting_for_response s \<noteq> None \<longrightarrow> list_ex refused es)"
  using assms
  by (auto simp: splitter_on_error_def Let_def advances_def client_splitter_known_def client_task_known_def
      client_call_known_def serves_def refused_def split: option.splits)

lemma advances_from:
  assumes "advances [] s ts s'" and "\<not> header_task t" "\<not> body_task t" "\<not> lock_task t" "client_task_handlers t = []"
  shows "advances [t] s ts s'"
  using assms by (auto simp: advances_def)

lemma message_type_advances:
  assumes "message_type_parsed is_valid r s = Inr ((s', ts), es)" and s: "client_splitter_known s"
  shows "advances [] s ts s'"
  using message_type_cases [of is_valid r s]
proof (elim disjE exE conjE)
  fix ec
  assume "message_type_parsed is_valid r s = splitter_on_error ec s"
  with on_error_advances [of ec s s' ts es] assms show ?thesis by simp
next
  assume "message_type_parsed is_valid r s = parse_from_buffer is_valid On_response s"
  with assms have "parse_proceeds On_response s s' ts es" by (auto dest: parse_from_buffer_proceeds)
  from parse_advances [OF this s, of "After_response False"] show ?thesis
    by (simp add: client_continuation_known_def advances_def)
next
  assume "waiting_for_request s \<noteq> None"
  with s show ?thesis by (simp add: client_splitter_known_def)
qed

text \<open>Every task of the splitter advances.\<close>

lemma run_task_advances:
  assumes run: "run_task is_valid t s = Inr ((s', ts), es)" and s: "client_splitter_known s"
    and t: "client_task_known t" and not: "\<forall>k. t \<noteq> Client k"
  shows "advances [t] s ts s'"
proof (cases rule: run_task.cases [of "(is_valid, t, s)"])
  case (2 v handler s0)
  let ?s = "s\<lparr>waiting_for_response := Some handler, begin_parse_message := True\<rparr>"
  from 2 run s t have known: "client_splitter_known ?s" and handler: "handler = header_handler"
    by (simp_all add: client_task_known_def client_call_known_def client_splitter_known_def)
  show ?thesis
  proof (cases "parsing_header s")
    case True
    with 2 run known show ?thesis
      by (auto simp: wait_for_response_def and_then_Inr_iff advances_def serves_def split: if_splits)
  next
    case False
    with 2 run obtain es' where "call_begin_parse_message v ?s = Inr ((s', ts), es')"
      by (auto simp: wait_for_response_def and_then_Inr_iff split: if_splits)
    from begin_advances [OF this known] 2 show ?thesis
      by (auto simp: advances_def)
  qed
next
  case (3 v handler s0)
  with t show ?thesis by (simp add: client_task_known_def client_call_known_def)
next
  case (4 v s0)
  with run s show ?thesis by (auto simp: lock_input_def advances_def client_splitter_known_def serves_def split: if_splits)
next
  case (5 v s0)
  let ?s = "s\<lparr>locked := False\<rparr>"
  from s have known: "client_splitter_known ?s" by (simp add: client_splitter_known_def)
  show ?thesis
  proof (cases "waiting_for_response s = None")
    case True
    with 5 run s known show ?thesis
      by (auto simp: unlock_input_def advances_def client_splitter_known_def serves_def Let_def split: if_splits)
  next
    case False
    with 5 run have "call_begin_parse_message v ?s = Inr ((s', ts), es)"
      by (auto simp: unlock_input_def Let_def split: if_splits)
    from begin_advances [OF this known] 5 show ?thesis by (auto simp: advances_def)
  qed
next
  case (6 v p f s0)
  then have parse: "parse_from_buffer v (On_body p f) s = Inr ((s', ts), es)" using run by simp
  show ?thesis
    by (rule parse_advances [OF parse_from_buffer_proceeds [OF parse] s])
      (use 6 t in \<open>auto simp: client_task_known_def client_call_known_def client_continuation_known_def\<close>)
next
  case (7 v r s0)
  with run have "message_type_parsed v r s = Inr ((s', ts), es)" by simp
  from message_type_advances [OF this s] 7 show ?thesis by (intro advances_from) auto
next
  case (8 v r s0)
  show ?thesis
  proof (cases "splitter_on_error Invalid_input_error s = Inr ((s', ts), es) \<or> (\<exists>ec. splitter_on_error ec s = Inr ((s', ts), es))")
    case True
    then obtain ec where "splitter_on_error ec s = Inr ((s', ts), es)" by blast
    from on_error_advances [OF this s] 8 show ?thesis by (intro advances_from) auto
  next
    case False
    with 8 run s show ?thesis
      by (auto simp: response_parsed_def advances_def client_splitter_known_def client_task_known_def
          client_call_known_def serves_def split: option.splits sum.splits if_splits)
  qed
next
  case (9 v r s0)
  with run s show ?thesis by (simp add: request_parsed_def client_splitter_known_def)
next
  case (10 v p f r s0)
  with run s t show ?thesis
    by (auto simp: advances_def client_task_known_def client_call_known_def client_continuation_known_def)
next
  case (11 v b s0)
  with run s t show ?thesis by (auto simp: after_response_def advances_def client_task_known_def)
next
  case (12 v b s0)
  with t show ?thesis by (simp add: client_task_known_def)
next
  case (13 v w ec s0)
  with run s t show ?thesis by (auto simp: report_to_request_def advances_def client_task_known_def)
qed (use not in simp)

text \<open>While the splitter parses a header, somebody waits for it, and the parser is at work.\<close>

lemma parse_parses:
  assumes "parse_proceeds k s s' ts es"
    and "parsing_header s \<Longrightarrow> waiting_for_response s \<noteq> None \<and> (is_On_body k \<longrightarrow> reading_headers s @ task_headers rest \<noteq> [])"
  shows "parses (ts @ rest) s'"
  using assms by (cases k) (auto simp: parse_proceeds_def parses_def reading_headers_None)

lemma begin_parses:
  assumes "call_begin_parse_message is_valid s = Inr ((s', ts), es)" and "waiting_for_request s = None"
  shows "parses (ts @ rest) s'"
proof (cases "locked s")
  case True
  with assms show ?thesis by (auto simp: call_begin_parse_message_def parses_def split: if_splits)
next
  case False
  with assms have waiting: "waiting_for_response s \<noteq> None"
    and "parse_proceeds On_message_type (s\<lparr>begin_parse_message := False, parsing_header := True\<rparr>) s' ts es"
    by (auto simp: call_begin_parse_message_def split: if_splits dest: parse_from_buffer_proceeds)
  from parse_parses [OF this(2), of rest] waiting show ?thesis by simp
qed

lemma failed_parse_parses:
  assumes "splitter_on_error ec s = Inr ((s', ts), es)" and "\<not> list_ex refused es"
    and "waiting_for_response s \<noteq> None"
  shows "parses (ts @ rest) s'"
  using assms by (auto simp: splitter_on_error_def Let_def refused_def split: option.splits)

lemma message_type_parses:
  assumes run: "message_type_parsed is_valid r s = Inr ((s', ts), es)" and s: "client_splitter_known s"
    and calm: "\<not> list_ex refused es" and waiting: "waiting_for_response s \<noteq> None"
  shows "parses (ts @ rest) s'"
  using message_type_cases [of is_valid r s]
proof (elim disjE exE conjE)
  fix ec
  assume "message_type_parsed is_valid r s = splitter_on_error ec s"
  with failed_parse_parses [of ec s s' ts es] run calm waiting show ?thesis by simp
next
  assume "message_type_parsed is_valid r s = parse_from_buffer is_valid On_response s"
  with run have "parse_proceeds On_response s s' ts es" by (auto dest: parse_from_buffer_proceeds)
  from parse_parses [OF this] waiting show ?thesis by simp
next
  assume "waiting_for_request s \<noteq> None"
  with s show ?thesis by (simp add: client_splitter_known_def)
qed

lemma run_task_parses:
  assumes run: "run_task is_valid t s = Inr ((s', ts), es)" and s: "client_splitter_known s"
    and t: "client_task_known t" and not: "\<forall>k. t \<noteq> Client k" and calm: "\<not> list_ex refused es"
    and inv: "splitter_inv (t # rest) s" "parses (t # rest) s"
  shows "parses (ts @ rest) s'"
proof (cases rule: run_task.cases [of "(is_valid, t, s)"])
  case (2 v handler s0)
  let ?s = "s\<lparr>waiting_for_response := Some handler, begin_parse_message := True\<rparr>"
  show ?thesis
  proof (cases "parsing_header s")
    case True
    with 2 run inv(2) show ?thesis
      by (auto simp: wait_for_response_def and_then_Inr_iff parses_def split: if_splits)
  next
    case False
    with 2 run obtain es' where "call_begin_parse_message v ?s = Inr ((s', ts), es')"
      by (auto simp: wait_for_response_def and_then_Inr_iff split: if_splits)
    from begin_parses [OF this] s show ?thesis by (simp add: client_splitter_known_def)
  qed
next
  case (3 v handler s0)
  with t show ?thesis by (simp add: client_task_known_def client_call_known_def)
next
  case (4 v s0)
  with run inv(2) show ?thesis by (auto simp: lock_input_def parses_def split: if_splits)
next
  case (5 v s0)
  let ?s = "s\<lparr>locked := False\<rparr>"
  show ?thesis
  proof (cases "waiting_for_response s = None")
    case True
    with 5 run s inv(2) show ?thesis
      by (auto simp: unlock_input_def parses_def client_splitter_known_def Let_def split: if_splits)
  next
    case False
    with 5 run have "call_begin_parse_message v ?s = Inr ((s', ts), es)"
      by (auto simp: unlock_input_def Let_def split: if_splits)
    from begin_parses [OF this] s show ?thesis by (simp add: client_splitter_known_def)
  qed
next
  case (6 v p f s0)
  then have "parse_from_buffer v (On_body p f) s = Inr ((s', ts), es)" using run by simp
  from parse_parses [OF parse_from_buffer_proceeds [OF this], of rest] inv(2) 6 show ?thesis
    by (auto simp: parses_def)
next
  case (7 v r s0)
  with inv have "waiting_for_response s \<noteq> None" by (auto simp: parses_def splitter_inv_def Let_def)
  with message_type_parses [OF _ s calm] run 7 show ?thesis by simp
next
  case (8 v r s0)
  with inv have waiting: "waiting_for_response s \<noteq> None" by (auto simp: parses_def splitter_inv_def Let_def)
  show ?thesis
  proof (cases "\<exists>ec. splitter_on_error ec s = Inr ((s', ts), es)")
    case True
    with failed_parse_parses [OF _ calm waiting] show ?thesis by blast
  next
    case False
    with 8 run show ?thesis
      by (auto simp: response_parsed_def parses_def split: option.splits sum.splits if_splits)
  qed
next
  case (9 v r s0)
  with run s show ?thesis by (simp add: request_parsed_def client_splitter_known_def)
next
  case (10 v p f r s0)
  with run inv(2) show ?thesis by (auto simp: parses_def)
next
  case (11 v b s0)
  with run t inv(2) show ?thesis by (auto simp: after_response_def parses_def client_task_known_def)
next
  case (12 v b s0)
  with t show ?thesis by (simp add: client_task_known_def)
next
  case (13 v w ec s0)
  with run t inv(2) show ?thesis by (auto simp: report_to_request_def parses_def client_task_known_def)
qed (use not in simp)

lemma read_completes_advances:
  assumes run: "read_completes is_valid ec bs s = Inr ((s', ts), es)" and s: "client_splitter_known s"
    and inv: "splitter_inv [] s" "parses [] s"
  shows "advances [] s ts s' \<and> parses ts s'"
proof -
  from run obtain p k es' where reading: "reading s = Some (Read_operation p k)"
    and "after_parse k (s\<lparr>reading := None\<rparr>)
      (on_read (parser_class_of is_valid (continuation_parser k)) ec bs
        \<lparr>receive_buffer = octets s, parser = p\<rparr>) = Inr ((s', ts), es')"
    by (auto simp: read_completes_def and_then_Inr_iff split: option.splits read_operation.splits)
  then have parse: "parse_proceeds k (s\<lparr>reading := None\<rparr>) s' ts es'" by (blast dest: after_parse_proceeds)
  from inv reading have "parsing_header (s\<lparr>reading := None\<rparr>) \<Longrightarrow>
      waiting_for_response (s\<lparr>reading := None\<rparr>) \<noteq> None \<and>
      (is_On_body k \<longrightarrow> reading_headers (s\<lparr>reading := None\<rparr>) @ task_headers [] \<noteq> [])"
    by (auto simp: parses_def reading_headers_def)
  from parse_parses [OF parse this] read_advances [OF parse s reading] show ?thesis by simp
qed

subsection \<open>The code of the client\<close>

text \<open>Who is on the way to a registry in its state; a registry that expects nothing has no request pending.\<close>

definition on_way :: "'h rpc_client_code task list \<Rightarrow> 'h rpc_client_code message_splitter \<Rightarrow>
    'h expected_response_registry \<Rightarrow> bool" where
  "on_way ts s r \<longleftrightarrow>
     (case response_state r of
        Not_expecting_response \<Rightarrow> expected_responses r = []
      | Parsing_header \<Rightarrow> header_way ts s
      | Parsing_result \<Rightarrow> body_way ts s)"

text \<open>What becomes of a handler: it is called, or \<open>std::map::insert\<close> did not insert it.\<close>

definition settled :: "'h \<Rightarrow> 'h rpc_client_event list \<Rightarrow> bool" where
  "settled h es \<longleftrightarrow> (\<exists>r. Registry_event (Handled h r) \<in> set es) \<or> Registry_event (Discarded h) \<in> set es"

definition client_dropped :: "'h rpc_client_event \<Rightarrow> bool" where
  "client_dropped e \<longleftrightarrow> (case e of Registry_event (Dropped h) \<Rightarrow> True | _ \<Rightarrow> False)"

definition call_carries :: "'h rpc_client_code call list \<Rightarrow> 'h set" where
  "call_carries calls = (\<Union>call\<in>set calls. set (client_task_handlers (Perform call)))"

text \<open>A piece of code advances: the ways lead on through the calls it makes, and no handler gets lost.\<close>

definition code_advances where
  "code_advances k r calls r' es \<longleftrightarrow>
     list_all client_call_known calls \<and> locks_ok (map Perform calls) \<and>
     (\<forall>rest s. on_way (Client k # rest) s r \<longrightarrow> on_way (map Perform calls @ rest) s r') \<and>
     (\<forall>rest s. lock_way (Client k # rest) s \<longrightarrow> lock_way (map Perform calls @ rest) s) \<and>
     (\<forall>h. h \<in> set (waiting_handlers r) \<union> set (client_code_handlers k) \<union>
         {h. \<exists>i name args. Requested i name args h \<in> set es} \<longrightarrow>
       h \<in> set (waiting_handlers r') \<union> call_carries calls \<or> settled h es)"

lemma carried_calls: "carried (map Perform calls @ rest) s = call_carries calls \<union> carried rest s"
  by (induction calls) (auto simp: call_carries_def)

lemma known_calls: "list_all client_task_known (map Perform calls) \<longleftrightarrow> list_all client_call_known calls"
  by (simp add: list_all_iff client_task_known_def)

text \<open>The code of the registry.\<close>

lemma registry_carries:
  "call_carries (map (map_call In_registry) calls) = set (concat (map call_handlers calls))"
proof -
  have "client_task_handlers (Perform (map_call In_registry call)) = call_handlers call" for call :: "'a registry_code call"
    by (cases call) simp_all
  then show ?thesis by (simp add: call_carries_def)
qed

lemma registry_calls_known:
  assumes "list_all call_ok calls" and "\<And>h. Wait_for_request h \<notin> set calls"
  shows "list_all client_call_known (map (map_call In_registry) calls)"
proof -
  have "client_call_known (map_call In_registry call)" if "call \<in> set calls" for call
  proof -
    from that assms have "call_ok call" "\<And>h. call \<noteq> Wait_for_request h" by (auto simp: list_all_iff)
    then show ?thesis by (cases call) (auto simp: call_ok_def client_call_known_def body_ok_def comp_def)
  qed
  then show ?thesis by (simp add: list_all_iff)
qed

lemma registry_handlers_kept:
  assumes "std_map_ok (expected_responses r)" and "run_registry (\<lambda>h r. []) k r = Inr ((r', calls), es)"
    and "\<not> list_ex client_dropped (map Registry_event es)"
    and "h \<in> set (waiting_handlers r) \<union> set (code_handlers k) \<union> set (expected es)"
  shows "h \<in> set (waiting_handlers r') \<union> call_carries (map (map_call In_registry) calls) \<or>
    settled h (map Registry_event es)"
proof -
  from assms(3) have "dropped es = []"
    by (induction es) (auto simp: client_dropped_def split: registry_event.splits)
  with registry_conserves [OF assms(1,2)]
  have "mset (expected es) + mset (waiting_handlers r) + mset (code_handlers k) =
      mset (handled es) + mset (waiting_handlers r') + mset (concat (map call_handlers calls))" by simp
  from arg_cong [where f = set_mset, OF this]
  have "set (waiting_handlers r) \<union> set (code_handlers k) \<union> set (expected es) =
      set (handled es) \<union> set (waiting_handlers r') \<union> set (concat (map call_handlers calls))" by auto
  moreover have "h \<in> set (handled es) \<Longrightarrow> settled h (map Registry_event es)"
    by (auto simp: handled_def settled_def split: registry_event.splits)
  ultimately show ?thesis using assms(4) by (auto simp: registry_carries)
qed

lemma other_code_simps [simp]:
  "\<not> header_task (Client (Generated_method m))" "\<not> header_task (Client (Request_written ec))"
  "\<not> header_task (Client (Request_handler ec))" "\<not> header_task (Client Continue_request)"
  "\<not> header_task (Client (In_registry (Member n)))" "\<not> header_task (Client (In_registry (Result_received h x)))"
  "\<not> header_task (Client (In_registry (Result_unlocked h v)))" "\<not> header_task (Client (In_registry (Call_handler h x)))"
  "\<not> body_task (Client (Generated_method m))" "\<not> body_task (Client (Request_written ec))"
  "\<not> body_task (Client (Request_handler ec))" "\<not> body_task (Client Continue_request)"
  "\<not> body_task (Client (In_registry (Member n)))" "\<not> body_task (Client (In_registry (Call_handler h x)))"
  "\<not> lock_task (Client (Generated_method m))" "\<not> lock_task (Client (Request_written ec))"
  "\<not> lock_task (Client (Request_handler ec))" "\<not> lock_task (Client Continue_request)"
  "\<not> lock_task (Client (In_registry (Member n)))" "\<not> lock_task (Client (In_registry (Header_received q)))"
  "\<not> lock_task (Client (In_registry (Result_unlocked h v)))" "\<not> lock_task (Client (In_registry (Call_handler h x)))"
  by (simp_all add: header_task_def body_task_def lock_task_def)

lemma error_calls_ways:
  "locks_ok (map (Perform \<circ> map_call In_registry \<circ> (\<lambda>(request, p, handler). Client_code (Call_handler handler (Inl ec)))) m)"
  by (induction m) auto

lemma registry_ways:
  assumes "run_registry (\<lambda>h r. []) k r = Inr ((r', calls), es)" and "\<forall>h r. k \<noteq> Call_handler h r"
    and "\<not> list_ex client_dropped (map Registry_event es)"
  shows "locks_ok (map Perform (map (map_call In_registry) calls)) \<and>
    (on_way (Client (In_registry k) # rest) s r \<longrightarrow>
      on_way (map Perform (map (map_call In_registry) calls) @ rest) s r') \<and>
    (lock_way (Client (In_registry k) # rest) s \<longrightarrow>
      lock_way (map Perform (map (map_call In_registry) calls) @ rest) s)"
proof (cases rule: run_registry.cases [of "(\<lambda>h r. [], k, r)"])
  case (1 react request p handler r0)
  with assms(1) show ?thesis
    by (auto simp: expect_response_def parse_header_def on_way_def Let_def split: response_state.splits)
next
  case (2 react ec r0)
  with assms(1) show ?thesis
    by (auto simp: registry_on_error_def on_way_def Let_def error_calls_ways)
next
  case (3 react request r0)
  with assms(1) show ?thesis
    by (auto simp: header_received_def registry_on_error_def on_way_def Let_def error_calls_ways and_then_Inr_iff
        split: sum.splits option.splits if_splits)
next
  case (4 react handler result r0)
  with assms(1,3) show ?thesis
    by (auto simp: result_received_def on_way_def and_then_Inr_iff client_dropped_def split: sum.splits if_splits)
next
  case (5 react handler v r0)
  with assms(1) show ?thesis
    by (auto simp: result_unlocked_def parse_header_def on_way_def Let_def split: if_splits)
qed (use assms(2) in auto)

lemma ways_simps [simp]:
  "\<not> header_task t \<Longrightarrow> \<not> body_task t \<Longrightarrow> on_way (t # ts) s r \<longleftrightarrow> on_way ts s r"
  by (simp add: on_way_def split: response_state.splits)

lemma settled_simps [simp]:
  "\<not> settled h []" "settled h (es @ es') \<longleftrightarrow> settled h es \<or> settled h es'"
  "settled h (e # es) \<longleftrightarrow> (\<exists>r. e = Registry_event (Handled h r)) \<or> e = Registry_event (Discarded h) \<or> settled h es"
  "\<not> settled h (map Request_event ws)"
  by (auto simp: settled_def)

lemma call_carries_simps [simp]:
  "call_carries [] = {}" "call_carries (calls @ calls') = call_carries calls \<union> call_carries calls'"
  "call_carries (call # calls) = set (client_task_handlers (Perform call)) \<union> call_carries calls"
  by (auto simp: call_carries_def)

lemma registry_code_advances:
  assumes "std_map_ok (expected_responses r)" and "run_registry (\<lambda>h r. []) k r = Inr ((r', calls), es)"
    and "\<forall>h r. k \<noteq> Call_handler h r" and "\<not> list_ex client_dropped (map Registry_event es)"
  shows "code_advances (In_registry k) r (map (map_call In_registry) calls) r' (map Registry_event es)"
  unfolding code_advances_def
proof (intro conjI allI impI)
  have "Wait_for_request h \<notin> set calls" for h by (rule registry_client.never_serves [OF assms(2)])
  with registry_conserves [OF assms(1,2)] show "list_all client_call_known (map (map_call In_registry) calls)"
    by (blast intro: registry_calls_known)
qed (use registry_ways [OF assms(2-4)] registry_handlers_kept [OF assms(1,2,4)] in auto)

text \<open>Code that leaves the registry alone.\<close>

lemma other_code_advances:
  assumes "\<not> header_task (Client k)" and "\<not> body_task (Client k)" and "\<not> lock_task (Client k)"
    and "list_all client_call_known calls" and "list_all (\<lambda>call. \<not> locking (Perform call)) calls"
    and "\<And>h. h \<in> set (client_code_handlers k) \<or> (\<exists>i name args. Requested i name args h \<in> set es) \<Longrightarrow>
      h \<in> call_carries calls \<or> settled h es"
  shows "code_advances k r calls r es"
proof -
  have "on_way ts s r \<Longrightarrow> on_way (ts' @ ts) s r" for ts ts' s
    by (auto simp: on_way_def split: response_state.splits)
  moreover have "locks_ok (map Perform calls)" using assms(5) by (induction calls) auto
  ultimately show ?thesis using assms unfolding code_advances_def by auto
qed

lemma call_method_advances:
  assumes ok: "std_map_ok (expected_responses (responses c))"
    and run: "call_method is_valid d name args h c = Inr ((c', calls), es)" and calm: "\<not> list_ex client_dropped es"
  shows "code_advances (Generated_method (Call_method name args h)) (responses c) calls (responses c') es"
proof -
  from run obtain m es' where "std_map_find name (methods d) = Some m"
    and req: "pipeline_request (build_request is_valid name (parameters m) args)
        (parser_type_of (method_result m)) h c = Inr ((c', calls), es')"
    and es: "es = Requested (next_request_id c) name args h # es'"
    by (auto simp: call_method_def and_then_Inr_iff split: option.splits if_splits)
  from req show ?thesis
  proof (cases rule: pipeline_request_cases)
    case (failed w es'')
    with es show ?thesis by (auto intro!: other_code_advances simp: client_call_known_def)
  next
    case (sent w r es'' vs calls')
    let ?k = "Member (Expect_response (next_request_id c) (parser_type_of (method_result m)) h)"
    have "run_registry (\<lambda>h r. []) ?k (responses c) = Inr ((r, calls'), vs)" using sent(3) by simp
    from registry_code_advances [OF ok this] calm es sent(2)
    have "code_advances (In_registry ?k) (responses c) calls r (map Registry_event vs)"
      using sent(4) by simp
    moreover have "h \<in> set (waiting_handlers r) \<union> call_carries calls \<or> settled h (map Registry_event vs)"
    proof -
      have "Expected (next_request_id c) (parser_type_of (method_result m)) h \<in> set vs \<or> Discarded h \<in> set vs"
        using sent(3) by (auto simp: expect_response_def Let_def split: response_state.splits if_splits)
      moreover have "Expected i p h \<in> set vs \<Longrightarrow> h \<in> set (expected vs)" for i p
        by (force simp: expected_def)
      ultimately show ?thesis
        using registry_handlers_kept [OF ok \<open>run_registry _ ?k _ = _\<close>, of h] calm es sent(2,4)
        by (auto simp: settled_def)
    qed
    ultimately show ?thesis
      using es sent(2,5) unfolding code_advances_def by auto
  qed
qed

lemma client_code_advances:
  assumes ok: "std_map_ok (expected_responses (responses c))"
    and run: "run_rpc_client is_valid d react k c = Inr ((c', calls), es)" and calm: "\<not> list_ex client_dropped es"
  shows "code_advances k (responses c) calls (responses c') es"
proof (cases k)
  case (Generated_method m)
  with run calm show ?thesis by (cases m) (auto intro: call_method_advances [OF ok])
next
  case (In_registry k')
  show ?thesis
  proof (cases "\<exists>h r. k' = Call_handler h r")
    case True
    with In_registry run show ?thesis
      by (auto intro!: other_code_advances simp: list_all_iff client_call_known_def)
  next
    case False
    with In_registry run have "with_responses (run_registry (\<lambda>h r. []) k') c = Inr ((c', calls), es)"
      by (cases k') auto
    with False In_registry calm show ?thesis
      by (auto simp: with_responses_iff intro!: registry_code_advances [OF ok])
  qed
next
  case (Request_written ec)
  with run show ?thesis
    by (auto intro!: other_code_advances simp: list_all_iff client_call_known_def split: sum.splits prod.splits)
next
  case (Request_handler ec)
  show ?thesis
  proof (cases ec)
    case None
    with Request_handler run show ?thesis by (auto intro!: other_code_advances simp: and_then_def)
  next
    case (Some e)
    with Request_handler run obtain r calls' vs where
      r: "run_registry (\<lambda>h r. []) (Member (On_error e)) (responses c) = Inr ((r, calls'), vs)"
      and out: "c' = c\<lparr>responses := r\<rparr>" "calls = map (map_call In_registry) calls'"
        "es = Request_event (Handler_called () ec) # map Registry_event vs"
      by (auto simp: and_then_Inr_iff with_responses_iff)
    from registry_code_advances [OF ok r] calm out Request_handler show ?thesis
      by (auto simp: code_advances_def)
  qed
next
  case Continue_request
  with run show ?thesis
    by (auto intro!: other_code_advances simp: and_then_Inr_iff with_requests_iff)
qed

text \<open>A handler is discarded only when its identifier is in use.\<close>

lemma discarded_again:
  assumes inv: "registering_inv d tr c" and run: "run_rpc_client is_valid d react k c = Inr ((c', calls), es)"
    and discarded: "Registry_event (Discarded h) \<in> set es"
  shows "\<not> distinct (map fst (requests_made (tr @ es)))"
proof -
  have other: "Discarded h \<notin> set vs" if "run_registry (\<lambda>h r. []) k' r = Inr ((r', calls'), vs)" "\<forall>m. k' \<noteq> Member m" for k' r r' calls' vs
    using that by (cases rule: run_registry.cases [of "(\<lambda>h r. [], k', r)"])
      (auto simp: registry_ops split: if_splits sum.splits option.splits)
  show ?thesis
  proof (cases k)
    case (Generated_method m)
    then obtain name args h' where "call_method is_valid d name args h' c = Inr ((c', calls), es)"
      using run by (cases m) auto
    then obtain m es' where "std_map_find name (methods d) = Some m"
      and req: "pipeline_request (build_request is_valid name (parameters m) args)
          (parser_type_of (method_result m)) h' c = Inr ((c', calls), es')"
      and es: "es = Requested (next_request_id c) name args h' # es'"
      by (auto simp: call_method_def and_then_Inr_iff split: option.splits if_splits)
    from req show ?thesis
    proof (cases rule: pipeline_request_cases)
      case (failed w es'')
      with es discarded show ?thesis by auto
    next
      case (sent w r es'' vs calls')
      with es discarded have "Discarded h \<in> set vs" by auto
      with sent(3) obtain e where "std_map_find (next_request_id c) (expected_responses (responses c)) = Some e"
        by (auto simp: expect_response_def Let_def split: response_state.splits if_splits)
      then have "(next_request_id c, e) \<in> set (expected_responses (responses c))"
        by (simp add: std_map_find_def map_of_SomeD)
      with inv obtain name' args' h'' where "Requested (next_request_id c) name' args' h'' \<in> set tr"
        unfolding registering_inv_def by (metis prod.collapse)
      then have "(next_request_id c, name', args') \<in> set (requests_made tr)" using in_trace_lists(1) by blast
      with es show ?thesis by force
    qed
  next
    case (In_registry k')
    show ?thesis
    proof (cases "(\<exists>m. k' = Member m) \<or> (\<exists>h r. k' = Call_handler h r)")
      case True
      with In_registry run discarded show ?thesis by auto
    next
      case False
      with In_registry run obtain r calls' vs where
        "run_registry (\<lambda>h r. []) k' (responses c) = Inr ((r, calls'), vs)" "es = map Registry_event vs"
        by (cases k') (auto simp: with_responses_iff)
      with other False discarded show ?thesis by auto
    qed
  qed (use run discarded in \<open>auto simp: and_then_Inr_iff with_responses_iff with_requests_iff registry_on_error_def
      split: sum.splits prod.splits option.splits\<close>)
qed

subsection \<open>The invariant\<close>

definition untroubled :: "'h rpc_client_trace \<Rightarrow> bool" where
  "untroubled tr \<longleftrightarrow> \<not> list_ex refused (splitter_events tr) \<and> \<not> list_ex client_dropped (client_events tr)"

definition accounted :: "'h \<Rightarrow> 'h rpc_client_event list \<Rightarrow> 'h rpc_client_connection \<Rightarrow> bool" where
  "accounted h tr c \<longleftrightarrow>
     h \<in> set (waiting_handlers (responses (client c))) \<union> carried (tasks c) (splitter c) \<or> settled h tr"

definition progressing :: "'h rpc_client_event list \<Rightarrow> 'h rpc_client_connection \<Rightarrow> bool" where
  "progressing tr c \<longleftrightarrow>
     client_splitter_known (splitter c) \<and> list_all client_task_known (tasks c) \<and> locks_ok (tasks c) \<and>
     serves (splitter c) \<and> parses (tasks c) (splitter c) \<and>
     (locked (splitter c) \<longrightarrow> lock_way (tasks c) (splitter c)) \<and>
     on_way (tasks c) (splitter c) (responses (client c)) \<and>
     (\<forall>i name args h. Requested i name args h \<in> set tr \<longrightarrow> accounted h tr c)"

definition progress_inv :: "interface_definition \<Rightarrow> 'h rpc_client_trace \<Rightarrow> 'h rpc_client_connection \<Rightarrow> bool" where
  "progress_inv d tr c \<longleftrightarrow>
     connection_inv c \<and> registering_inv d (client_events tr) (client c) \<and>
     (\<forall>h. Registry_event (Discarded h) \<in> set (client_events tr) \<longrightarrow>
       \<not> distinct (map fst (requests_made (client_events tr)))) \<and>
     (untroubled tr \<longrightarrow> progressing (client_events tr) c)"

lemma on_way_step:
  assumes "header_way ts s \<longrightarrow> header_way ts' s'" and "body_way ts s \<longrightarrow> body_way ts' s'" and "on_way ts s r"
  shows "on_way ts' s' r"
  using assms by (simp add: on_way_def split: response_state.splits)

lemma splitter_progress:
  assumes prog: "progressing tr c" and adv: "advances (tasks c) (splitter c) ts s"
    and parses: "parses ts s" and lock: "locked s \<longrightarrow> lock_way ts s"
  shows "progressing tr (c\<lparr>splitter := s, tasks := ts\<rparr>)"
proof -
  from adv have way: "header_way (tasks c) (splitter c) \<longrightarrow> header_way ts s" "body_way (tasks c) (splitter c) \<longrightarrow> body_way ts s"
    and kept: "client_splitter_known s" "list_all client_task_known ts" "locks_ok ts" "serves (splitter c) \<longrightarrow> serves s"
      "carried (tasks c) (splitter c) \<subseteq> carried ts s"
    by (simp_all add: advances_def)
  have "accounted h tr (c\<lparr>splitter := s, tasks := ts\<rparr>)" if "accounted h tr c" for h
    using that subsetD [OF kept(5)] by (auto simp: accounted_def)
  moreover have "on_way ts s (responses (client c))"
    using on_way_step [OF way] prog by (simp add: progressing_def)
  ultimately show ?thesis using prog kept(1-4) parses lock by (simp add: progressing_def)
qed

lemma called_progress:
  assumes "progressing tr c" and "tasks c = []" and "\<not> header_task (Client k)" "\<not> body_task (Client k)" "\<not> lock_task (Client k)"
    and "client_code_handlers k = []"
  shows "progressing tr (c\<lparr>tasks := [Client k]\<rparr>)"
proof -
  have "accounted h tr (c\<lparr>tasks := [Client k]\<rparr>) = accounted h tr c" for h
    using assms(2,6) by (simp add: accounted_def)
  moreover have "parses [Client k] s = parses [] s" for s :: "'a rpc_client_code message_splitter"
    by (simp add: parses_def)
  ultimately show ?thesis
    using assms by (simp add: progressing_def client_task_known_def client_call_known_def)
qed

lemma code_progress:
  assumes prog: "progressing tr c" and tasks: "tasks c = Client k # rest"
    and adv: "code_advances k (responses (client c)) calls (responses c') es"
  shows "progressing (tr @ es) (c\<lparr>client := c', tasks := map Perform calls @ rest\<rparr>)"
proof -
  have "accounted h (tr @ es) (c\<lparr>client := c', tasks := map Perform calls @ rest\<rparr>)"
    if "Requested i name args h \<in> set (tr @ es)" for i name args h
  proof -
    from that prog have "accounted h tr c \<or> (\<exists>i name args. Requested i name args h \<in> set es)"
      by (auto simp: progressing_def)
    moreover from adv have "h \<in> set (waiting_handlers (responses c')) \<union> call_carries calls \<or> settled h es"
      if "h \<in> set (waiting_handlers (responses (client c))) \<union> set (client_code_handlers k) \<union>
        {h. \<exists>i name args. Requested i name args h \<in> set es}"
      using that unfolding code_advances_def by blast
    ultimately show ?thesis by (auto simp: accounted_def tasks carried_calls simp del: way_simps(11))
  qed
  moreover have "list_all client_task_known (map Perform calls @ rest) \<and> locks_ok (map Perform calls @ rest)"
    using prog adv tasks by (simp add: progressing_def code_advances_def known_calls locks_ok_append)
  ultimately show ?thesis
    using prog adv tasks unfolding progressing_def code_advances_def by (simp add: parses_def) blast
qed

lemma progress_step:
  assumes inv: "progress_inv d tr c" and step: "rpc_client_step is_valid d react c i = Inr (c', es)"
  shows "progress_inv d (tr @ es) c'"
proof -
  from step have step': "connection_step is_valid (run_rpc_client is_valid d react) c (rpc_client_input_of i) = Inr (c', es)"
    by (simp add: rpc_client_step_def)
  have registering: "registering_inv d (client_events (tr @ es)) (client c')"
  proof (rule client_part_step [OF _ step'])
    show "registering_inv d (client_events tr) (client c)" using inv by (simp add: progress_inv_def)
  qed (blast dest: client_code_step)
  from inv connection_inv_step [OF _ step'] have connected: "connection_inv c'" by (simp add: progress_inv_def)
  have discarded: "\<not> distinct (map fst (requests_made (client_events (tr @ es))))"
    if "Registry_event (Discarded h) \<in> set (client_events (tr @ es))" for h
  proof (cases "Registry_event (Discarded h) \<in> set (client_events tr)")
    case True
    with inv show ?thesis by (auto simp: progress_inv_def)
  next
    case False
    with that have new: "Registry_event (Discarded h) \<in> set (client_events es)" by simp
    from step' show ?thesis
    proof (cases rule: connection_step_cases)
      case (client_code k rest c1 calls es')
      with inv discarded_again [OF _ client_code(3), of "client_events tr" h] new show ?thesis
        by (simp add: progress_inv_def)
    qed (use new in \<open>auto simp: push_tasks_iff\<close>)
  qed
  have "progressing (client_events (tr @ es)) c'" if calm: "untroubled (tr @ es)"
  proof -
    from calm inv have prog: "progressing (client_events tr) c"
      and inv': "splitter_inv (tasks c) (splitter c)" "std_map_ok (expected_responses (responses (client c)))"
      by (simp_all add: progress_inv_def untroubled_def connection_inv_def registering_inv_def)
    from step' show ?thesis
    proof (cases rule: connection_step_cases)
      case (client_code k rest c1 calls es')
      with calm have "\<not> list_ex client_dropped es'" by (simp add: untroubled_def)
      from code_progress [OF prog client_code(2) client_code_advances [OF inv'(2) client_code(3) this]] client_code(4)
      show ?thesis by simp
    next
      case (task t rest)
      then obtain s ts es' where run: "run_task is_valid t (splitter c) = Inr ((s, ts), es')"
        and out: "c' = c\<lparr>splitter := s, tasks := ts @ rest\<rparr>" "es = map Splitter_event es'"
        by (auto simp: push_tasks_iff)
      from calm out have quiet: "\<not> list_ex refused es'" by (simp add: untroubled_def)
      from prog task(2) have known: "client_splitter_known (splitter c)" "client_task_known t"
        "list_all client_task_known rest" "locks_ok rest" by (simp_all add: progressing_def)
      note adv = run_task_advances [OF run known(1,2) task(3)]
      from advances_rest [OF adv known(3,4)] have "advances (tasks c) (splitter c) (ts @ rest) s"
        by (simp add: task(2))
      moreover have "parses (ts @ rest) s"
        by (rule run_task_parses [OF run known(1,2) task(3) quiet])
          (use inv'(1) prog task(2) in \<open>simp_all add: progressing_def\<close>)
      moreover have "lock_way (ts @ rest) s" if "locked s"
      proof (cases "locked (splitter c)")
        case True
        with prog have "lock_way (tasks c) (splitter c)" by (simp add: progressing_def)
        with \<open>advances (tasks c) (splitter c) (ts @ rest) s\<close> that show ?thesis by (simp add: advances_def)
      next
        case False
        with adv that have "locking t" by (simp add: advances_def)
        with prog task(2) have "list_ex lock_task rest" by (simp add: progressing_def)
        then show ?thesis by (simp add: lock_way_def)
      qed
      ultimately show ?thesis using splitter_progress [OF prog] out by simp
    next
      case (called k)
      then consider m where "k = Generated_method m" | ec where "k = Request_written ec" by (cases i) auto
      then have "\<not> header_task (Client k) \<and> \<not> body_task (Client k) \<and> \<not> lock_task (Client k) \<and>
          client_code_handlers k = []"
        by cases simp_all
      then have k: "\<not> header_task (Client k)" "\<not> body_task (Client k)" "\<not> lock_task (Client k)"
        "client_code_handlers k = []" by simp_all
      from called_progress [OF prog called(2) k] called(3) show ?thesis by simp
    next
      case (read ec bs)
      then obtain s ts es' where run: "read_completes is_valid ec bs (splitter c) = Inr ((s, ts), es')"
        and out: "c' = c\<lparr>splitter := s, tasks := ts\<rparr>" "es = map Splitter_event es'"
        by (auto simp: push_tasks_iff)
      from prog read(2) inv'(1) have "client_splitter_known (splitter c)" "splitter_inv [] (splitter c)"
        "parses [] (splitter c)" by (simp_all add: progressing_def)
      from read_completes_advances [OF run this]
      have adv: "advances (tasks c) (splitter c) ts s" and "parses ts s" by (simp_all add: read(2))
      moreover have "lock_way ts s" if "locked s"
      proof -
        from adv that have "locked (splitter c)" by (simp add: advances_def read(2))
        with prog have "lock_way (tasks c) (splitter c)" by (simp add: progressing_def)
        with adv that show ?thesis by (simp add: advances_def)
      qed
      ultimately show ?thesis using splitter_progress [OF prog] out by simp
    qed (use prog in auto)
  qed
  with registering connected discarded show ?thesis by (simp add: progress_inv_def)
qed

interpretation progress_machine: traced_invariant "rpc_client_step is_valid d react" "progress_inv d"
  for is_valid d react
  by unfold_locales (rule progress_step)

lemma progress_init: "progress_inv d [] (connection_init rpc_client_init)"
  by (simp add: progress_inv_def progressing_def connection_inv_init)
    (simp add: connection_init_def message_splitter_init_def client_splitter_known_def serves_def parses_def
      on_way_def rpc_client_init_def registry_init_def registering_inv_def std_map_ok_def std_map_keys_def)

text \<open>When all calls have returned, only an outstanding read is on the way to the registry.\<close>

lemma idle_client:
  assumes prog: "progressing tr c" and idle: "tasks c = []" "reading (splitter c) = None"
  shows "expected_responses (responses (client c)) = []" and "carried (tasks c) (splitter c) = {}"
proof -
  from idle show "carried (tasks c) (splitter c) = {}" by (simp add: read_handlers_def)
  from prog idle have "\<not> locked (splitter c)" "\<not> parsing_header (splitter c)"
    by (auto simp: progressing_def parses_def reads_body_def reading_headers_None)
  with prog have "waiting_for_response (splitter c) = None" by (auto simp: progressing_def serves_def)
  with prog idle show "expected_responses (responses (client c)) = []"
    by (auto simp: progressing_def on_way_def reads_body_def split: response_state.splits)
qed

subsection \<open>Properties\<close>

text \<open>C4: A client that waits for a response reads. As long as the splitter has reported no error and no
  body has failed to parse, whenever all calls have returned, either the handler of each call has been
  called or a read of the stream is outstanding: no call waits for a response that nobody will read.\<close>

theorem waiting_client_reads:
  assumes client: "rpc_client_run is_valid d react inputs = Inr (c, tr)"
    and idle: "tasks c = []" and calm: "untroubled tr" and ids: "length (requests_made (client_events tr)) \<le> 2 ^ 64"
    and requested: "Requested i name args h \<in> set (client_events tr)"
  shows "(\<exists>r. Registry_event (Handled h r) \<in> set (client_events tr)) \<or> reading (splitter c) \<noteq> None"
proof (rule ccontr)
  assume neither: "\<not> ?thesis"
  from progress_machine.inv_run [OF progress_init client] have inv: "progress_inv d tr c" by simp
  with calm have prog: "progressing (client_events tr) c" by (simp add: progress_inv_def)
  from idle_client [OF prog idle] neither have "\<not> accounted h [] c" by (simp add: accounted_def waiting_handlers_def)
  with prog requested have "settled h (client_events tr)" by (force simp: progressing_def accounted_def)
  with neither have "Registry_event (Discarded h) \<in> set (client_events tr)" by (simp add: settled_def)
  with inv have "\<not> distinct (map fst (requests_made (client_events tr)))" unfolding progress_inv_def by blast
  moreover from rpc_client_facts(1) [OF client] ids have "distinct (map fst (requests_made (client_events tr)))"
    by (intro request_ids_distinct) (simp_all add: sending_inv_def)
  ultimately show False ..
qed

text \<open>A client whose call has been sent and not yet answered.\<close>

definition waiting_greeter where
  "waiting_greeter =
     rpc_client_run (\<lambda>_. True) greeter (\<lambda>_ _. [])
       ([Client_calls (Call_method ''hello'' [V_string [65, 66]] (5::nat))] @ replicate 6 Client_runs @
        [Client_write_completes None] @ replicate 3 Client_runs @
        [Client_reads None [1, 0, 0, 0]] @ replicate 6 Client_runs)"

lemma waiting_greeter_waits:
  "case waiting_greeter of
     Inl f \<Rightarrow> False
   | Inr (c, tr) \<Rightarrow> tasks c = [] \<and> untroubled tr \<and> length (requests_made (client_events tr)) = 1 \<and>
       Requested 0 ''hello'' [V_string [65, 66]] 5 \<in> set (client_events tr) \<and>
       list_all (\<lambda>e. case e of Registry_event (Handled h r) \<Rightarrow> False | _ \<Rightarrow> True) (client_events tr)"
  by code_simp

theorem waiting_client_reads_witness:
  "\<exists>c tr. waiting_greeter = Inr (c, tr) \<and> reading (splitter c) \<noteq> None"
proof (cases waiting_greeter)
  case (Inl f)
  from waiting_greeter_waits [unfolded Inl] show ?thesis by simp
next
  case (Inr x)
  obtain c tr where x: "x = (c, tr)" by (cases x)
  note run = Inr [unfolded x] and facts = waiting_greeter_waits [unfolded Inr x, simplified]
  from facts have facts': "tasks c = []" "untroubled tr" "length (requests_made (client_events tr)) \<le> 2 ^ 64"
    "Requested 0 ''hello'' [V_string [65, 66]] 5 \<in> set (client_events tr)" by simp_all
  have "Registry_event (Handled 5 r) \<notin> set (client_events tr)" for r
    using facts by (auto simp: list_all_iff)
  with waiting_client_reads [OF run [unfolded waiting_greeter_def] facts'] run show ?thesis by blast
qed

end
