(* ===== verification/Cpp_Writer.thy ===== *)
theory Cpp_Writer
  imports Wire_Types
begin

text \<open>
  How the generator writes C++ (\<open>warpcoil/block.hpp\<close>, \<open>warpcoil/comma_separator.hpp\<close>).
  The generator functions append text to a sink and share a \<open>shared_code_generator\<close>, which writes
  the definitions of structures to a sink of its own.
  \<^item> \<open>generator_output\<close> holds what both sinks have received and the set of structures that the
    shared generator has written; a \<open>writer\<close> appends to it, or throws.
  \<^item> The functions of \<open>block.hpp\<close> are writers built from writers; \<open>in_order\<close> is the sequence
    of statements of a function.
  \<^item> \<open>writes\<close> says what a writer appends to the sink \<open>code\<close>, and \<open>keeps_balance\<close> that
    the braces in what it appends to either sink match.
\<close>

subsection \<open>Sinks\<close>

datatype sink = Code | Shared_code

datatype cpp_exception = Invalid_argument string | Logic_error string

record generator_output =
  code_text :: string
  shared_text :: string
  shared_indentation :: nat
  generated_structures :: "wire_type structure_element list list"

type_synonym writer = "generator_output \<Rightarrow> cpp_exception + generator_output"

definition append_text :: "sink \<Rightarrow> string \<Rightarrow> writer" where
  "append_text sink text st =
     (case sink of
        Code \<Rightarrow> Inr (st\<lparr>code_text := code_text st @ text\<rparr>)
      | Shared_code \<Rightarrow> Inr (st\<lparr>shared_text := shared_text st @ text\<rparr>))"

fun in_order :: "writer list \<Rightarrow> writer" where
  "in_order [] st = Inr st"
| "in_order (w # ws) st = (case w st of Inl e \<Rightarrow> Inl e | Inr st' \<Rightarrow> in_order ws st')"

declare in_order.simps [simp del]

definition throw :: "cpp_exception \<Rightarrow> writer" where
  "throw e st = Inl e"

subsection \<open>\<open>block.hpp\<close>\<close>

type_synonym indentation_level = nat

abbreviation (input) deeper :: "indentation_level \<Rightarrow> indentation_level" where
  "deeper indentation \<equiv> Suc indentation"

definition render :: "sink \<Rightarrow> indentation_level \<Rightarrow> writer" where
  "render sink amount = in_order (replicate amount (append_text sink ''    ''))"

definition start_line :: "sink \<Rightarrow> indentation_level \<Rightarrow> string list \<Rightarrow> writer" where
  "start_line sink indentation content =
     in_order (render sink indentation # map (append_text sink) content)"

definition continuation_block ::
  "sink \<Rightarrow> indentation_level \<Rightarrow> (indentation_level \<Rightarrow> writer) \<Rightarrow> string \<Rightarrow> writer" where
  "continuation_block sink indentation content end_text =
     in_order [append_text sink ''{\<newline>'', content (deeper indentation), render sink indentation,
       append_text sink ''}'', append_text sink end_text]"

definition block :: "sink \<Rightarrow> indentation_level \<Rightarrow> (indentation_level \<Rightarrow> writer) \<Rightarrow> string \<Rightarrow> writer" where
  "block sink indentation content end_text =
     in_order [render sink indentation, continuation_block sink indentation content end_text]"

subsection \<open>\<open>comma_separator.hpp\<close>\<close>

text \<open>\<open>add_element\<close>, and the writers of a list of elements, each preceded by a call of it.\<close>

definition add_element :: "sink \<Rightarrow> bool \<Rightarrow> writer \<times> bool" where
  "add_element sink first = (if first then (in_order [], False) else (append_text sink '', '', False))"

fun comma_separated :: "sink \<Rightarrow> bool \<Rightarrow> writer list \<Rightarrow> writer list" where
  "comma_separated sink first [] = []"
| "comma_separated sink first (w # ws) =
     (case add_element sink first of (comma, first') \<Rightarrow> comma # w # comma_separated sink first' ws)"

lemma comma_separated_element:
  "w \<in> set (comma_separated sink first ws) \<Longrightarrow> w \<in> set ws \<or> w = append_text sink '', '' \<or> w = in_order []"
  by (induction ws arbitrary: first) (auto simp: add_element_def split: if_splits)

subsection \<open>Numbers\<close>

text \<open>\<open>boost::lexical_cast<std::string>\<close> of an unsigned number.\<close>

fun decimal :: "nat \<Rightarrow> string" where
  "decimal n =
     (if n < 10 then [char_of (48 + n)] else decimal (n div 10) @ [char_of (48 + n mod 10)])"

declare decimal.simps [simp del]

lemma decimal_digits: "c \<in> set (decimal n) \<Longrightarrow> 48 \<le> (of_char c :: nat) \<and> (of_char c :: nat) < 58"
proof (induction n rule: decimal.induct)
  case (1 n)
  then show ?case
    by (subst (asm) decimal.simps) (auto split: if_splits simp: of_char_of mod_less)
qed

subsection \<open>What a writer appends\<close>

text \<open>A separator between the elements.\<close>

fun separate :: "'a \<Rightarrow> 'a list \<Rightarrow> 'a list" where
  "separate sep (x # y # ys) = x # sep # separate sep (y # ys)"
| "separate sep xs = xs"

definition spaces :: "indentation_level \<Rightarrow> string" where
  "spaces amount = concat (replicate amount ''    '')"

lemma in_order_append: "in_order (ws @ vs) st = (case in_order ws st of Inl e \<Rightarrow> Inl e | Inr st' \<Rightarrow> in_order vs st')"
  by (induction ws arbitrary: st) (auto simp: in_order.simps split: sum.splits)

lemma in_order_Cons: "in_order (w # ws) = in_order [w, in_order ws]"
  by (rule ext) (simp add: in_order.simps split: sum.splits)

text \<open>
  A relation between writers and the text they append to a sink, which the sequence of writers
  respects; the writers of \<open>block.hpp\<close> and \<open>comma_separator.hpp\<close> then have their text.
\<close>

locale appending =
  fixes sink :: sink and appends :: "writer \<Rightarrow> string \<Rightarrow> bool"
  assumes literal: "appends (append_text sink s) s"
    and no_text: "appends (in_order []) []"
    and sequence: "appends w s \<Longrightarrow> appends (in_order ws) t \<Longrightarrow> appends (in_order (w # ws)) (s @ t)"
begin

lemma single: "appends w s \<Longrightarrow> appends (in_order [w]) s"
  using sequence [OF _ no_text, of w s] by simp

lemma all: "list_all2 appends ws ts \<Longrightarrow> appends (in_order ws) (concat ts)"
  by (induction ws ts rule: list_all2_induct) (auto intro: sequence no_text)

lemma all_then:
  "list_all2 appends ws ts \<Longrightarrow> appends (in_order vs) t \<Longrightarrow> appends (in_order (ws @ vs)) (concat ts @ t)"
  by (induction ws ts rule: list_all2_induct) (auto intro: sequence)

lemma map_elements:
  "(\<And>x. x \<in> set xs \<Longrightarrow> appends (f x) (g x)) \<Longrightarrow> appends (in_order (map f xs)) (concat (map g xs))"
  by (rule all) (simp add: list_all2_conv_all_nth)

lemma rendered: "appends (render sink amount) (spaces amount)"
  unfolding render_def spaces_def by (rule all) (simp add: list_all2_conv_all_nth literal)

lemma line: "appends (start_line sink indentation content) (spaces indentation @ concat content)"
  unfolding start_line_def
  by (intro sequence rendered all) (simp add: list_all2_conv_all_nth literal)

lemma braces:
  assumes "appends (content (deeper indentation)) s"
  shows "appends (block sink indentation content end_text)
    (spaces indentation @ ''{\<newline>'' @ s @ spaces indentation @ ''}'' @ end_text)"
proof -
  have "appends (block sink indentation content end_text)
      (spaces indentation @ (''{\<newline>'' @ s @ spaces indentation @ ''}'' @ end_text @ []) @ [])"
    unfolding block_def continuation_block_def
    by (intro sequence no_text rendered literal assms)
  then show ?thesis by simp
qed

lemma commas:
  assumes "list_all2 appends ws ts" and "appends (in_order vs) t"
  shows "appends (in_order (comma_separated sink first ws @ vs))
    ((if ts = [] then [] else (if first then [] else '', '') @ concat (separate '', '' ts)) @ t)"
  using assms(1)
proof (induction ws ts arbitrary: first rule: list_all2_induct)
  case (Cons w ws u us)
  obtain comma where comma: "add_element sink first = (comma, False)"
    and "appends comma (if first then [] else '', '')"
    by (cases first) (simp_all add: add_element_def literal no_text)
  then have "appends (in_order (comma # w # comma_separated sink False ws @ vs))
      ((if first then [] else '', '') @ u @ (if us = [] then [] else '', '' @ concat (separate '', '' us)) @ t)"
    by (intro sequence Cons.hyps) (use Cons.IH [of False] in \<open>simp_all split: if_splits\<close>)
  then show ?case by (cases us) (simp_all add: comma)
qed (simp add: assms(2))

lemma enclosed:
  assumes "\<And>x. x \<in> set xs \<Longrightarrow> appends (f x) (g x)"
  shows "appends (in_order ([append_text sink opening] @ comma_separated sink True (map f xs) @ [append_text sink closing]))
    (opening @ concat (separate '', '' (map g xs)) @ closing)"
proof -
  from assms have "list_all2 appends (map f xs) (map g xs)"
    by (simp add: list_all2_conv_all_nth)
  from commas [OF this single [OF literal], of True closing]
  have "appends (in_order (comma_separated sink True (map f xs) @ [append_text sink closing]))
      (concat (separate '', '' (map g xs)) @ closing)"
    by (cases xs) simp_all
  then show ?thesis using sequence [OF literal] by simp
qed

end

text \<open>What a writer appends to the sink \<open>code\<close>, whatever it does to the shared code.\<close>

definition writes :: "writer \<Rightarrow> string \<Rightarrow> bool" where
  "writes w text \<longleftrightarrow> (\<forall>st. \<exists>st'. w st = Inr st' \<and> code_text st' = code_text st @ text)"

interpretation writes: appending Code writes
proof
  show "writes (append_text Code s) s" for s by (simp add: writes_def append_text_def)
  show "writes (in_order []) []" by (simp add: writes_def in_order.simps)
  show "writes (in_order (w # ws)) (s @ t)" if w: "writes w s" and ws: "writes (in_order ws) t" for w ws s t
    unfolding writes_def
  proof
    fix st
    from w obtain st1 where 1: "w st = Inr st1" "code_text st1 = code_text st @ s" by (auto simp: writes_def)
    from ws obtain st2 where "in_order ws st1 = Inr st2" "code_text st2 = code_text st1 @ t" by (auto simp: writes_def)
    with 1 show "\<exists>st'. in_order (w # ws) st = Inr st' \<and> code_text st' = code_text st @ s @ t"
      by (simp add: in_order.simps)
  qed
qed

lemmas writes_intros = writes.literal writes.no_text writes.sequence writes.rendered writes.line writes.braces

lemma writes_shared: "writes (append_text Shared_code s) []"
  by (simp add: writes_def append_text_def)

lemma writes_unique: "writes w s \<Longrightarrow> writes w t \<Longrightarrow> s = t"
  unfolding writes_def by (metis Inr_inject append_same_eq same_append_eq)

text \<open>A writer that only appends a text, as long as some structures have been written.\<close>

definition only_appends :: "sink \<Rightarrow> wire_type structure_element list set \<Rightarrow> writer \<Rightarrow> string \<Rightarrow> bool" where
  "only_appends sink known w s \<longleftrightarrow>
     (\<forall>st. known \<subseteq> set (generated_structures st) \<longrightarrow> w st = append_text sink s st)"

interpretation only_appends: appending sink "only_appends sink known" for sink known
proof
  show "only_appends sink known (in_order []) []"
    by (cases sink) (simp_all add: only_appends_def in_order.simps append_text_def)
  show "only_appends sink known (in_order (w # ws)) (s @ t)"
    if "only_appends sink known w s" "only_appends sink known (in_order ws) t" for w ws s t
    using that by (cases sink) (simp_all add: only_appends_def in_order.simps append_text_def)
qed (simp add: only_appends_def)

subsection \<open>Matching braces\<close>

fun nesting :: "nat \<Rightarrow> string \<Rightarrow> nat option" where
  "nesting k [] = Some k"
| "nesting k (c # cs) =
     (if c = CHR ''{'' then nesting (Suc k) cs
      else if c = CHR ''}'' then (case k of 0 \<Rightarrow> None | Suc j \<Rightarrow> nesting j cs)
      else nesting k cs)"

definition balanced :: "string \<Rightarrow> bool" where
  "balanced text \<longleftrightarrow> nesting 0 text = Some 0"

definition brace_free :: "string \<Rightarrow> bool" where
  "brace_free text \<longleftrightarrow> list_all (\<lambda>c. c \<noteq> CHR ''{'' \<and> c \<noteq> CHR ''}'') text"

lemma nesting_append: "nesting k (s @ t) = Option.bind (nesting k s) (\<lambda>j. nesting j t)"
  by (induction k s rule: nesting.induct) (auto split: nat.splits)

lemma nesting_shift: "nesting k s = Some j \<Longrightarrow> nesting (k + m) s = Some (j + m)"
  by (induction k s rule: nesting.induct) (auto split: nat.splits if_splits)

lemma nesting_balanced: "balanced s \<Longrightarrow> nesting k s = Some k"
  using nesting_shift [of 0 s 0 k] by (simp add: balanced_def)

lemma nesting_brace_free: "brace_free s \<Longrightarrow> nesting k s = Some k"
  by (induction k s rule: nesting.induct) (auto simp: brace_free_def)

lemma balanced_intros:
  "balanced []"
  "balanced s \<Longrightarrow> balanced t \<Longrightarrow> balanced (s @ t)"
  "brace_free s \<Longrightarrow> balanced s"
  by (simp_all add: balanced_def nesting_append nesting_brace_free)

lemma brace_free_simps [simp]:
  "brace_free []" "brace_free (s @ t) \<longleftrightarrow> brace_free s \<and> brace_free t"
  "brace_free (c # s) \<longleftrightarrow> c \<noteq> CHR ''{'' \<and> c \<noteq> CHR ''}'' \<and> brace_free s"
  by (simp_all add: brace_free_def)

lemma brace_free_spaces [simp]: "brace_free (spaces amount)"
  by (induction amount) (simp_all add: spaces_def brace_free_def)

lemma brace_free_decimal [simp]: "brace_free (decimal n)"
  using decimal_digits [of "CHR ''{''" n] decimal_digits [of "CHR ''}''" n]
  by (auto simp: brace_free_def list_all_iff)

definition keeps_balance :: "writer \<Rightarrow> bool" where
  "keeps_balance w \<longleftrightarrow>
     (\<forall>st st'. w st = Inr st' \<longrightarrow>
       (\<exists>s t. code_text st' = code_text st @ s \<and> shared_text st' = shared_text st @ t \<and>
         balanced s \<and> balanced t))"

named_theorems balance_intros

lemma keeps_balance_append [balance_intros]: "balanced text \<Longrightarrow> keeps_balance (append_text sink text)"
  by (cases sink) (auto simp: keeps_balance_def append_text_def balanced_intros)

lemma keeps_balance_in_order:
  "(\<And>w. w \<in> set ws \<Longrightarrow> keeps_balance w) \<Longrightarrow> keeps_balance (in_order ws)"
proof (induction ws)
  case Nil
  then show ?case by (auto simp: keeps_balance_def balanced_intros in_order.simps)
next
  case (Cons w ws)
  show ?case
    unfolding keeps_balance_def
  proof (intro allI impI)
    fix st st'
    assume "in_order (w # ws) st = Inr st'"
    then obtain st1 where "w st = Inr st1" "in_order ws st1 = Inr st'" by (auto simp: in_order.simps split: sum.splits)
    moreover have "keeps_balance w" "keeps_balance (in_order ws)" using Cons by simp_all
    ultimately obtain s t s' t' where
      "code_text st1 = code_text st @ s" "shared_text st1 = shared_text st @ t" "balanced s" "balanced t"
      "code_text st' = code_text st1 @ s'" "shared_text st' = shared_text st1 @ t'" "balanced s'" "balanced t'"
      unfolding keeps_balance_def by meson
    then show "\<exists>s t. code_text st' = code_text st @ s \<and> shared_text st' = shared_text st @ t \<and>
        balanced s \<and> balanced t"
      by (intro exI [of _ "s @ s'"] exI [of _ "t @ t'"]) (simp add: balanced_intros)
  qed
qed

lemma keeps_balance_Nil [balance_intros]: "keeps_balance (in_order [])"
  by (rule keeps_balance_in_order) simp

lemma keeps_balance_Cons [balance_intros]:
  "keeps_balance w \<Longrightarrow> keeps_balance (in_order ws) \<Longrightarrow> keeps_balance (in_order (w # ws))"
proof -
  assume w: "keeps_balance w" "keeps_balance (in_order ws)"
  with keeps_balance_in_order [of "[w, in_order ws]"] show ?thesis
    by (subst in_order_Cons) auto
qed

lemma keeps_balance_map [balance_intros]:
  "(\<And>x. x \<in> set xs \<Longrightarrow> keeps_balance (f x)) \<Longrightarrow> keeps_balance (in_order (map f xs))"
  by (rule keeps_balance_in_order) auto

lemma keeps_balance_throw [balance_intros]: "keeps_balance (throw e)"
  by (simp add: keeps_balance_def throw_def)

lemma keeps_balance_render [balance_intros]: "keeps_balance (render sink amount)"
  unfolding render_def by (rule keeps_balance_in_order) (auto intro!: keeps_balance_append simp: balanced_def)

lemma keeps_balance_start_line [balance_intros]:
  "list_all balanced content \<Longrightarrow> keeps_balance (start_line sink indentation content)"
  unfolding start_line_def
  by (rule keeps_balance_in_order) (auto simp: list_all_iff intro: keeps_balance_append keeps_balance_render)

lemma keeps_balance_continuation_block:
  assumes content: "keeps_balance (content (deeper indentation))" and "balanced end_text"
  shows "keeps_balance (continuation_block sink indentation content end_text)"
  unfolding keeps_balance_def
proof (intro allI impI)
  fix st st'
  assume run: "continuation_block sink indentation content end_text st = Inr st'"
  obtain st1 where 1: "append_text sink ''{\<newline>'' st = Inr st1" by (cases sink) (simp_all add: append_text_def)
  from run 1 obtain st2 where 2: "content (deeper indentation) st1 = Inr st2"
    by (auto simp: continuation_block_def in_order.simps split: sum.splits)
  from run 1 2 obtain st3 where 3: "render sink indentation st2 = Inr st3"
    by (auto simp: continuation_block_def in_order.simps split: sum.splits)
  have rest: "in_order [append_text sink ''}'', append_text sink end_text] st3 = Inr st'"
    using run 1 2 3 by (simp add: continuation_block_def in_order.simps)
  from content 2 obtain s t where c: "code_text st2 = code_text st1 @ s" "shared_text st2 = shared_text st1 @ t"
    "balanced s" "balanced t" unfolding keeps_balance_def by meson
  from keeps_balance_render [of sink indentation] 3 obtain s' t' where
    r: "code_text st3 = code_text st2 @ s'" "shared_text st3 = shared_text st2 @ t'" "balanced s'" "balanced t'"
    unfolding keeps_balance_def by meson
  have "balanced (''{\<newline>'' @ x @ y @ ''}'' @ end_text)" if "balanced x" "balanced y" for x y
    using that assms(2) by (simp add: balanced_def nesting_append nesting_balanced)
  with 1 rest c r show "\<exists>s t. code_text st' = code_text st @ s \<and> shared_text st' = shared_text st @ t \<and>
      balanced s \<and> balanced t"
    by (cases sink) (auto simp: append_text_def balanced_intros in_order.simps split: sum.splits)
qed

lemma keeps_balance_block [balance_intros]:
  "keeps_balance (content (deeper indentation)) \<Longrightarrow> balanced end_text \<Longrightarrow>
   keeps_balance (block sink indentation content end_text)"
  unfolding block_def by (intro balance_intros keeps_balance_continuation_block)

lemma keeps_balance_comma_separated:
  "w \<in> set (comma_separated sink first ws) \<Longrightarrow> (\<And>v. v \<in> set ws \<Longrightarrow> keeps_balance v) \<Longrightarrow> keeps_balance w"
  by (drule comma_separated_element) (auto simp: balanced_def intro!: balance_intros)

text \<open>A line is balanced as a whole, its parts need not be; and a block written with its braces in the text.\<close>

lemma keeps_balance_only: "only_appends sink {} w s \<Longrightarrow> balanced s \<Longrightarrow> keeps_balance w"
  using keeps_balance_append [of s sink] by (simp add: only_appends_def keeps_balance_def)

lemma keeps_balance_line: "balanced (concat content) \<Longrightarrow> keeps_balance (start_line sink i content)"
  by (rule keeps_balance_only [OF only_appends.line]) (simp add: balanced_intros)

lemma in_order_flatten: "in_order (ws @ [in_order vs]) = in_order (ws @ vs)"
  by (rule ext) (simp add: in_order_append in_order.simps split: sum.splits)

lemma append_text_append: "in_order [append_text sink s, append_text sink t] = append_text sink (s @ t)"
  by (rule ext) (cases sink; simp add: in_order.simps append_text_def)

lemma keeps_balance_braces:
  assumes "keeps_balance w"
  shows "keeps_balance (in_order [append_text sink ''{\<newline>'', w, render sink i, append_text sink ''}\<newline>''])"
proof -
  have "in_order [append_text sink ''{\<newline>'', w, render sink i, append_text sink ''}\<newline>''] =
      continuation_block sink i (\<lambda>_. w) ''\<newline>''"
    using in_order_flatten [of "[append_text sink ''{\<newline>'', w, render sink i]"
      "[append_text sink ''}'', append_text sink ''\<newline>'']"]
    by (simp add: continuation_block_def append_text_append)
  then show ?thesis using keeps_balance_continuation_block [of "\<lambda>_. w"] assms by (simp add: balanced_def)
qed

subsection \<open>Exceptions\<close>

text \<open>A writer that throws an exception exactly when a condition holds, whatever the state.\<close>

definition throws_if :: "cpp_exception \<Rightarrow> bool \<Rightarrow> writer \<Rightarrow> bool" where
  "throws_if e b w \<longleftrightarrow> (\<forall>st. if b then w st = Inl e else (\<exists>st'. w st = Inr st'))"

named_theorems throws_intros

lemma throws_if_writes: "writes w s \<Longrightarrow> throws_if e False w"
  by (auto simp: throws_if_def writes_def)

lemma throws_if_eq: "throws_if e b w \<Longrightarrow> b = c \<Longrightarrow> throws_if e c w"
  by simp

lemma throws_if_basic [throws_intros]:
  "throws_if e False (append_text Code s)"
  "throws_if e False (start_line Code i content)"
  "throws_if e False (render Code i)"
  "throws_if e False (in_order [])"
  by (rule throws_if_writes, rule writes_intros)+

lemma throws_if_throw [throws_intros]: "throws_if e True (throw e)"
  by (simp add: throws_if_def throw_def)

lemma throws_if_Cons [throws_intros]:
  assumes "throws_if e b w" "throws_if e c (in_order ws)"
  shows "throws_if e (b \<or> c) (in_order (w # ws))"
  unfolding throws_if_def
proof
  fix st
  show "if b \<or> c then in_order (w # ws) st = Inl e else \<exists>st'. in_order (w # ws) st = Inr st'"
  proof (cases b)
    case True
    with assms(1) show ?thesis by (simp add: throws_if_def in_order.simps)
  next
    case False
    with assms(1) obtain st1 where "w st = Inr st1" by (auto simp: throws_if_def)
    with False assms(2) show ?thesis by (simp add: throws_if_def in_order.simps)
  qed
qed

lemma throws_if_map [throws_intros]:
  "(\<And>x. x \<in> set xs \<Longrightarrow> throws_if e (b x) (f x)) \<Longrightarrow> throws_if e (\<exists>x\<in>set xs. b x) (in_order (map f xs))"
proof (induction xs)
  case (Cons x xs)
  then have "throws_if e (b x \<or> (\<exists>x\<in>set xs. b x)) (in_order (f x # map f xs))"
    by (intro throws_if_Cons) simp_all
  then show ?case by simp
qed (simp add: throws_if_basic)

lemma throws_if_continuation_block [throws_intros]:
  assumes "throws_if e b (content (deeper i))"
  shows "throws_if e b (continuation_block Code i content end_text)"
  unfolding continuation_block_def
  by (rule throws_if_eq, (rule throws_intros assms)+) simp

lemma throws_if_block [throws_intros]:
  assumes "throws_if e b (content (deeper i))"
  shows "throws_if e b (block Code i content end_text)"
  unfolding block_def
  by (rule throws_if_eq, (rule throws_intros assms)+) simp

lemma throws_if_methods:
  assumes "\<And>method_name entry. (method_name, entry) \<in> set ms \<Longrightarrow> throws_if e (b method_name entry) (f method_name entry)"
  shows "throws_if e (\<exists>(method_name, entry)\<in>set ms. b method_name entry)
    (in_order (map (\<lambda>(method_name, entry). f method_name entry) ms))"
  by (rule throws_if_eq [OF throws_if_map [where b = "\<lambda>(method_name, entry). b method_name entry"]])
    (auto simp: assms)

end
