(* ===== verification/Cpp_Types.thy ===== *)
theory Cpp_Types
  imports Cpp_Writer Parser_Types
begin

text \<open>
  The C++ types that the generator writes for wire types (\<open>generate_type.hpp\<close>), the
  definitions of the structures among them (\<open>shared_code_generator.hpp\<close>), and the parser types
  (\<open>generate_parser_type.hpp\<close>).
  \<^item> \<open>generate_type\<close> writes the name of a type and requires the structures in it;
    \<open>require_structure\<close> writes a structure and the specialisation of its parser unless it has
    written them before. A structure inside a structure is written when the text of the outer one
    has reached its member.
  \<^item> \<open>type_text\<close> is the reference: the text of a type by recursion. \<open>parser_text\<close> is the text
    of a template instantiation as abstract syntax, \<open>parser_type_of\<close> is the instantiation.
\<close>

subsection \<open>\<open>std::set<types::structure, structure_less>\<close>\<close>

definition structure_less :: "wire_type structure_element list \<Rightarrow> wire_type structure_element list \<Rightarrow> bool" where
  "structure_less left right = less_type (Structure left) (Structure right)"

definition std_set_contains :: "('a \<Rightarrow> 'a \<Rightarrow> bool) \<Rightarrow> 'a \<Rightarrow> 'a list \<Rightarrow> bool" where
  "std_set_contains lt x xs = list_ex (\<lambda>y. \<not> lt x y \<and> \<not> lt y x) xs"

fun std_set_insert :: "('a \<Rightarrow> 'a \<Rightarrow> bool) \<Rightarrow> 'a \<Rightarrow> 'a list \<Rightarrow> 'a list" where
  "std_set_insert lt x [] = [x]"
| "std_set_insert lt x (y # ys) =
     (if lt x y then x # y # ys else if lt y x then y # std_set_insert lt x ys else y # ys)"

interpretation structure_order: strict_total_order structure_less
  unfolding structure_less_def
  by unfold_locales
    (blast dest: type_order.lt_asym type_order.lt_trans,
     blast dest: type_order.lt_trans,
     use type_order.lt_linear [of "Structure _" "Structure _"] in blast)

lemma set_std_set_insert:
  "(\<And>x y. \<not> lt x y \<Longrightarrow> \<not> lt y x \<Longrightarrow> x = y) \<Longrightarrow> set (std_set_insert lt x xs) = insert x (set xs)"
  by (induction xs) auto

lemma structures_contains: "std_set_contains structure_less es xs \<longleftrightarrow> es \<in> set xs"
  using structure_order.equivalent_iff_eq by (auto simp: std_set_contains_def list_ex_iff)

lemma structures_insert: "set (std_set_insert structure_less es xs) = insert es (set xs)"
  by (rule set_std_set_insert) (use structure_order.equivalent_iff_eq in blast)

subsection \<open>Types and structures\<close>

definition uint_cpp_name :: "uint_type \<Rightarrow> string" where
  "uint_cpp_name u =
     (case u of Uint8 \<Rightarrow> ''std::uint8_t'' | Uint16 \<Rightarrow> ''std::uint16_t''
      | Uint32 \<Rightarrow> ''std::uint32_t'' | Uint64 \<Rightarrow> ''std::uint64_t'')"

definition uint_width :: "uint_type \<Rightarrow> string" where
  "uint_width u = (case u of Uint8 \<Rightarrow> ''8'' | Uint16 \<Rightarrow> ''16'' | Uint32 \<Rightarrow> ''32'' | Uint64 \<Rightarrow> ''64'')"

definition integer_parser_name :: "integer_range \<Rightarrow> string" where
  "integer_parser_name parsed =
     ''warpcoil::cpp::integer_parser<std::uint'' @ uint_width (parser_bits parsed) @ ''_t>''"

fun generate_parser_type :: "wire_type \<Rightarrow> string" where
  "generate_parser_type (Integer parsed) = integer_parser_name parsed"
| "generate_parser_type (Variant elements) =
     ''warpcoil::cpp::variant_parser<'' @ concat (separate '', '' (map generate_parser_type elements)) @ ''>''"
| "generate_parser_type (Tuple elements) =
     ''warpcoil::cpp::tuple_parser<'' @ concat (separate '', '' (map generate_parser_type elements)) @ ''>''"
| "generate_parser_type (Vector len element) =
     ''warpcoil::cpp::vector_parser<'' @ integer_parser_name len @ '', '' @
     generate_parser_type element @ ''>''"
| "generate_parser_type (Utf8 code_units) =
     ''warpcoil::cpp::utf8_parser<'' @ integer_parser_name code_units @ ''>''"
| "generate_parser_type (Structure elements) =
     ''warpcoil::cpp::structure_parser<'' @ generate_name_for_structure elements @ ''>''"

text \<open>The specialisation of \<open>structure_parser\<close> for a structure without elements.\<close>

definition empty_structure_parser :: "indentation_level \<Rightarrow> wire_type structure_element list \<Rightarrow> writer" where
  "empty_structure_parser in_cpp required =
     in_order
       [append_text Shared_code ''>\<newline>'',
        block Shared_code in_cpp (\<lambda>in_struct. in_order
          [start_line Shared_code in_struct [''typedef ''],
           append_text Shared_code (generate_name_for_structure required),
           append_text Shared_code '' result_type;\<newline>'',
           start_line Shared_code in_struct
             [''parse_result<result_type> parse_byte(std::uint8_t const) const { return parse_complete<result_type>{result_type{}, input_consumption::does_not_consume}; }\<newline>''],
           start_line Shared_code in_struct
             [''Si::optional<result_type> check_for_immediate_completion() const { return result_type{}; }\<newline>'']])
          '';\<newline>'']"

definition mark_generated :: "wire_type structure_element list \<Rightarrow> writer" where
  "mark_generated required st =
     Inr (st\<lparr>generated_structures := std_set_insert structure_less required (generated_structures st)\<rparr>)"

text \<open>
  The definition of a structure and the specialisation of its parser. \<open>types\<close> are the
  writers of the types of the members, which the generator calls once in each of the two.
\<close>

definition structure_definition ::
  "indentation_level \<Rightarrow> wire_type structure_element list \<Rightarrow> writer list \<Rightarrow> writer" where
  "structure_definition m_indentation required types =
     in_order
       [start_line Shared_code m_indentation [''struct ''],
        append_text Shared_code (generate_name_for_structure required),
        append_text Shared_code ''\<newline>'',
        block Shared_code m_indentation (\<lambda>in_struct.
          in_order (map (\<lambda>(element, type). in_order
            [start_line Shared_code in_struct [''''],
             type,
             append_text Shared_code '' '',
             append_text Shared_code (element_name element),
             append_text Shared_code '';\<newline>'']) (zip required types))) '';\<newline>'']"

definition tuple_structure_parser ::
  "indentation_level \<Rightarrow> wire_type structure_element list \<Rightarrow> writer list \<Rightarrow> writer" where
  "tuple_structure_parser in_cpp required types =
     in_order
       [append_text Shared_code ''> : basic_tuple_parser<structure_parser<'',
        append_text Shared_code (generate_name_for_structure required),
        append_text Shared_code ''>, '',
        append_text Shared_code (generate_name_for_structure required),
        in_order (map (\<lambda>element. in_order
          [append_text Shared_code '', '',
           append_text Shared_code (generate_parser_type (what element))]) required),
        append_text Shared_code ''>\<newline> '',
        block Shared_code in_cpp (\<lambda>in_struct.
          in_order (map (\<lambda>(index, element, type). in_order
            [start_line Shared_code in_struct [''''],
             type,
             append_text Shared_code '' &get('',
             append_text Shared_code (generate_name_for_structure required),
             append_text Shared_code '' &result, std::integral_constant<std::size_t, '',
             append_text Shared_code (decimal index),
             append_text Shared_code ''>) const\<newline>'',
             block Shared_code in_struct (\<lambda>in_get.
               start_line Shared_code in_get [''return result.'', element_name element, '';\<newline>'']) ''\<newline>''])
            (zip [0..<length required] (zip required types)))) '';\<newline>'']"

definition structure_parser_specialization ::
  "indentation_level \<Rightarrow> wire_type structure_element list \<Rightarrow> writer list \<Rightarrow> writer" where
  "structure_parser_specialization m_indentation required types =
     in_order
       [start_line Shared_code m_indentation [''namespace warpcoil''],
        block Shared_code m_indentation (\<lambda>in_warpcoil. in_order
          [start_line Shared_code m_indentation [''namespace cpp''],
           block Shared_code in_warpcoil (\<lambda>in_cpp. in_order
             [start_line Shared_code in_cpp [''template <> struct structure_parser<''],
              append_text Shared_code (generate_name_for_structure required),
              if required = [] then empty_structure_parser in_cpp required
              else tuple_structure_parser in_cpp required types]) ''\<newline>'']) ''\<newline>'']"

function generate_type :: "sink \<Rightarrow> wire_type \<Rightarrow> writer"
  and require_structure :: "wire_type structure_element list \<Rightarrow> writer" where
  "generate_type sink (Integer r) = append_text sink (uint_cpp_name (find_suitable_uint_cpp_type r))"
| "generate_type sink (Variant elements) =
     in_order ([append_text sink ''Si::variant<''] @
       comma_separated sink True (map (generate_type sink) elements) @ [append_text sink ''>''])"
| "generate_type sink (Tuple elements) =
     in_order ([append_text sink ''std::tuple<''] @
       comma_separated sink True (map (generate_type sink) elements) @ [append_text sink ''>''])"
| "generate_type sink (Vector len element) =
     in_order [append_text sink ''std::vector<'', generate_type sink element, append_text sink ''>'']"
| "generate_type sink (Utf8 code_units) = append_text sink ''std::string''"
| "generate_type sink (Structure elements) =
     in_order [require_structure elements, append_text sink (generate_name_for_structure elements)]"
| "require_structure required = (\<lambda>st.
     if std_set_contains structure_less required (generated_structures st) then Inr st
     else
       (let types = map (\<lambda>element. generate_type Shared_code (what element)) required
        in in_order
          [structure_definition (shared_indentation st) required types,
           structure_parser_specialization (shared_indentation st) required types,
           mark_generated required] st))"
  by pat_completeness auto
termination
  by (relation "measure (\<lambda>x. case x of Inl (sink, t) \<Rightarrow> 2 * size t + 1 | Inr es \<Rightarrow> 2 * size (Structure es))")
    (auto dest!: structure_element_size list_element_size [where ?'a = wire_type])

declare generate_type.simps [simp del] require_structure.simps [simp del]

subsection \<open>The text of a type\<close>

primrec type_text :: "wire_type \<Rightarrow> string" where
  "type_text (Integer r) = uint_cpp_name (find_suitable_uint_cpp_type r)"
| "type_text (Variant elements) = ''Si::variant<'' @ concat (separate '', '' (map type_text elements)) @ ''>''"
| "type_text (Tuple elements) = ''std::tuple<'' @ concat (separate '', '' (map type_text elements)) @ ''>''"
| "type_text (Vector len element) = ''std::vector<'' @ type_text element @ ''>''"
| "type_text (Utf8 code_units) = ''std::string''"
| "type_text (Structure elements) = generate_name_for_structure elements"

text \<open>Writers that leave the sink \<open>code\<close> alone.\<close>

abbreviation "silent w \<equiv> writes w []"

lemma silent_in_order: "(\<And>w. w \<in> set ws \<Longrightarrow> silent w) \<Longrightarrow> silent (in_order ws)"
  using writes.all [of ws "replicate (length ws) []"] by (simp add: list_all2_conv_all_nth)

lemma silent_start_line: "silent (start_line Shared_code indentation content)"
  unfolding start_line_def render_def by (auto intro!: silent_in_order writes_shared)

lemma silent_block: "silent (content (deeper indentation)) \<Longrightarrow> silent (block Shared_code indentation content end_text)"
  unfolding block_def continuation_block_def render_def
  by (auto intro!: silent_in_order writes_shared)

lemma silent_mark: "silent (mark_generated required)"
  by (simp add: writes_def mark_generated_def)

lemmas silent_intros = silent_in_order silent_start_line silent_block silent_mark writes_shared

lemma silent_comma_separated:
  "w \<in> set (comma_separated Shared_code first ws) \<Longrightarrow> (\<And>v. v \<in> set ws \<Longrightarrow> silent v) \<Longrightarrow> silent w"
  by (drule comma_separated_element) (auto intro: silent_intros writes.no_text)

lemma silent_structure:
  assumes "\<And>w. w \<in> set types \<Longrightarrow> silent w"
  shows "silent (structure_definition m_indentation required types)"
    and "silent (structure_parser_specialization m_indentation required types)"
  unfolding structure_definition_def structure_parser_specialization_def tuple_structure_parser_def
    empty_structure_parser_def
  by (auto intro!: silent_intros dest!: set_zip_rightD; rule assms; assumption)+

lemma shared_code_silent:
  "sink = Shared_code \<Longrightarrow> silent (generate_type sink t)"
  "silent (require_structure es)"
proof (induction sink t and es rule: generate_type_require_structure.induct)
  case (7 required)
  let ?types = "map (\<lambda>e. generate_type Shared_code (what e)) required"
  show ?case
    unfolding writes_def
  proof
    fix st
    show "\<exists>st'. require_structure required st = Inr st' \<and> code_text st' = code_text st @ []"
    proof (cases "std_set_contains structure_less required (generated_structures st)")
      case False
      with 7 have "\<And>w. w \<in> set ?types \<Longrightarrow> silent w" by auto
      from silent_structure [of ?types, OF this] have "silent (in_order [structure_definition (shared_indentation st) required ?types,
          structure_parser_specialization (shared_indentation st) required ?types, mark_generated required])"
        by (auto intro!: silent_intros)
      with False show ?thesis by (simp add: require_structure.simps writes_def Let_def)
    qed (simp add: require_structure.simps)
  qed
qed (auto simp: generate_type.simps intro!: silent_intros dest!: silent_comma_separated)

lemma generate_type_text: "writes (generate_type Code t) (type_text t)"
proof (induction t)
  case (Variant elements)
  then show ?case
    unfolding generate_type.simps type_text.simps by (rule writes.enclosed)
next
  case (Tuple elements)
  then show ?case
    unfolding generate_type.simps type_text.simps by (rule writes.enclosed)
next
  case (Vector len element)
  have "writes (in_order [append_text Code ''std::vector<'', generate_type Code element, append_text Code ''>''])
      (''std::vector<'' @ type_text element @ ''>'' @ [])"
    by (intro writes_intros Vector)
  then show ?case by (simp add: generate_type.simps)
next
  case (Structure es)
  have "writes (in_order [require_structure es, append_text Code (generate_name_for_structure es)])
      ([] @ generate_name_for_structure es @ [])"
    by (intro writes_intros shared_code_silent)
  then show ?case by (simp add: generate_type.simps)
qed (simp_all add: generate_type.simps writes_intros)

subsection \<open>The text of a parser type\<close>

primrec parser_text :: "parser_type \<Rightarrow> string" where
  "parser_text (P_integer u) = ''warpcoil::cpp::integer_parser<std::uint'' @ uint_width u @ ''_t>''"
| "parser_text (P_variant ps) =
     ''warpcoil::cpp::variant_parser<'' @ concat (separate '', '' (map parser_text ps)) @ ''>''"
| "parser_text (P_tuple ps) =
     ''warpcoil::cpp::tuple_parser<'' @ concat (separate '', '' (map parser_text ps)) @ ''>''"
| "parser_text (P_vector u p) =
     ''warpcoil::cpp::vector_parser<'' @ (''warpcoil::cpp::integer_parser<std::uint'' @ uint_width u @ ''_t>'') @
     '', '' @ parser_text p @ ''>''"
| "parser_text (P_utf8 u) =
     ''warpcoil::cpp::utf8_parser<'' @ (''warpcoil::cpp::integer_parser<std::uint'' @ uint_width u @ ''_t>'') @ ''>''"
| "parser_text (P_structure name ps) = ''warpcoil::cpp::structure_parser<'' @ name @ ''>''"

lemma generate_parser_type_text: "generate_parser_type t = parser_text (parser_type_of t)"
  by (induction t)
    (simp_all add: integer_parser_name_def comp_def cong: map_cong)

subsection \<open>Each structure is written once\<close>

primrec structures_in :: "wire_type \<Rightarrow> wire_type structure_element list set" where
  "structures_in (Integer r) = {}"
| "structures_in (Variant elements) = (\<Union> (set (map structures_in elements)))"
| "structures_in (Tuple elements) = (\<Union> (set (map structures_in elements)))"
| "structures_in (Vector len element) = structures_in element"
| "structures_in (Utf8 code_units) = {}"
| "structures_in (Structure es) =
     insert es (\<Union> (set (map what (map (map_structure_element structures_in) es))))"

definition complete_structures :: "wire_type structure_element list set \<Rightarrow> bool" where
  "complete_structures S \<longleftrightarrow> (\<forall>es\<in>S. structures_in (Structure es) \<subseteq> S)"

lemma nested_structures: "es \<in> structures_in t \<Longrightarrow> structures_in (Structure es) \<subseteq> structures_in t"
proof (induction t)
  case (Structure es')
  show ?case
  proof (cases "es = es'")
    case False
    with Structure.prems obtain e where e: "e \<in> set es'" "es \<in> structures_in (what e)"
      by (auto simp: structure_element.map_sel)
    with Structure.IH [of e "what e"] have "structures_in (Structure es) \<subseteq> structures_in (what e)"
      by (cases e) auto
    with e(1) show ?thesis by (auto simp: structure_element.map_sel)
  qed simp
qed auto

lemma complete_structures_intros:
  "complete_structures {}" "complete_structures (structures_in t)"
  "(\<And>x. x \<in> A \<Longrightarrow> complete_structures (S x)) \<Longrightarrow> complete_structures (\<Union> (S ` A))"
  "complete_structures T \<Longrightarrow> complete_structures T' \<Longrightarrow> complete_structures (T \<union> T')"
  unfolding complete_structures_def using nested_structures by blast+

text \<open>The structures that a writer adds to those that have been written.\<close>

definition adds :: "writer \<Rightarrow> wire_type structure_element list set \<Rightarrow> bool" where
  "adds w S \<longleftrightarrow> complete_structures S \<and>
     (\<forall>st st'. complete_structures (set (generated_structures st)) \<longrightarrow> w st = Inr st' \<longrightarrow>
       set (generated_structures st') = set (generated_structures st) \<union> S)"

lemma adds_append: "adds (append_text sink s) {}"
  by (cases sink) (auto simp: adds_def append_text_def complete_structures_intros(1))

lemma adds_Nil: "adds (in_order []) {}"
  by (simp add: adds_def in_order.simps complete_structures_intros(1))

lemma adds_Cons:
  assumes "adds w S" "adds (in_order ws) T"
  shows "adds (in_order (w # ws)) (S \<union> T)"
  unfolding adds_def
proof (intro conjI allI impI)
  show "complete_structures (S \<union> T)" using assms by (simp add: adds_def complete_structures_intros(4))
  fix st st'
  assume st: "complete_structures (set (generated_structures st))" and "in_order (w # ws) st = Inr st'"
  then obtain st1 where "w st = Inr st1" "in_order ws st1 = Inr st'"
    by (auto simp: in_order.simps split: sum.splits)
  moreover from assms(1) st this(1) have "set (generated_structures st1) = set (generated_structures st) \<union> S"
    unfolding adds_def by blast
  moreover from this st assms(1) have "complete_structures (set (generated_structures st1))"
    unfolding adds_def by (metis complete_structures_intros(4))
  ultimately show "set (generated_structures st') = set (generated_structures st) \<union> (S \<union> T)"
    using assms(2) unfolding adds_def by (metis Un_assoc)
qed

lemma adds_map:
  "(\<And>x. x \<in> set xs \<Longrightarrow> adds (f x) (S x)) \<Longrightarrow> adds (in_order (map f xs)) (\<Union>x\<in>set xs. S x)"
  by (induction xs) (auto intro: adds_Nil adds_Cons)

lemma adds_none: "(\<And>w. w \<in> set ws \<Longrightarrow> adds w {}) \<Longrightarrow> adds (in_order ws) {}"
  using adds_map [of ws "\<lambda>w. w" "\<lambda>_. {}"] by simp

lemma adds_start_line: "adds (start_line sink indentation content) {}"
  unfolding start_line_def render_def by (auto intro!: adds_none adds_append)

lemma adds_block:
  assumes "adds (content (deeper indentation)) S"
  shows "adds (block sink indentation content end_text) S"
proof -
  have "adds (render sink indentation) {}"
    unfolding render_def by (auto intro!: adds_none adds_append)
  then have "adds (block sink indentation content end_text) ({} \<union> (({} \<union> (S \<union> ({} \<union> ({} \<union> ({} \<union> {}))))) \<union> {}))"
    unfolding block_def continuation_block_def
    by (intro adds_Cons adds_Nil adds_append assms)
  then show ?thesis by simp
qed

lemma adds_eq: "adds w S \<Longrightarrow> S = T \<Longrightarrow> adds w T"
  by simp

lemmas adds_intros = adds_Cons adds_Nil adds_append adds_start_line adds_block

lemma zip_with_map:
  "map (\<lambda>(x, y). g x y) (zip xs (map f xs)) = map (\<lambda>x. g x (f x)) xs"
  by (induction xs) simp_all

lemma zip_index_with_map:
  "map (\<lambda>(i, x, y). h i x y) (zip ns (zip xs (map f xs))) = map (\<lambda>(i, x). h i x (f x)) (zip ns xs)"
  by (induction ns xs rule: list_induct2') simp_all

lemma adds_structure_definition:
  assumes "\<And>e. e \<in> set required \<Longrightarrow> adds (f e) (S e)"
  shows "adds (structure_definition m_indentation required (map f required)) (\<Union>e\<in>set required. S e)"
proof -
  have "adds (in_order [start_line Shared_code i [''''], f e, append_text Shared_code '' '',
      append_text Shared_code (element_name e), append_text Shared_code '';\<newline>'']) (S e)"
    if "e \<in> set required" for e i
    by (rule adds_eq, (rule adds_intros assms that)+) simp
  then have "adds (block Shared_code m_indentation (\<lambda>in_struct. in_order (map (\<lambda>e. in_order
      [start_line Shared_code in_struct [''''], f e, append_text Shared_code '' '',
       append_text Shared_code (element_name e), append_text Shared_code '';\<newline>'']) required)) '';\<newline>'')
      (\<Union>e\<in>set required. S e)"
    by (intro adds_block adds_map)
  then show ?thesis
    unfolding structure_definition_def zip_with_map
    by (intro adds_eq [OF adds_Cons [OF adds_start_line adds_Cons [OF adds_append adds_Cons [OF adds_append
        adds_Cons [OF _ adds_Nil]]]]]) auto
qed

lemma adds_single: "adds w S \<Longrightarrow> adds (in_order [w]) S"
  using adds_Cons [OF _ adds_Nil] by fastforce

lemma adds_after: "adds w {} \<Longrightarrow> adds (in_order ws) S \<Longrightarrow> adds (in_order (w # ws)) S"
  using adds_Cons by fastforce

lemmas adds_nothing = adds_none adds_append adds_start_line adds_block

lemma adds_empty_structure_parser: "adds (empty_structure_parser in_cpp required) {}"
  unfolding empty_structure_parser_def by (auto intro!: adds_nothing)

lemma adds_tuple_structure_parser:
  assumes "\<And>e. e \<in> set required \<Longrightarrow> adds (f e) (S e)"
  shows "adds (tuple_structure_parser in_cpp required (map f required)) (\<Union>e\<in>set required. S e)"
proof -
  define get where "get i ie = in_order
      [start_line Shared_code i [''''], f (snd ie), append_text Shared_code '' &get('',
       append_text Shared_code (generate_name_for_structure required),
       append_text Shared_code '' &result, std::integral_constant<std::size_t, '',
       append_text Shared_code (decimal (fst ie)),
       append_text Shared_code ''>) const\<newline>'',
       block Shared_code i (\<lambda>in_get.
         start_line Shared_code in_get [''return result.'', element_name (snd ie), '';\<newline>'']) ''\<newline>'']" for i ie
  have "adds (get i ie) (S (snd ie))" if "snd ie \<in> set required" for ie i
    unfolding get_def
    by (rule adds_after [OF adds_start_line adds_eq [OF adds_Cons [OF assms [OF that] adds_none]]])
      (auto intro!: adds_nothing)
  then have "adds (in_order (map (get i) (zip [0..<length required] required)))
      (\<Union>ie\<in>set (zip [0..<length required] required). S (snd ie))" for i
    by (intro adds_map) (auto dest: set_zip_rightD)
  moreover have "snd ` set (zip [0..<length required] required) = set required"
    using map_snd_zip [of "[0..<length required]" required] by (metis list.set_map length_upt diff_zero)
  then have "(\<Union>ie\<in>set (zip [0..<length required] required). S (snd ie)) = (\<Union>e\<in>set required. S e)"
    by (simp flip: image_image [of S snd])
  ultimately have "adds (block Shared_code in_cpp
      (\<lambda>i. in_order (map (get i) (zip [0..<length required] required))) '';\<newline>'') (\<Union>e\<in>set required. S e)"
    by (intro adds_block) simp
  then show ?thesis
    unfolding tuple_structure_parser_def zip_index_with_map get_def
    by (intro adds_after adds_append adds_single adds_none) (auto intro!: adds_nothing simp: case_prod_unfold)
qed

lemma adds_structure_parser_specialization:
  assumes "\<And>e. e \<in> set required \<Longrightarrow> adds (f e) (S e)"
  shows "adds (structure_parser_specialization m_indentation required (map f required)) (\<Union>e\<in>set required. S e)"
proof -
  have "adds (if required = [] then empty_structure_parser in_cpp required
      else tuple_structure_parser in_cpp required (map f required)) (\<Union>e\<in>set required. S e)" for in_cpp
    using adds_tuple_structure_parser [of required f S, OF assms] by (simp add: adds_empty_structure_parser)
  then show ?thesis
    unfolding structure_parser_specialization_def
    by (intro adds_after adds_start_line adds_append adds_single adds_block)
qed

lemma adds_require_structure:
  assumes "\<And>e. e \<in> set es \<Longrightarrow> adds (generate_type Shared_code (what e)) (structures_in (what e))"
  shows "adds (require_structure es) (structures_in (Structure es))"
  unfolding adds_def
proof (intro conjI allI impI)
  show "complete_structures (structures_in (Structure es))"
    by (rule complete_structures_intros)
  fix st st'
  assume st: "complete_structures (set (generated_structures st))" and run: "require_structure es st = Inr st'"
  let ?types = "map (\<lambda>e. generate_type Shared_code (what e)) es"
  let ?S = "\<Union>e\<in>set es. structures_in (what e)"
  have all: "structures_in (Structure es) = insert es ?S"
    by (simp add: structure_element.map_sel image_image)
  show "set (generated_structures st') = set (generated_structures st) \<union> structures_in (Structure es)"
  proof (cases "es \<in> set (generated_structures st)")
    case True
    with st have "structures_in (Structure es) \<subseteq> set (generated_structures st)"
      by (auto simp only: complete_structures_def)
    moreover from True run have "st' = st" by (simp add: require_structure.simps structures_contains)
    ultimately show ?thesis by blast
  next
    case False
    let ?written = "in_order [structure_definition (shared_indentation st) es ?types,
      structure_parser_specialization (shared_indentation st) es ?types]"
    have "adds ?written (?S \<union> (?S \<union> {}))"
      by (intro adds_Cons adds_Nil adds_structure_definition adds_structure_parser_specialization assms)
    moreover from run False obtain st1 where "?written st = Inr st1" and mark: "mark_generated es st1 = Inr st'"
      by (auto simp: require_structure.simps structures_contains in_order.simps Let_def split: sum.splits)
    ultimately have "set (generated_structures st1) = set (generated_structures st) \<union> ?S"
      using st unfolding adds_def by blast
    moreover from mark have "set (generated_structures st') = insert es (set (generated_structures st1))"
      by (auto simp: mark_generated_def structures_insert)
    ultimately show ?thesis by (simp only: all) blast
  qed
qed

lemma adds_enclosed:
  assumes "\<And>t. t \<in> set ts \<Longrightarrow> adds (f t) (S t)"
  shows "adds (in_order ([append_text sink opening] @ comma_separated sink first (map f ts) @ [append_text sink closing]))
    (\<Union>t\<in>set ts. S t)"
proof -
  have "adds (in_order (comma_separated sink first (map f ts) @ [append_text sink closing])) (\<Union>t\<in>set ts. S t)"
    using assms
  proof (induction ts arbitrary: first)
    case (Cons t ts)
    have "adds (in_order (f t # comma_separated sink False (map f ts) @ [append_text sink closing]))
        (S t \<union> (\<Union>t\<in>set ts. S t))"
      by (intro adds_Cons Cons) simp_all
    then show ?case
      by (auto simp: add_element_def intro: adds_after adds_append adds_Nil)
  qed (simp add: adds_single adds_append)
  then show ?thesis by (simp add: adds_after adds_append)
qed

lemma generate_type_adds: "adds (generate_type sink t) (structures_in t)"
proof (induction t arbitrary: sink)
  case (Variant elements)
  then show ?case
    unfolding generate_type.simps structures_in.simps set_map by (rule adds_enclosed)
next
  case (Tuple elements)
  then show ?case
    unfolding generate_type.simps structures_in.simps set_map by (rule adds_enclosed)
next
  case (Vector len element)
  show ?case
    unfolding generate_type.simps structures_in.simps
    by (rule adds_after [OF adds_append adds_eq [OF adds_Cons [OF Vector.IH adds_single [OF adds_append]]]]) simp
next
  case (Structure es)
  have "adds (require_structure es) (structures_in (Structure es))"
    by (rule adds_require_structure) (use Structure in \<open>auto simp: structure_element.set_sel\<close>)
  then show ?case
    unfolding generate_type.simps by (rule adds_eq [OF adds_Cons [OF _ adds_single [OF adds_append]]]) simp
qed (simp_all add: generate_type.simps adds_append)

text \<open>A type whose structures have been written is only a name.\<close>

lemma generate_type_known:
  "structures_in t \<subseteq> known \<Longrightarrow> only_appends sink known (generate_type sink t) (type_text t)"
proof (induction t)
  case (Variant elements)
  show ?case
    unfolding generate_type.simps type_text.simps by (rule only_appends.enclosed) (use Variant in auto)
next
  case (Tuple elements)
  show ?case
    unfolding generate_type.simps type_text.simps by (rule only_appends.enclosed) (use Tuple in auto)
next
  case (Vector len element)
  have "only_appends sink known (in_order [append_text sink ''std::vector<'', generate_type sink element, append_text sink ''>''])
      (''std::vector<'' @ type_text element @ ''>'' @ [])"
    by (intro only_appends.sequence only_appends.literal only_appends.no_text Vector.IH) (use Vector.prems in simp)
  then show ?case by (simp add: generate_type.simps)
next
  case (Structure es)
  then have "only_appends sink known (require_structure es) []"
    by (auto simp: only_appends_def require_structure.simps structures_contains append_text_def split: sink.splits)
  then have "only_appends sink known (in_order [require_structure es, append_text sink (generate_name_for_structure es)])
      ([] @ generate_name_for_structure es @ [])"
    by (intro only_appends.sequence only_appends.literal only_appends.no_text)
  then show ?case by (simp add: generate_type.simps)
qed (simp_all add: generate_type.simps only_appends.literal)

subsection \<open>A generator from its start\<close>

text \<open>Both sinks are empty and no structure has been written.\<close>

definition generator_init :: "indentation_level \<Rightarrow> generator_output" where
  "generator_init m_indentation =
     \<lparr>code_text = [], shared_text = [], shared_indentation = m_indentation, generated_structures = []\<rparr>"

lemma generate_type_succeeds: "\<exists>st'. generate_type sink t st = Inr st'"
  using generate_type_text [of t] shared_code_silent(1) [of sink t]
  by (cases sink) (auto simp: writes_def)

lemma generate_types_succeed:
  "\<exists>st'. in_order (map (\<lambda>(sink, t). generate_type sink t) requests) st = Inr st'"
proof (induction requests arbitrary: st)
  case (Cons request requests)
  obtain sink t where "request = (sink, t)" by (cases request)
  moreover obtain st1 where "generate_type sink t st = Inr st1" using generate_type_succeeds by blast
  ultimately show ?case using Cons.IH [of st1] by (simp add: in_order.simps)
qed (simp add: in_order.simps)



subsection \<open>Limits of the generated structures\<close>

text \<open>
  A structure inside a structure is written when the line of its member has begun: its
  definition, and the \<open>namespace warpcoil\<close> of its parser, stand inside the outer structure.
\<close>

lemma nested_structure_is_written_inside:
  "map_sum id (take 81 \<circ> shared_text)
     (generate_type Code (Structure [Element (Structure []) ''inner'']) (generator_init 0)) =
   Inr (''struct structure_to_do_inner\<newline>{\<newline>    struct structure_to_do\<newline>{\<newline>};\<newline>namespace warpcoil'')"
  by code_simp

text \<open>The name of a structure does not determine it: the types of its members are not in it.\<close>

lemma structure_name_is_ambiguous:
  "generate_name_for_structure [Element (Integer (Integer_range 0 255)) ''x''] =
   generate_name_for_structure [Element (Utf8 integer_default) ''x'']"
  by (simp add: generate_name_for_structure_def)

subsection \<open>Matching braces\<close>

text \<open>The names of the members of the structures in a type, none of which has a brace in it.\<close>

primrec names_brace_free :: "wire_type \<Rightarrow> bool" where
  "names_brace_free (Integer r) = True"
| "names_brace_free (Variant elements) = list_all id (map names_brace_free elements)"
| "names_brace_free (Tuple elements) = list_all id (map names_brace_free elements)"
| "names_brace_free (Vector len element) = names_brace_free element"
| "names_brace_free (Utf8 code_units) = True"
| "names_brace_free (Structure es) =
     list_all (\<lambda>e. what e \<and> brace_free (element_name e)) (map (map_structure_element names_brace_free) es)"

lemma brace_free_literal: "list_all (\<lambda>c. c \<noteq> CHR ''{'' \<and> c \<noteq> CHR ''}'') s \<Longrightarrow> balanced s"
  by (intro balanced_intros) (simp add: brace_free_def)

lemma brace_free_separate: "(\<And>s. s \<in> set ss \<Longrightarrow> brace_free s) \<Longrightarrow> brace_free (concat (separate '', '' ss))"
  by (induction "'', ''" ss rule: separate.induct) (simp_all add: brace_free_def)

lemma brace_free_uint [simp]: "brace_free (uint_cpp_name u)" "brace_free (uint_width u)"
  by (cases u; simp add: uint_cpp_name_def uint_width_def brace_free_def)+

lemma brace_free_name:
  assumes "\<And>e. e \<in> set es \<Longrightarrow> brace_free (element_name e)"
  shows "brace_free (generate_name_for_structure es)"
proof -
  have "brace_free s \<Longrightarrow> brace_free (foldl (\<lambda>name e. name @ ''_'' @ element_name e) s es)" for s
    using assms by (induction es arbitrary: s) (simp_all add: brace_free_def)
  then show ?thesis by (simp add: generate_name_for_structure_def brace_free_def)
qed

lemma names_brace_free_Structure:
  "names_brace_free (Structure es) \<longleftrightarrow> (\<forall>e\<in>set es. names_brace_free (what e) \<and> brace_free (element_name e))"
  by (auto simp: list_all_iff structure_element.map_sel)

lemma brace_free_parser_type: "names_brace_free t \<Longrightarrow> brace_free (generate_parser_type t)"
proof (induction t)
  case (Structure es)
  then have "brace_free (generate_name_for_structure es)"
    by (intro brace_free_name) (simp add: names_brace_free_Structure del: names_brace_free.simps)
  then show ?case by (simp add: brace_free_def)
next
  case (Variant elements)
  then have "brace_free (concat (separate '', '' (map generate_parser_type elements)))"
    by (intro brace_free_separate) (auto simp: list_all_iff)
  then show ?case by (simp add: brace_free_def)
next
  case (Tuple elements)
  then have "brace_free (concat (separate '', '' (map generate_parser_type elements)))"
    by (intro brace_free_separate) (auto simp: list_all_iff)
  then show ?case by (simp add: brace_free_def)
next
  case (Vector len element)
  then show ?case using brace_free_uint(2) by (simp add: integer_parser_name_def brace_free_def)
qed (use brace_free_uint(2) in \<open>simp_all add: integer_parser_name_def brace_free_def\<close>)

lemma keeps_balance_mark [balance_intros]: "keeps_balance (mark_generated required)"
  by (auto simp: keeps_balance_def mark_generated_def balanced_intros)

lemma indexed_zip_member: "(i, x, y) \<in> set (zip ns (zip xs ys)) \<Longrightarrow> x \<in> set xs \<and> y \<in> set ys"
  by (blast dest: set_zip_leftD set_zip_rightD)

lemma keeps_balance_structure:
  assumes types: "\<And>w. w \<in> set types \<Longrightarrow> keeps_balance w"
    and names: "names_brace_free (Structure required)"
  shows "keeps_balance (structure_definition m_indentation required types)"
    and "keeps_balance (structure_parser_specialization m_indentation required types)"
proof -
  have element: "brace_free (element_name e)" "brace_free (generate_parser_type (what e))" if "e \<in> set required" for e
    using names that by (auto simp: names_brace_free_Structure brace_free_parser_type simp del: names_brace_free.simps)
  have name: "brace_free (generate_name_for_structure required)"
    by (rule brace_free_name) (rule element)
  note free = balanced_intros(3) [OF name] balanced_intros(3) [OF element(1)] balanced_intros(3) [OF element(2)]
    balanced_intros(3) [OF brace_free_decimal]
  show "keeps_balance (structure_definition m_indentation required types)"
    unfolding structure_definition_def
    by (intro balance_intros free)
      (auto simp: balanced_def dest: set_zip_leftD set_zip_rightD
        intro: types element balanced_intros(3) intro!: balance_intros free)
  show "keeps_balance (structure_parser_specialization m_indentation required types)"
    unfolding structure_parser_specialization_def
  proof (intro balance_intros free)
    show "keeps_balance (if required = [] then empty_structure_parser i required else tuple_structure_parser i required types)" for i
    proof (cases "required = []")
      case True
      then show ?thesis
        unfolding empty_structure_parser_def
        by simp (intro balance_intros free; simp add: balanced_def generate_name_for_structure_def)
    next
      case False
      then show ?thesis
        unfolding tuple_structure_parser_def
        by simp (intro balance_intros free; auto simp: balanced_def nesting_brace_free [OF element(1)] dest!: indexed_zip_member
          intro: types element balanced_intros(3) intro!: balance_intros free)
    qed
  qed (simp_all add: balanced_def)
qed

lemma keeps_balance_enclosed:
  assumes "\<And>t. t \<in> set ts \<Longrightarrow> keeps_balance (f t)" and "balanced opening" "balanced closing"
  shows "keeps_balance (in_order ([append_text sink opening] @ comma_separated sink first (map f ts) @ [append_text sink closing]))"
  using assms
  by (intro keeps_balance_in_order) (auto intro!: keeps_balance_append dest!: keeps_balance_comma_separated)

lemma keeps_balance_generate_type:
  "names_brace_free t \<Longrightarrow> keeps_balance (generate_type sink t)"
  "names_brace_free (Structure es) \<Longrightarrow> keeps_balance (require_structure es)"
proof (induction sink t and es rule: generate_type_require_structure.induct)
  case (1 sink r)
  then show ?case by (simp add: generate_type.simps keeps_balance_append balanced_intros)
next
  case (2 sink elements)
  then show ?case
    unfolding generate_type.simps
    by (intro keeps_balance_enclosed) (auto simp: balanced_def list_all_iff)
next
  case (3 sink elements)
  then show ?case
    unfolding generate_type.simps
    by (intro keeps_balance_enclosed) (auto simp: balanced_def list_all_iff)
next
  case (4 sink len element)
  then show ?case
    unfolding generate_type.simps by (intro balance_intros) (auto simp: balanced_def)
next
  case (5 sink code_units)
  then show ?case by (simp add: generate_type.simps keeps_balance_append balanced_def)
next
  case (6 sink elements)
  then have "brace_free (generate_name_for_structure elements)"
    by (intro brace_free_name) (simp add: names_brace_free_Structure del: names_brace_free.simps)
  with 6 show ?case
    unfolding generate_type.simps by (intro balance_intros balanced_intros(3)) auto
next
  case (7 required)
  let ?types = "map (\<lambda>e. generate_type Shared_code (what e)) required"
  show ?case
    unfolding keeps_balance_def
  proof (intro allI impI)
    fix st st'
    assume run: "require_structure required st = Inr st'"
    show "\<exists>s t. code_text st' = code_text st @ s \<and> shared_text st' = shared_text st @ t \<and> balanced s \<and> balanced t"
    proof (cases "std_set_contains structure_less required (generated_structures st)")
      case True
      with run show ?thesis by (auto simp: require_structure.simps balanced_intros)
    next
      case False
      with 7 have "\<And>w. w \<in> set ?types \<Longrightarrow> keeps_balance w"
        by (auto simp: names_brace_free_Structure simp del: names_brace_free.simps)
      from keeps_balance_structure [of ?types, OF this] 7(2)
      have "keeps_balance (in_order [structure_definition (shared_indentation st) required ?types,
          structure_parser_specialization (shared_indentation st) required ?types, mark_generated required])"
        by (auto intro!: balance_intros)
      moreover from run False have "in_order [structure_definition (shared_indentation st) required ?types,
          structure_parser_specialization (shared_indentation st) required ?types, mark_generated required] st = Inr st'"
        by (simp add: require_structure.simps Let_def)
      ultimately show ?thesis unfolding keeps_balance_def by blast
    qed
  qed
qed

end
