(* ===== verification/Cpp_Statements.thy ===== *)
theory Cpp_Statements
  imports Cpp_Types Value_Serialization
begin

text \<open>
  The text of the statements that serialise a value
  (\<open>warpcoil/cpp/generate/generate_value_serialization.hpp\<close>).
  \<^item> \<open>generate_value_serialization\<close> is the generator as it is written: it appends lines to the
    code and builds the C++ expressions of the parts of a value as strings.
  \<^item> \<open>expression_text\<close> and \<open>statement_text\<close> print the abstract syntax of
    \<open>Value_Serialization\<close>. The generator writes the text of the statements that
    \<open>value_serialization\<close> computes, whose execution is the specification \<open>serialize\<close>.
\<close>

subsection \<open>The generator\<close>

definition serialize_integer_text :: "indentation_level \<Rightarrow> string \<Rightarrow> string \<Rightarrow> integer_range \<Rightarrow> string \<Rightarrow> writer" where
  "serialize_integer_text indentation snk val r return_invalid_input_error =
     in_order
       [if minimum r = 0
        then start_line Code indentation
          [''if (('', val, '') > '', decimal (unat (maximum r)), ''u) { '', return_invalid_input_error, ''; }\<newline>'']
        else start_line Code indentation
          [''if ((('', val, '') < '', decimal (unat (minimum r)), ''u) || (('', val, '') > '',
           decimal (unat (maximum r)), ''u)) { '', return_invalid_input_error, ''; }\<newline>''],
        start_line Code indentation
          [''warpcoil::cpp::write_integer('', snk, '', static_cast<'',
           uint_cpp_name (find_suitable_uint_cpp_type r), ''>('', val, ''));\<newline>'']]"

text \<open>
  A writer whose sink is a string of its own (\<open>Si::make_container_sink\<close>); what it writes to the
  shared code stays. The rest of the function uses the string.
\<close>

definition with_string :: "writer \<Rightarrow> (string \<Rightarrow> writer) \<Rightarrow> writer" where
  "with_string w f st =
     (case w (st\<lparr>code_text := []\<rparr>) of
        Inl e \<Rightarrow> Inl e
      | Inr st' \<Rightarrow> f (code_text st') (st'\<lparr>code_text := code_text st\<rparr>))"

function generate_value_serialization ::
  "indentation_level \<Rightarrow> string \<Rightarrow> string \<Rightarrow> wire_type \<Rightarrow> string \<Rightarrow> writer" where
  "generate_value_serialization indentation snk val (Integer r) return_invalid_input_error =
     serialize_integer_text indentation snk val r return_invalid_input_error"
| "generate_value_serialization indentation snk val (Variant elements) return_invalid_input_error =
     in_order
       [serialize_integer_text indentation snk (val @ ''.index()'')
          (Integer_range 0 (of_nat (length elements) - 1)) return_invalid_input_error,
        start_line Code indentation [''switch ('', val, ''.index())\<newline>''],
        block Code indentation (\<lambda>in_switch. in_order
          (map (\<lambda>(index, element). in_order
            [start_line Code in_switch [''case '', decimal index, '':\<newline>''],
             with_string
               (in_order [append_text Code (''('' @ ''*Si::try_get_ptr<''), generate_type Code element,
                  append_text Code ''>('', append_text Code val, append_text Code ''))''])
               (\<lambda>element_expression.
                  generate_value_serialization (deeper in_switch) snk element_expression element
                    return_invalid_input_error),
             start_line Code (deeper in_switch) [''break;\<newline>'']])
            (zip [0..<length elements] elements))) ''\<newline>'']"
| "generate_value_serialization indentation snk val (Tuple elements) return_invalid_input_error =
     in_order (map (\<lambda>(element_index, element).
       generate_value_serialization indentation snk
         (''std::get<'' @ decimal element_index @ ''>('' @ val @ '')'') element return_invalid_input_error)
       (zip [0..<length elements] elements))"
| "generate_value_serialization indentation snk val (Vector len element) return_invalid_input_error =
     in_order
       [serialize_integer_text indentation snk (val @ ''.size()'') len return_invalid_input_error,
        render Code indentation,
        append_text Code ''for (auto const &element : '',
        append_text Code val,
        append_text Code '')\<newline>'',
        render Code indentation,
        append_text Code ''{\<newline>'',
        generate_value_serialization (deeper indentation) snk ''element'' element return_invalid_input_error,
        render Code indentation,
        append_text Code ''}\<newline>'']"
| "generate_value_serialization indentation snk val (Utf8 code_units) return_invalid_input_error =
     in_order
       [start_line Code indentation
          [''if (!utf8::is_valid('', val, ''.begin(), '', val, ''.end())) { '', return_invalid_input_error, ''; }\<newline>''],
        serialize_integer_text indentation snk (val @ ''.size()'') code_units return_invalid_input_error,
        start_line Code indentation [''Si::append(''],
        append_text Code snk,
        append_text Code '', Si::make_iterator_range(reinterpret_cast<std::uint8_t const *>('',
        append_text Code val,
        append_text Code ''.data()), reinterpret_cast<std::uint8_t const *>('',
        append_text Code val,
        append_text Code ''.data() + '',
        append_text Code val,
        append_text Code ''.size())));\<newline>'']"
| "generate_value_serialization indentation snk val (Structure elements) return_invalid_input_error =
     in_order (map (\<lambda>e.
       generate_value_serialization indentation snk (val @ ''.'' @ element_name e) (what e) return_invalid_input_error)
       elements)"
  by pat_completeness auto
termination
  by (relation "measure (\<lambda>(indentation, snk, val, t, e). size t)")
    (auto simp: list_element_size structure_element_size dest: set_zip_rightD)

declare generate_value_serialization.simps [simp del]

subsection \<open>The text of expressions and statements\<close>

primrec expression_text :: "cpp_expr \<Rightarrow> string" where
  "expression_text (E_var x) = x"
| "expression_text (E_index e) = expression_text e @ ''.index()''"
| "expression_text (E_try_get t e) =
     ''('' @ ''*Si::try_get_ptr<'' @ type_text t @ ''>('' @ expression_text e @ ''))''"
| "expression_text (E_get i e) = ''std::get<'' @ decimal i @ ''>('' @ expression_text e @ '')''"
| "expression_text (E_size e) = expression_text e @ ''.size()''"
| "expression_text (E_member i name e) = expression_text e @ ''.'' @ name"

primrec statement_text :: "string \<Rightarrow> string \<Rightarrow> cpp_stmt \<Rightarrow> indentation_level \<Rightarrow> string" where
  "statement_text snk err (S_check_maximum e high) = (\<lambda>i.
     spaces i @ ''if (('' @ expression_text e @ '') > '' @ decimal (unat high) @ ''u) { '' @ err @ ''; }\<newline>'')"
| "statement_text snk err (S_check_range e low high) = (\<lambda>i.
     spaces i @ ''if ((('' @ expression_text e @ '') < '' @ decimal (unat low) @ ''u) || (('' @ expression_text e @
     '') > '' @ decimal (unat high) @ ''u)) { '' @ err @ ''; }\<newline>'')"
| "statement_text snk err (S_write_integer u e) = (\<lambda>i.
     spaces i @ ''warpcoil::cpp::write_integer('' @ snk @ '', static_cast<'' @ uint_cpp_name u @ ''>('' @
     expression_text e @ ''));\<newline>'')"
| "statement_text snk err (S_switch e cases) = (\<lambda>i.
     spaces i @ ''switch ('' @ expression_text e @ '')\<newline>'' @ spaces i @ ''{\<newline>'' @
     concat (map (\<lambda>(k, body).
       spaces (deeper i) @ ''case '' @ decimal k @ '':\<newline>'' @ concat (map (\<lambda>s. s (deeper (deeper i))) body) @
       spaces (deeper (deeper i)) @ ''break;\<newline>'')
       (zip [0..<length cases] (map (map (statement_text snk err)) cases))) @
     spaces i @ ''}\<newline>'')"
| "statement_text snk err (S_for e body) = (\<lambda>i.
     spaces i @ ''for (auto const &element : '' @ expression_text e @ '')\<newline>'' @ spaces i @ ''{\<newline>'' @
     concat (map (\<lambda>s. s (deeper i)) (map (statement_text snk err) body)) @ spaces i @ ''}\<newline>'')"
| "statement_text snk err (S_check_utf8 e) = (\<lambda>i.
     spaces i @ ''if (!utf8::is_valid('' @ expression_text e @ ''.begin(), '' @ expression_text e @
     ''.end())) { '' @ err @ ''; }\<newline>'')"
| "statement_text snk err (S_append e) = (\<lambda>i.
     spaces i @ ''Si::append('' @ snk @
     '', Si::make_iterator_range(reinterpret_cast<std::uint8_t const *>('' @ expression_text e @
     ''.data()), reinterpret_cast<std::uint8_t const *>('' @ expression_text e @ ''.data() + '' @
     expression_text e @ ''.size())));\<newline>'')"

definition statements_text :: "string \<Rightarrow> string \<Rightarrow> indentation_level \<Rightarrow> cpp_stmt list \<Rightarrow> string" where
  "statements_text snk err i ss = concat (map (\<lambda>s. statement_text snk err s i) ss)"

lemma statements_text_simps [simp]:
  "statements_text snk err i [] = []"
  "statements_text snk err i (s # ss) = statement_text snk err s i @ statements_text snk err i ss"
  "statements_text snk err i (ss @ ts) = statements_text snk err i ss @ statements_text snk err i ts"
  by (simp_all add: statements_text_def)

lemma statements_text_concat:
  "statements_text snk err i (concat sss) = concat (map (statements_text snk err i) sss)"
  by (induction sss) simp_all

subsection \<open>The generator writes the text of the statements\<close>

lemma writes_line:
  assumes "s = spaces i @ concat content"
  shows "writes (start_line Code i content) s"
  unfolding assms by (rule writes.line)

lemma writes_integer_serialization:
  "writes (serialize_integer_text i snk (expression_text e) r err)
     (statements_text snk err i (integer_serialization r e))"
proof -
  have "writes (serialize_integer_text i snk (expression_text e) r err)
      (concat (map (\<lambda>s. statement_text snk err s i) (integer_serialization r e)))"
    unfolding serialize_integer_text_def
    by (rule writes.all) (auto simp: integer_serialization_def intro!: writes_line)
  then show ?thesis by (simp add: statements_text_def)
qed

lemma writes_with_string:
  assumes "writes w s" and "writes (f s) t"
  shows "writes (with_string w f) t"
  unfolding writes_def
proof
  fix st :: generator_output
  from assms(1) obtain st1 where 1: "w (st\<lparr>code_text := []\<rparr>) = Inr st1" "code_text st1 = s"
    by (fastforce simp: writes_def)
  from assms(2) obtain st2 where "f s (st1\<lparr>code_text := code_text st\<rparr>) = Inr st2" "code_text st2 = code_text st @ t"
    by (fastforce simp: writes_def)
  with 1 show "\<exists>st'. with_string w f st = Inr st' \<and> code_text st' = code_text st @ t"
    by (simp add: with_string_def)
qed

lemma writes_eq: "writes w s \<Longrightarrow> s = t \<Longrightarrow> writes w t"
  by simp

lemma statement_text_switch:
  "statement_text snk err (S_switch e cases) i =
     spaces i @ ''switch ('' @ expression_text e @ '')\<newline>'' @ spaces i @ ''{\<newline>'' @
     concat (map (\<lambda>(k, body). spaces (deeper i) @ ''case '' @ decimal k @ '':\<newline>'' @
       statements_text snk err (deeper (deeper i)) body @ spaces (deeper (deeper i)) @ ''break;\<newline>'')
       (zip [0..<length cases] cases)) @
     spaces i @ ''}\<newline>''"
  by (simp add: statements_text_def zip_map2 comp_def case_prod_unfold)

lemma statement_text_for:
  "statement_text snk err (S_for e body) i =
     spaces i @ ''for (auto const &element : '' @ expression_text e @ '')\<newline>'' @ spaces i @ ''{\<newline>'' @
     statements_text snk err (deeper i) body @ spaces i @ ''}\<newline>''"
  by (simp add: statements_text_def comp_def)

lemma indexed_cases:
  "map (\<lambda>(k, y). g k y) (zip ks (map f xs)) = map (\<lambda>(k, x). g k (f x)) (zip ks xs)"
  by (simp add: zip_map2 comp_def case_prod_unfold)

lemma writes_case:
  assumes "\<And>i e. writes (generate_value_serialization i snk (expression_text e) element err)
      (statements_text snk err i (value_serialization element e))"
  shows "writes (in_order
      [start_line Code i [''case '', decimal k, '':\<newline>''],
       with_string
         (in_order [append_text Code (''('' @ ''*Si::try_get_ptr<''), generate_type Code element,
            append_text Code ''>('', append_text Code (expression_text e), append_text Code ''))''])
         (\<lambda>x. generate_value_serialization (deeper i) snk x element err),
       start_line Code (deeper i) [''break;\<newline>'']])
    (spaces i @ ''case '' @ decimal k @ '':\<newline>'' @
     statements_text snk err (deeper i) (value_serialization element (E_try_get element e)) @
     spaces (deeper i) @ ''break;\<newline>'')"
proof -
  have expression: "writes (in_order [append_text Code (''('' @ ''*Si::try_get_ptr<''), generate_type Code element,
      append_text Code ''>('', append_text Code (expression_text e), append_text Code ''))''])
    (expression_text (E_try_get element e))"
    using writes.all [of "[append_text Code (''('' @ ''*Si::try_get_ptr<''), generate_type Code element,
      append_text Code ''>('', append_text Code (expression_text e), append_text Code ''))'']"
      "[''('' @ ''*Si::try_get_ptr<'', type_text element, ''>('', expression_text e, ''))'']"]
    by (simp add: writes.literal generate_type_text)
  have "writes (with_string
      (in_order [append_text Code (''('' @ ''*Si::try_get_ptr<''), generate_type Code element,
            append_text Code ''>('', append_text Code (expression_text e), append_text Code ''))''])
         (\<lambda>x. generate_value_serialization (deeper i) snk x element err))
      (statements_text snk err (deeper i) (value_serialization element (E_try_get element e)))"
    by (rule writes_with_string) (rule expression, rule assms)
  then show ?thesis
    by (intro writes_eq [OF writes.sequence [OF writes.line writes.sequence [OF _ writes.single [OF writes.line]]]])
      simp_all
qed

lemma writes_value_serialization:
  "writes (generate_value_serialization i snk (expression_text e) t err)
     (statements_text snk err i (value_serialization t e))"
proof (induction t arbitrary: i e)
  case (Integer r)
  then show ?case by (simp add: generate_value_serialization.simps writes_integer_serialization)
next
  case (Variant elements)
  let ?one = "\<lambda>(k, element). in_order
      [start_line Code (deeper i) [''case '', decimal k, '':\<newline>''],
       with_string
         (in_order [append_text Code (''('' @ ''*Si::try_get_ptr<''), generate_type Code element,
            append_text Code ''>('', append_text Code (expression_text e), append_text Code ''))''])
         (\<lambda>x. generate_value_serialization (deeper (deeper i)) snk x element err),
       start_line Code (deeper (deeper i)) [''break;\<newline>'']]"
  let ?cases = "concat (map (\<lambda>(k, element). spaces (deeper i) @ ''case '' @ decimal k @ '':\<newline>'' @
         statements_text snk err (deeper (deeper i)) (value_serialization element (E_try_get element e)) @
         spaces (deeper (deeper i)) @ ''break;\<newline>'') (zip [0..<length elements] elements))"
  have cases: "writes (in_order (map ?one (zip [0..<length elements] elements)))
      ?cases"
    by (rule writes.map_elements) (clarify, rule writes_case, blast intro: Variant dest: set_zip_rightD)
  have switch: "writes (block Code i (\<lambda>in_switch. in_order (map (\<lambda>(k, element). in_order
      [start_line Code in_switch [''case '', decimal k, '':\<newline>''],
       with_string
         (in_order [append_text Code (''('' @ ''*Si::try_get_ptr<''), generate_type Code element,
            append_text Code ''>('', append_text Code (expression_text e), append_text Code ''))''])
         (\<lambda>x. generate_value_serialization (deeper in_switch) snk x element err),
       start_line Code (deeper in_switch) [''break;\<newline>'']])
      (zip [0..<length elements] elements))) ''\<newline>'') (spaces i @ ''{\<newline>'' @ ?cases @ spaces i @ ''}'' @ ''\<newline>'')"
    by (rule writes.braces) (rule cases)
  show ?case
    unfolding generate_value_serialization.simps value_serialization.simps
    by (intro writes_eq [OF writes.sequence [OF writes_integer_serialization [of _ _ "E_index e", simplified]
          writes.sequence [OF writes.line writes.single [OF switch]]]])
      (simp add: statement_text_switch indexed_cases del: statement_text.simps)
next
  case (Tuple elements)
  have "writes (in_order (map (\<lambda>(k, t). generate_value_serialization i snk (expression_text (E_get k e)) t err)
        (zip [0..<length elements] elements)))
      (concat (map (\<lambda>(k, t). statements_text snk err i (value_serialization t (E_get k e)))
        (zip [0..<length elements] elements)))"
    by (rule writes.map_elements) (clarify, blast intro: Tuple dest: set_zip_rightD)
  then show ?case
    by (simp add: generate_value_serialization.simps statements_text_concat comp_def case_prod_unfold)
next
  case (Vector len element)
  have body: "writes (generate_value_serialization (deeper i) snk ''element'' element err)
      (statements_text snk err (deeper i) (value_serialization element (E_var ''element'')))"
    using Vector [of "deeper i" "E_var ''element''"] by simp
  show ?case
    unfolding generate_value_serialization.simps value_serialization.simps
    by (rule writes_eq,
        (rule writes_intros body writes_integer_serialization [of _ _ "E_size e", unfolded expression_text.simps])+)
      (simp add: statement_text_for del: statement_text.simps)
next
  case (Utf8 code_units)
  show ?case
    unfolding generate_value_serialization.simps value_serialization.simps
    by (rule writes_eq,
        (rule writes_intros writes_integer_serialization [of _ _ "E_size e", unfolded expression_text.simps])+) simp
next
  case (Structure elements)
  have "writes (in_order (map (\<lambda>(k, t). generate_value_serialization i snk (expression_text (E_member k (element_name t) e)) (what t) err)
        (zip [0..<length elements] elements)))
      (concat (map (\<lambda>(k, t). statements_text snk err i (value_serialization (what t) (E_member k (element_name t) e)))
        (zip [0..<length elements] elements)))"
    by (rule writes.map_elements)
      (clarify, rule Structure, erule set_zip_rightD, simp add: structure_element.set_sel)
  moreover have "map (\<lambda>(k, t). generate_value_serialization i snk (expression_text (E_member k (element_name t) e)) (what t) err)
        (zip [0..<length elements] elements) =
      map (\<lambda>t. generate_value_serialization i snk (expression_text e @ ''.'' @ element_name t) (what t) err) elements"
    by (rule nth_equalityI) simp_all
  ultimately show ?case
    by (simp add: generate_value_serialization.simps statements_text_concat comp_def case_prod_unfold)
qed

text \<open>C21: For every type the generator succeeds and appends to the code the text of the statements of
  \<open>value_serialization\<close>, those whose execution implements the specification \<open>serialize\<close>, for the
  value that the expression \<open>x\<close> names.
\<close>

theorem generated_text_is_of_the_statements:
  "\<exists>st'. generate_value_serialization i snk x t err st = Inr st' \<and>
     code_text st' = code_text st @ statements_text snk err i (value_serialization t (E_var x))"
  using writes_value_serialization [of i snk "E_var x" t err] by (simp add: writes_def)

subsection \<open>Matching braces\<close>

lemma brace_free_type_text: "names_brace_free t \<Longrightarrow> brace_free (type_text t)"
proof (induction t)
  case (Structure es)
  then have "brace_free (generate_name_for_structure es)"
    by (intro brace_free_name) (simp add: names_brace_free_Structure del: names_brace_free.simps)
  then show ?case by simp
next
  case (Variant elements)
  then have "brace_free (concat (separate '', '' (map type_text elements)))"
    by (intro brace_free_separate) (auto simp: list_all_iff)
  then show ?case by (simp add: brace_free_def)
next
  case (Tuple elements)
  then have "brace_free (concat (separate '', '' (map type_text elements)))"
    by (intro brace_free_separate) (auto simp: list_all_iff)
  then show ?case by (simp add: brace_free_def)
qed (simp_all add: brace_free_def flip: brace_free_def)

lemma keeps_balance_with_string:
  assumes w: "writes w s" "keeps_balance w" and f: "keeps_balance (f s)"
  shows "keeps_balance (with_string w f)"
  unfolding keeps_balance_def
proof (intro allI impI)
  fix st st' :: generator_output
  assume run: "with_string w f st = Inr st'"
  from w(1) obtain st1 where 1: "w (st\<lparr>code_text := []\<rparr>) = Inr st1" "code_text st1 = s"
    by (fastforce simp: writes_def)
  with w(2) obtain t where "shared_text st1 = shared_text st @ t" "balanced t"
    unfolding keeps_balance_def by fastforce
  moreover from run 1 have "f s (st1\<lparr>code_text := code_text st\<rparr>) = Inr st'" by (simp add: with_string_def)
  then obtain u v where "code_text st' = code_text st @ u" "shared_text st' = shared_text st1 @ v" "balanced u" "balanced v"
    using f unfolding keeps_balance_def by fastforce
  ultimately show "\<exists>s t. code_text st' = code_text st @ s \<and> shared_text st' = shared_text st @ t \<and>
      balanced s \<and> balanced t"
    by (intro exI [of _ u] exI [of _ "t @ v"]) (simp add: balanced_intros)
qed

lemmas balanced_literal = balanced_def nesting_append nesting_balanced nesting_brace_free

lemma keeps_balance_integer_text:
  assumes "brace_free snk" "brace_free x" "balanced err"
  shows "keeps_balance (serialize_integer_text i snk x r err)"
  using assms unfolding serialize_integer_text_def
  by (intro keeps_balance_Cons keeps_balance_Nil) (auto intro!: keeps_balance_line simp: balanced_literal)

lemma keeps_balance_value_serialization:
  "brace_free snk \<Longrightarrow> brace_free x \<Longrightarrow> names_brace_free t \<Longrightarrow> balanced err \<Longrightarrow>
   keeps_balance (generate_value_serialization i snk x t err)"
proof (induction i snk x t err rule: generate_value_serialization.induct)
  case (1 i snk x r err)
  then show ?case by (simp add: generate_value_serialization.simps keeps_balance_integer_text)
next
  case (2 i snk x elements err)
  let ?expression = "\<lambda>element. in_order [append_text Code (''('' @ ''*Si::try_get_ptr<''), generate_type Code element,
      append_text Code ''>('', append_text Code x, append_text Code ''))'']"
  have expression: "keeps_balance (?expression element)" if "element \<in> set elements" for element
    using that 2(2-5)
    by (intro balance_intros keeps_balance_generate_type) (auto simp: balanced_literal list_all_iff)
  have string: "writes (?expression element) (''('' @ ''*Si::try_get_ptr<'' @ type_text element @ ''>('' @ x @ ''))'')" for element
    by (rule writes_eq, (rule writes_intros generate_type_text)+) simp
  have part: "keeps_balance (with_string (?expression element) (\<lambda>s. generate_value_serialization (deeper (deeper i)) snk s element err))"
    if "(k, element) \<in> set (zip [0..<length elements] elements)" for k element
  proof (rule keeps_balance_with_string [OF string expression])
    show element: "element \<in> set elements" using that by (rule set_zip_rightD)
    with 2(2-5) show "keeps_balance (generate_value_serialization (deeper (deeper i)) snk
        (''('' @ ''*Si::try_get_ptr<'' @ type_text element @ ''>('' @ x @ ''))'') element err)"
      by (intro 2(1) [OF that refl]) (auto simp: list_all_iff brace_free_type_text)
  qed
  show ?case
    unfolding generate_value_serialization.simps
    using 2(2-5) by (intro balance_intros keeps_balance_integer_text)
      (auto intro!: balance_intros keeps_balance_line part [unfolded append_Cons append_Nil] simp: balanced_literal)
next
  case (3 i snk x elements err)
  have "keeps_balance (generate_value_serialization i snk (''std::get<'' @ decimal k @ ''>('' @ x @ '')'') element err)"
    if "(k, element) \<in> set (zip [0..<length elements] elements)" for k element
    using 3 that set_zip_rightD [OF that] by (intro 3(1) [OF that refl]) (auto simp: list_all_iff)
  then show ?case
    unfolding generate_value_serialization.simps by (intro keeps_balance_map) auto
next
  case (4 i snk x len element err)
  have body: "keeps_balance (in_order [append_text Code ''{\<newline>'',
      generate_value_serialization (deeper i) snk ''element'' element err, render Code i, append_text Code ''}\<newline>''])"
    using 4 by (intro keeps_balance_braces) simp
  have "keeps_balance (in_order ([serialize_integer_text i snk (x @ ''.size()'') len err, render Code i,
      append_text Code ''for (auto const &element : '', append_text Code x, append_text Code '')\<newline>'', render Code i] @
      [in_order [append_text Code ''{\<newline>'',
        generate_value_serialization (deeper i) snk ''element'' element err, render Code i, append_text Code ''}\<newline>'']]))"
    using 4(2-5) by (intro keeps_balance_in_order) (auto intro!: balance_intros keeps_balance_integer_text body simp: balanced_literal)
  then show ?case
    unfolding generate_value_serialization.simps in_order_flatten by simp
next
  case (5 i snk x code_units err)
  then show ?case
    unfolding generate_value_serialization.simps
    by (intro balance_intros keeps_balance_line keeps_balance_integer_text) (auto simp: balanced_literal)
next
  case (6 i snk x elements err)
  then show ?case
    unfolding generate_value_serialization.simps
    by (intro keeps_balance_map) (auto simp: names_brace_free_Structure simp del: names_brace_free.simps)
qed

end
