(* ===== verification/Cpp_Classes.thy ===== *)
theory Cpp_Classes
  imports Cpp_Statements Generated_Server
begin

text \<open>
  The C++ classes that the generator writes for an interface, one group of definitions per file:
  \<open>generate_parameters.hpp\<close>, \<open>generate_interface.hpp\<close>, \<open>generate_type_eraser.hpp\<close>,
  \<open>generate_serialization_client.hpp\<close>, \<open>generate_serialization_server.hpp\<close> and
  \<open>generate_serializable_interface.hpp\<close>, all in \<open>warpcoil/cpp/generate\<close>. These are the writers
  of the text; what the classes in the text do is modelled in \<open>Client_Pipeline\<close> and
  \<open>Generated_Server\<close>.
\<close>

subsection \<open>\<open>generate_parameters.hpp\<close>\<close>

definition generate_parameters :: "parameter list \<Rightarrow> writer" where
  "generate_parameters ps =
     in_order (map (\<lambda>param. in_order
       [generate_type Code (parameter_type param),
        append_text Code '' '',
        append_text Code (parameter_name param),
        append_text Code '', '']) ps)"

text \<open>What \<open>generate_parameters\<close> returns.\<close>

definition parameters_emptiness :: "parameter list \<Rightarrow> type_emptiness" where
  "parameters_emptiness ps =
     fold (\<lambda>param total_emptiness.
       case type_emptiness_of (parameter_type param) of
         Empty \<Rightarrow> total_emptiness
       | Non_empty \<Rightarrow> Non_empty) ps Empty"

subsection \<open>\<open>generate_interface.hpp\<close>\<close>

definition generate_interface :: "indentation_level \<Rightarrow> string \<Rightarrow> interface_definition \<Rightarrow> writer" where
  "generate_interface indentation name interface =
     in_order
       [append_text Code ''struct async_'',
        append_text Code name,
        append_text Code ''\<newline>'',
        block Code indentation (\<lambda>in_class. in_order
          [render Code in_class,
           append_text Code ''virtual ~async_'',
           append_text Code name,
           append_text Code ''() {}\<newline>\<newline>'',
           in_order (map (\<lambda>(method_name, entry). in_order
             [render Code in_class,
              append_text Code ''virtual void '',
              append_text Code method_name,
              append_text Code ''('',
              generate_parameters (parameters entry),
              append_text Code ''std::function<void(Si::error_or<'',
              generate_type Code (method_result entry),
              append_text Code ''>)> on_result) = 0;\<newline>'']) (methods interface))]) '';\<newline>\<newline>'']"

subsection \<open>\<open>generate_type_eraser.hpp\<close>\<close>

definition generate_type_eraser :: "indentation_level \<Rightarrow> string \<Rightarrow> interface_definition \<Rightarrow> writer" where
  "generate_type_eraser indentation name interface =
     in_order
       [start_line Code indentation [''template <class Client>\<newline>''],
        append_text Code ''struct async_type_erased_'',
        append_text Code name,
        append_text Code '' : async_'',
        append_text Code name,
        append_text Code ''\<newline>'',
        block Code indentation (\<lambda>in_class. in_order
          [start_line Code indentation [''Client &client;\<newline>\<newline>''],
           start_line Code indentation [''explicit ''],
           append_text Code ''async_type_erased_'',
           append_text Code name,
           append_text Code ''(Client &client) : client(client) {}\<newline>\<newline>'',
           in_order (map (\<lambda>(method_name, entry). in_order
             [render Code in_class,
              append_text Code ''void '',
              append_text Code method_name,
              append_text Code ''('',
              generate_parameters (parameters entry),
              append_text Code ''std::function<void(Si::error_or<'',
              generate_type Code (method_result entry),
              append_text Code ''>)> on_result) override\<newline>'',
              block Code in_class (\<lambda>in_method. in_order
                [start_line Code in_method [''return client.'', method_name, ''(''],
                 in_order (map (\<lambda>p. in_order
                   [append_text Code ''std::move('',
                    append_text Code (parameter_name p),
                    append_text Code ''), '']) (parameters entry)),
                 append_text Code ''std::move(on_result));\<newline>'']) ''\<newline>\<newline>''])
             (methods interface))]) '';\<newline>\<newline>'']"

subsection \<open>\<open>generate_serialization_client.hpp\<close>\<close>

definition name_too_long :: cpp_exception where
  "name_too_long = Invalid_argument ''A method name cannot be longer than 255 bytes''"

definition client_error_handling :: string where
  "client_error_handling =
     ''handler(warpcoil::cpp::make_invalid_input_error()); return warpcoil::cpp::client_pipeline_request_status::failure''"

text \<open>The lambda that builds the request of a method, the one that \<open>build_request\<close> executes.\<close>

definition client_request_builder :: "indentation_level \<Rightarrow> ident \<Rightarrow> parameter list \<Rightarrow> writer" where
  "client_request_builder in_builder method_name ps =
     in_order
       [start_line Code in_builder [''append(request_writer, ''],
        if length method_name > 255 then throw name_too_long else in_order [],
        append_text Code (decimal (length method_name)),
        append_text Code ''u);\<newline>'',
        start_line Code in_builder
          [''append(request_writer, Si::make_c_str_range(reinterpret_cast<std::uint8_t const *>('' @ [CHR 0x22]],
        append_text Code method_name,
        append_text Code (CHR 0x22 # '')));\<newline>''),
        in_order (map (\<lambda>param.
          generate_value_serialization in_builder ''request_writer'' (parameter_name param)
            (parameter_type param) client_error_handling) ps),
        start_line Code in_builder [''return warpcoil::cpp::client_pipeline_request_status::ok;'']]"

definition client_method :: "indentation_level \<Rightarrow> ident \<Rightarrow> method_definition \<Rightarrow> writer" where
  "client_method in_class method_name entry =
     in_order
       [start_line Code in_class [''template <class CompletionToken>\<newline>''],
        start_line Code in_class [''auto ''],
        append_text Code method_name,
        append_text Code ''('',
        generate_parameters (parameters entry),
        append_text Code ''CompletionToken &&token)\<newline>'',
        block Code in_class (\<lambda>in_method. in_order
          [case parameters_emptiness (parameters entry) of
             Empty \<Rightarrow> in_order (map (\<lambda>p.
               start_line Code in_method [''static_cast<void>('', parameter_name p, '');\<newline>''])
               (parameters entry))
           | Non_empty \<Rightarrow> in_order [],
           start_line Code in_method
             [''using handler_type = typename boost::asio::handler_type<decltype(token), void(Si::error_or< ''],
           generate_type Code (method_result entry),
           append_text Code ''>)>::type;\<newline>'',
           start_line Code in_method [''handler_type handler(std::forward<CompletionToken>(token));\<newline>''],
           start_line Code in_method [''boost::asio::async_result<handler_type> result(handler);\<newline>''],
           start_line Code in_method [''pipeline.template request<''],
           append_text Code (generate_parser_type (method_result entry)),
           append_text Code
             ''>([&](Si::Sink<std::uint8_t>::interface &request_writer) -> warpcoil::cpp::client_pipeline_request_status\<newline>'',
           block Code in_method (\<lambda>in_builder. client_request_builder in_builder method_name (parameters entry)) [],
           append_text Code '', handler);\<newline>'',
           start_line Code in_method [''return result.get();\<newline>'']]) ''\<newline>\<newline>'']"

definition generate_serialization_client :: "indentation_level \<Rightarrow> string \<Rightarrow> interface_definition \<Rightarrow> writer" where
  "generate_serialization_client indentation name interface =
     in_order
       [start_line Code indentation
          [''template <class AsyncWriteStream, class AsyncReadStream>\<newline>struct async_''],
        append_text Code name,
        append_text Code ''_client'',
        append_text Code ''\<newline>'',
        block Code indentation (\<lambda>in_class. in_order
          [start_line Code in_class [''explicit async_''],
           append_text Code name,
           append_text Code
             ''_client(warpcoil::cpp::buffered_writer<AsyncWriteStream> &requests, warpcoil::cpp::message_splitter<AsyncReadStream> &responses)\<newline>'',
           start_line Code (deeper in_class) ['': pipeline(requests, responses) {}\<newline>\<newline>''],
           in_order (map (\<lambda>(method_name, entry). client_method in_class method_name entry) (methods interface)),
           start_line Code indentation [''private:\<newline>''],
           start_line Code in_class
             [''warpcoil::cpp::client_pipeline<AsyncWriteStream, AsyncReadStream> pipeline;\<newline>\<newline>''],
           start_line Code in_class
             [''friend std::size_t pending_requests(async_'', name,
              ''_client const &client) { return client.pipeline.pending_requests(); }\<newline>'']]) '';\<newline>\<newline>'']"

subsection \<open>\<open>generate_serialization_server.hpp\<close>\<close>

definition move_arguments_text :: "string \<Rightarrow> nat \<Rightarrow> writer" where
  "move_arguments_text tuple_name n =
     in_order (map (\<lambda>i. in_order
       [append_text Code ''std::get<'',
        append_text Code (decimal i),
        append_text Code ''>(std::move('',
        append_text Code tuple_name,
        append_text Code '')), '']) [0..<n])"

definition server_error_handling :: string where
  "server_error_handling =
     ''return std::forward<Handler>(handle_result)(warpcoil::cpp::make_invalid_input_error())''"

text \<open>The handler that the generated server passes to the implementation of a method.\<close>

definition server_result_handler :: "indentation_level \<Rightarrow> wire_type \<Rightarrow> writer" where
  "server_result_handler on_result result =
     block Code on_result (\<lambda>in_lambda. in_order
       [start_line Code in_lambda
          [''if (result.is_error()) { std::forward<Handler>(handle_result)(result.error()); return; }\<newline>''],
        start_line Code in_lambda
          [''auto response_writer = Si::Sink<std::uint8_t, Si::success>::erase(responses.buffer_sink());\<newline>''],
        start_line Code in_lambda
          [''warpcoil::cpp::write_integer(response_writer, static_cast<warpcoil::message_type_int>(warpcoil::message_type::response));\<newline>''],
        start_line Code in_lambda [''warpcoil::cpp::write_integer(response_writer, request_id);\<newline>''],
        case type_emptiness_of result of
          Empty \<Rightarrow> in_order []
        | Non_empty \<Rightarrow>
            generate_value_serialization in_lambda ''response_writer'' ''result.get()'' result server_error_handling,
        start_line Code in_lambda
          [''responses.send_buffer(warpcoil::cpp::wrap_handler([](boost::system::error_code ec, Handler &handle_result)\<newline>''],
        block Code in_lambda (\<lambda>in_read.
          start_line Code in_read [''std::forward<Handler>(handle_result)(ec);\<newline>''])
          '', std::forward<Handler>(handle_result)));\<newline>''])
       '', std::forward<Handler>(handle_result)));\<newline>''"

definition server_method :: "indentation_level \<Rightarrow> ident \<Rightarrow> method_definition \<Rightarrow> writer" where
  "server_method in_class method_name entry =
     in_order
       [append_text Code ''\<newline>'',
        start_line Code in_class [''template <class Handler>\<newline>''],
        start_line Code in_class [''void begin_receive_method_argument_of_''],
        append_text Code method_name,
        append_text Code
          ''(warpcoil::cpp::buffered_read_stream<AsyncReadStream> &input, warpcoil::request_id const request_id, Handler &&handle_result)\<newline>'',
        block Code in_class (\<lambda>in_method. in_order
          [start_line Code in_method [''begin_parse_value(input.input, input.buffer, ''],
           append_text Code (generate_parser_type (get_parameter_type (parameters entry))),
           append_text Code ''{}, warpcoil::cpp::wrap_handler([this, request_id](Si::error_or<'',
           generate_type Code (get_parameter_type (parameters entry)),
           append_text Code ''> argument, Handler &handle_result)\<newline>'',
           block Code in_method (\<lambda>on_result. in_order
             [start_line Code in_method [''requests.unlock_input();\<newline>''],
              start_line Code in_method
                [''if (argument.is_error()) { std::forward<Handler>(handle_result)(argument.error()); return; }\<newline>''],
              start_line Code on_result [''implementation.''],
              append_text Code method_name,
              append_text Code ''('',
              move_arguments_text ''argument.get()'' (length (parameters entry)),
              append_text Code ''warpcoil::cpp::wrap_handler([this, request_id](Si::error_or<'',
              generate_type Code (method_result entry),
              append_text Code ''> result'',
              append_text Code '', Handler &handle_result)\<newline>'',
              server_result_handler on_result (method_result entry)])
             '', std::forward<Handler>(handle_result)));\<newline>'']) ''\<newline>'']"

text \<open>The comparisons of a request with the names of the methods, the chain that \<open>find_method\<close> runs.\<close>

fun server_dispatch :: "indentation_level \<Rightarrow> bool \<Rightarrow> (ident \<times> method_definition) list \<Rightarrow> writer list" where
  "server_dispatch on_result first [] = []"
| "server_dispatch on_result first ((method_name, entry) # ms) =
     in_order
       [render Code on_result,
        if first then in_order [] else append_text Code ''else '',
        append_text Code
          (''if (boost::range::equal(std::get<1>(request.get()), Si::make_c_str_range('' @ [CHR 0x22]),
        append_text Code method_name,
        append_text Code (CHR 0x22 # '')))\<newline>''),
        block Code on_result (\<lambda>in_here. in_order
          [render Code in_here,
           append_text Code ''begin_receive_method_argument_of_'',
           append_text Code method_name,
           append_text Code
             ''(requests.lock_input(), std::get<0>(request.get()), std::forward<Handler>(handle_result));\<newline>''])
          ''\<newline>''] #
     server_dispatch on_result False ms"

definition generate_serialization_server :: "indentation_level \<Rightarrow> string \<Rightarrow> interface_definition \<Rightarrow> writer" where
  "generate_serialization_server indentation name interface =
     in_order
       [start_line Code indentation
          [''template <class Implementation, class AsyncReadStream, class AsyncWriteStream>\<newline>''],
        start_line Code indentation [''struct async_''],
        append_text Code name,
        append_text Code ''_server'',
        append_text Code ''\<newline>'',
        block Code indentation (\<lambda>in_class. in_order
          [start_line Code in_class [''explicit async_''],
           append_text Code name,
           append_text Code
             ''_server(Implementation &implementation, warpcoil::cpp::message_splitter<AsyncReadStream> &requests, warpcoil::cpp::buffered_writer<AsyncWriteStream> &responses)\<newline>'',
           start_line Code (deeper in_class)
             ['': implementation(implementation), requests(requests), responses(responses) {}\<newline>\<newline>''],
           start_line Code in_class [''template <class CompletionToken>\<newline>''],
           start_line Code in_class [''auto serve_one_request(CompletionToken &&token)\<newline>''],
           block Code in_class (\<lambda>in_method. in_order
             [start_line Code in_method
                [''using handler_type = typename boost::asio::handler_type<decltype(token), void(boost::system::error_code)>::type;\<newline>''],
              start_line Code in_method [''handler_type handler(std::forward<CompletionToken>(token));\<newline>''],
              start_line Code in_method [''boost::asio::async_result<handler_type> result(handler);\<newline>''],
              start_line Code in_method [''begin_receive_request_header(std::move(handler));\<newline>''],
              start_line Code in_method [''return result.get();\<newline>'']]) ''\<newline>\<newline>'',
           start_line Code indentation [''private:\<newline>''],
           start_line Code in_class [''Implementation &implementation;\<newline>''],
           start_line Code in_class [''warpcoil::cpp::message_splitter<AsyncReadStream> &requests;\<newline>''],
           start_line Code in_class [''warpcoil::cpp::buffered_writer<AsyncWriteStream> &responses;\<newline>\<newline>''],
           start_line Code in_class [''template <class Handler>\<newline>''],
           start_line Code in_class [''void begin_receive_request_header(Handler &&handle_result)\<newline>''],
           block Code in_class (\<lambda>in_method. in_order
             [start_line Code in_method
                [''requests.wait_for_request(warpcoil::cpp::wrap_handler([this](Si::error_or<std::tuple<warpcoil::request_id, std::string>> const &request, Handler &handle_result)\<newline>''],
              block Code in_method (\<lambda>on_result. in_order
                [start_line Code on_result
                   [''if (request.is_error()) { std::forward<Handler>(handle_result)(request.error()); return; }\<newline>''],
                 in_order (server_dispatch on_result True (methods interface)),
                 start_line Code on_result
                   [''else { throw std::logic_error('' @ [CHR 0x22] @ ''to do: handle unknown method name'' @ [CHR 0x22] @ ''); }\<newline>'']])
                '', std::forward<Handler>(handle_result)));\<newline>'']) ''\<newline>'',
           in_order (map (\<lambda>(method_name, entry). server_method in_class method_name entry) (methods interface))])
          '';\<newline>\<newline>'']"

subsection \<open>\<open>generate_serializable_interface.hpp\<close>\<close>

definition generate_serializable_interface :: "indentation_level \<Rightarrow> string \<Rightarrow> interface_definition \<Rightarrow> writer" where
  "generate_serializable_interface indentation name interface =
     in_order
       [generate_interface indentation name interface,
        generate_type_eraser indentation name interface,
        generate_serialization_client indentation name interface,
        generate_serialization_server indentation name interface]"

definition headers :: string where
  "headers = concat
     [''//this file was generated by warpcoil\<newline>'',
      ''#pragma once\<newline>'',
      ''#include <warpcoil/cpp/begin_parse_value.hpp>\<newline>'',
      ''#include <warpcoil/cpp/client_pipeline.hpp>\<newline>'',
      ''#include <warpcoil/cpp/wrap_handler.hpp>\<newline>'',
      ''#include <warpcoil/cpp/utf8_parser.hpp>\<newline>'',
      ''#include <warpcoil/cpp/integer_parser.hpp>\<newline>'',
      ''#include <warpcoil/cpp/structure_parser.hpp>\<newline>'',
      ''#include <warpcoil/cpp/vector_parser.hpp>\<newline>'',
      ''#include <warpcoil/cpp/tuple_parser.hpp>\<newline>'',
      ''#include <warpcoil/cpp/variant_parser.hpp>\<newline>'',
      ''#include <warpcoil/cpp/write_integer.hpp>\<newline>'',
      ''#include <silicium/source/source.hpp>\<newline>'',
      ''#include <silicium/sink/iterator_sink.hpp>\<newline>'',
      ''#include <silicium/sink/append.hpp>\<newline>'',
      ''#include <silicium/variant.hpp>\<newline>'',
      ''#include <boost/asio/write.hpp>\<newline>'',
      ''#include <boost/range/algorithm/equal.hpp>\<newline>'',
      ''#include <tuple>\<newline>\<newline>'']"

subsection \<open>The request builder and its execution\<close>



subsection \<open>When the generator throws\<close>

lemma throws_if_generate_type [throws_intros]: "throws_if e False (generate_type Code t)"
  by (rule throws_if_writes) (rule generate_type_text)

lemma throws_if_value_serialization [throws_intros]:
  "throws_if e False (generate_value_serialization i snk x t err)"
  by (rule throws_if_writes) (rule writes_value_serialization [of _ _ "E_var x", unfolded expression_text.simps])

lemma throws_if_parameters [throws_intros]: "throws_if e False (generate_parameters ps)"
  unfolding generate_parameters_def by (rule throws_if_eq, (rule throws_intros)+) simp

lemma throws_if_request_builder:
  "throws_if name_too_long (length method_name > 255) (client_request_builder i method_name ps)"
proof -
  have check: "throws_if name_too_long (length method_name > 255)
      (if length method_name > 255 then throw name_too_long else in_order [])"
    by (simp add: throws_intros)
  show ?thesis
    unfolding client_request_builder_def by (rule throws_if_eq, (rule check throws_intros)+) simp
qed

lemma throws_if_client_method:
  "throws_if name_too_long (length method_name > 255) (client_method i method_name entry)"
proof -
  have unused: "throws_if name_too_long False (case parameters_emptiness (parameters entry) of
      Empty \<Rightarrow> in_order (map (\<lambda>p.
        start_line Code j [''static_cast<void>('', parameter_name p, '');\<newline>'']) (parameters entry))
    | Non_empty \<Rightarrow> in_order [])" for j
    by (cases "parameters_emptiness (parameters entry)")
      (simp_all add: throws_if_eq [OF throws_if_map [OF throws_if_basic(2)]] throws_if_basic)
  show ?thesis
    unfolding client_method_def
    by (rule throws_if_eq, (rule unused throws_if_request_builder throws_intros)+) simp
qed

lemma throws_if_client:
  "throws_if name_too_long (\<exists>(method_name, entry)\<in>set (methods interface). length method_name > 255)
     (generate_serialization_client i name interface)"
proof -
  have methods: "throws_if name_too_long (\<exists>(method_name, entry)\<in>set (methods interface). length method_name > 255)
      (in_order (map (\<lambda>(method_name, entry). client_method j method_name entry) (methods interface)))" for j
    by (rule throws_if_methods) (rule throws_if_client_method)
  show ?thesis
    unfolding generate_serialization_client_def by (rule throws_if_eq, (rule methods throws_intros)+) simp
qed

text \<open>Writers that never throw.\<close>

abbreviation "never_throws w \<equiv> throws_if name_too_long False w"

lemma never_throws_in_order:
  "(\<And>w. w \<in> set ws \<Longrightarrow> never_throws w) \<Longrightarrow> never_throws (in_order ws)"
proof (induction ws)
  case (Cons w ws)
  from throws_if_Cons [of _ False w False ws] Cons show ?case by simp
qed (rule throws_if_basic)

lemma never_throws_Cons: "never_throws w \<Longrightarrow> never_throws (in_order ws) \<Longrightarrow> never_throws (in_order (w # ws))"
  using throws_if_Cons [of _ False w False ws] by simp

lemma never_throws_map: "(\<And>x. x \<in> set xs \<Longrightarrow> never_throws (f x)) \<Longrightarrow> never_throws (in_order (map f xs))"
  by (rule never_throws_in_order) auto

lemma never_throws_methods:
  "(\<And>method_name entry. never_throws (f method_name entry)) \<Longrightarrow>
   never_throws (in_order (map (\<lambda>(method_name, entry). f method_name entry) ms))"
  by (rule never_throws_map) auto

lemmas never_throws_intros =
  throws_if_basic throws_if_generate_type never_throws_methods never_throws_map never_throws_Cons throws_if_block
  throws_if_value_serialization throws_if_parameters

lemma never_throws_interface: "never_throws (generate_interface i name interface)"
  unfolding generate_interface_def by (rule never_throws_intros)+

lemma never_throws_type_eraser: "never_throws (generate_type_eraser i name interface)"
  unfolding generate_type_eraser_def by (rule never_throws_intros)+

lemma never_throws_result_handler: "never_throws (server_result_handler i result)"
  unfolding server_result_handler_def
  by (cases "type_emptiness_of result"; simp only: type_emptiness.case) (rule never_throws_intros)+

lemma never_throws_server_method: "never_throws (server_method i method_name entry)"
  unfolding server_method_def move_arguments_text_def
  by (rule never_throws_result_handler never_throws_intros)+

lemma never_throws_dispatch: "w \<in> set (server_dispatch i first ms) \<Longrightarrow> never_throws w"
proof (induction i first ms rule: server_dispatch.induct)
  case (2 i first method_name entry ms)
  have head: "never_throws (if first then in_order [] else append_text Code ''else '')"
    by (simp add: throws_if_basic)
  have "never_throws (in_order
      [render Code i, if first then in_order [] else append_text Code ''else '',
       append_text Code (''if (boost::range::equal(std::get<1>(request.get()), Si::make_c_str_range('' @ [CHR 0x22]),
       append_text Code method_name, append_text Code (CHR 0x22 # '')))\<newline>''),
       block Code i (\<lambda>in_here. in_order
         [render Code in_here, append_text Code ''begin_receive_method_argument_of_'', append_text Code method_name,
          append_text Code ''(requests.lock_input(), std::get<0>(request.get()), std::forward<Handler>(handle_result));\<newline>''])
         ''\<newline>''])"
    by (rule head never_throws_intros)+
  with 2 show ?case by auto
qed simp

lemma never_throws_server: "never_throws (generate_serialization_server i name interface)"
  unfolding generate_serialization_server_def
  by (rule never_throws_intros never_throws_server_method never_throws_in_order [OF never_throws_dispatch] | assumption)+

lemma throws_if_generator:
  "throws_if name_too_long (\<exists>(method_name, entry)\<in>set (methods interface). length method_name > 255)
     (generate_serializable_interface i name interface)"
proof -
  have "throws_if name_too_long (False \<or> False \<or>
      (\<exists>(method_name, entry)\<in>set (methods interface). length method_name > 255) \<or> False \<or> False)
    (generate_serializable_interface i name interface)"
    unfolding generate_serializable_interface_def
    by (intro throws_if_Cons never_throws_interface never_throws_type_eraser throws_if_client
        never_throws_server throws_if_basic)
  then show ?thesis by simp
qed

text \<open>C23: The generator of an interface throws exactly when a method name is longer than the
  255 octets that its length octet can hold, and then \<open>std::invalid_argument\<close>; otherwise it
  writes all four classes.
\<close>

theorem generator_throws_iff_name_too_long:
  "generate_serializable_interface i name interface st = Inl e \<longleftrightarrow>
     e = Invalid_argument ''A method name cannot be longer than 255 bytes'' \<and>
     (\<exists>(method_name, entry)\<in>set (methods interface). length method_name > 255)"
  using throws_if_generator [of interface i name]
  unfolding throws_if_def name_too_long_def by (auto dest!: spec [of _ st] split: if_splits)

subsection \<open>Matching braces\<close>

definition interface_brace_free :: "string \<Rightarrow> interface_definition \<Rightarrow> bool" where
  "interface_brace_free name interface \<longleftrightarrow>
     brace_free name \<and>
     list_all (\<lambda>(method_name, entry).
       brace_free method_name \<and> names_brace_free (method_result entry) \<and>
       list_all (\<lambda>p. brace_free (parameter_name p) \<and> names_brace_free (parameter_type p)) (parameters entry))
       (methods interface)"

text \<open>A method all of whose names are free of braces.\<close>

definition method_brace_free :: "ident \<Rightarrow> method_definition \<Rightarrow> bool" where
  "method_brace_free method_name entry \<longleftrightarrow>
     brace_free method_name \<and> names_brace_free (method_result entry) \<and>
     (\<forall>p\<in>set (parameters entry). brace_free (parameter_name p) \<and> names_brace_free (parameter_type p))"

lemma interface_brace_free_iff:
  "interface_brace_free name interface \<longleftrightarrow>
     brace_free name \<and> (\<forall>(method_name, entry)\<in>set (methods interface). method_brace_free method_name entry)"
  by (auto simp: interface_brace_free_def method_brace_free_def list_all_iff)

lemma keeps_balance_methods [balance_intros]:
  "(\<And>method_name entry. (method_name, entry) \<in> set ms \<Longrightarrow> keeps_balance (f method_name entry)) \<Longrightarrow>
   keeps_balance (in_order (map (\<lambda>(method_name, entry). f method_name entry) ms))"
  by (rule keeps_balance_map) auto

lemma keeps_balance_parameters:
  "method_brace_free method_name entry \<Longrightarrow> keeps_balance (generate_parameters (parameters entry))"
  unfolding generate_parameters_def method_brace_free_def
  by (intro balance_intros keeps_balance_generate_type) (auto simp: balanced_literal)

lemma keeps_balance_interface:
  "interface_brace_free name interface \<Longrightarrow> keeps_balance (generate_interface i name interface)"
  unfolding generate_interface_def interface_brace_free_iff
  by (intro balance_intros keeps_balance_parameters keeps_balance_generate_type)
    (auto simp: balanced_literal method_brace_free_def)

lemma keeps_balance_type_eraser:
  "interface_brace_free name interface \<Longrightarrow> keeps_balance (generate_type_eraser i name interface)"
  unfolding generate_type_eraser_def interface_brace_free_iff
  by (intro balance_intros keeps_balance_parameters keeps_balance_generate_type)
    (auto simp: balanced_literal method_brace_free_def)

lemma keeps_balance_request_builder:
  "method_brace_free method_name entry \<Longrightarrow>
   keeps_balance (client_request_builder i method_name (parameters entry))"
  unfolding client_request_builder_def method_brace_free_def
  by (intro balance_intros keeps_balance_value_serialization)
    (auto simp: balanced_literal client_error_handling_def intro!: balance_intros)

lemma keeps_balance_client_method:
  "method_brace_free method_name entry \<Longrightarrow> keeps_balance (client_method i method_name entry)"
  unfolding client_method_def
  by (intro balance_intros keeps_balance_parameters keeps_balance_generate_type keeps_balance_request_builder)
    (auto simp: balanced_literal method_brace_free_def brace_free_parser_type
      split: type_emptiness.split intro!: balance_intros)

lemma keeps_balance_client:
  "interface_brace_free name interface \<Longrightarrow> keeps_balance (generate_serialization_client i name interface)"
  unfolding generate_serialization_client_def interface_brace_free_iff
  by (intro balance_intros keeps_balance_client_method) (auto simp: balanced_literal)

lemma keeps_balance_result_handler:
  "names_brace_free result \<Longrightarrow> keeps_balance (server_result_handler i result)"
  unfolding server_result_handler_def
  by (intro balance_intros)
    (auto simp: balanced_literal server_error_handling_def split: type_emptiness.split
      intro!: balance_intros keeps_balance_value_serialization)

lemma names_brace_free_parameter_type:
  "method_brace_free method_name entry \<Longrightarrow> names_brace_free (get_parameter_type (parameters entry))"
  by (auto simp: get_parameter_type_def clone_id method_brace_free_def list_all_iff)

lemma keeps_balance_server_method:
  assumes "method_brace_free method_name entry"
  shows "keeps_balance (server_method i method_name entry)"
  using assms names_brace_free_parameter_type [OF assms] unfolding server_method_def move_arguments_text_def
  by (intro balance_intros keeps_balance_generate_type keeps_balance_result_handler)
    (auto simp: balanced_literal method_brace_free_def brace_free_parser_type)

lemma keeps_balance_dispatch:
  "w \<in> set (server_dispatch i first ms) \<Longrightarrow> \<forall>(method_name, entry)\<in>set ms. brace_free method_name \<Longrightarrow> keeps_balance w"
  by (induction i first ms rule: server_dispatch.induct)
    (auto simp: balanced_literal intro!: balance_intros)

lemma keeps_balance_server:
  assumes "interface_brace_free name interface"
  shows "keeps_balance (generate_serialization_server i name interface)"
proof -
  have "keeps_balance (in_order (server_dispatch j first (methods interface)))" for j first
    using assms by (intro keeps_balance_in_order)
      (erule keeps_balance_dispatch, auto simp: interface_brace_free_iff method_brace_free_def)
  then show ?thesis
    using assms unfolding generate_serialization_server_def interface_brace_free_iff
    by (intro balance_intros keeps_balance_server_method) (auto simp: balanced_literal)
qed

text \<open>C38: If no name of an interface contains a brace, then in what the generator appends to the
  code, and to the shared code, the braces match.
\<close>

theorem generated_braces_match:
  assumes "interface_brace_free name interface"
    and "generate_serializable_interface i name interface st = Inr st'"
  shows "\<exists>code shared. code_text st' = code_text st @ code \<and> shared_text st' = shared_text st @ shared \<and>
    balanced code \<and> balanced shared"
proof -
  have "keeps_balance (generate_serializable_interface i name interface)"
    unfolding generate_serializable_interface_def
    by (intro balance_intros keeps_balance_interface keeps_balance_type_eraser keeps_balance_client
        keeps_balance_server assms(1))
  with assms(2) show ?thesis unfolding keeps_balance_def by blast
qed

lemma generated_braces_match_witness:
  "let interface = \<lparr>methods = [(''ping'', \<lparr>method_result = Structure [Element (Utf8 integer_default) ''echoed''],
       parameters = [\<lparr>parameter_name = ''x'', parameter_type = Variant [Integer integer_default, Tuple []]\<rparr>]\<rparr>)]\<rparr>
   in \<exists>st. generate_serializable_interface 0 ''pinger'' interface (generator_init 0) = Inr st \<and>
     balanced (code_text st) \<and> balanced (shared_text st)"
proof -
  define interface where "interface = \<lparr>methods = [(''ping'', \<lparr>method_result = Structure [Element (Utf8 integer_default) ''echoed''],
       parameters = [\<lparr>parameter_name = ''x'', parameter_type = Variant [Integer integer_default, Tuple []]\<rparr>]\<rparr>)]\<rparr>"
  obtain st where "generate_serializable_interface 0 ''pinger'' interface (generator_init 0) = Inr st"
    using throws_if_generator [of interface 0 "''pinger''"] by (auto simp: throws_if_def interface_def)
  moreover have "interface_brace_free ''pinger'' interface"
    by (simp add: interface_brace_free_def interface_def)
  ultimately show ?thesis
    using generated_braces_match [of "''pinger''" interface 0 "generator_init 0" st]
    by (auto simp: generator_init_def simp flip: interface_def)
qed

end
