(* ===== verification/Generator_Programs.thy ===== *)
theory Generator_Programs
  imports Cpp_Classes
begin

text \<open>
  The programs that generate code: \<open>warpcoil/update_generated_file.hpp\<close>, and the \<open>main\<close> functions
  of \<open>test_interfaces/generate.cpp\<close>, \<open>example/hello_interface.cpp\<close>,
  \<open>benchmarks/benchmark_interface.cpp\<close> and \<open>example_web_site/web_site_interface.cpp\<close>.
  The file system and the process of clang-format are those of the third-party library ventura: a
  record of functions on a world \<open>'w\<close>, with its error codes \<open>'e\<close>. A program also returns
  what it has written to output streams.
\<close>

datatype read_file_problem = Concurrent_write_detected | File_too_large_for_memory

datatype 'e read_file_result = File_content string | File_error 'e | File_problem read_file_problem

record ('w, 'e) ventura =
  read_file :: "string \<Rightarrow> 'w \<Rightarrow> 'e read_file_result"
  write_file :: "string \<Rightarrow> string \<Rightarrow> 'w \<Rightarrow> 'e option \<times> 'w"
  absolute_path_create :: "string \<Rightarrow> string option"
  run_process :: "string \<Rightarrow> string \<Rightarrow> string \<Rightarrow> 'w \<Rightarrow> ('e + int) \<times> string \<times> 'w"
    \<comment> \<open>executable, current path, what it reads; the exit code, what it writes\<close>
  print_error :: "'e \<Rightarrow> string"

datatype ostream = Cerr | Other_stream

type_synonym log_output = "(ostream \<times> string) list"

definition print_int :: "int \<Rightarrow> string" where
  "print_int i = (if i < 0 then ''-'' @ decimal (nat (- i)) else decimal (nat i))"

subsection \<open>\<open>update_generated_file.hpp\<close>\<close>

text \<open>The end of the first two alternatives of \<open>Si::visit\<close>.\<close>

definition write_new_content ::
  "('w, 'e) ventura \<Rightarrow> string \<Rightarrow> string \<Rightarrow> ostream \<Rightarrow> 'w \<Rightarrow> bool \<times> log_output \<times> 'w" where
  "write_new_content v file new_content log w =
     (case write_file v file new_content w of
        (Some error, w) \<Rightarrow>
          (False, [(log, ''Could not open '' @ file @ ''\<newline>'' @ print_error v error @ ''\<newline>'')], w)
      | (None, w) \<Rightarrow>
          (True, [(log, ''Wrote file '' @ file @ '' ('' @ decimal (length new_content) @ '' bytes)\<newline>'')], w))"

definition update_generated_file ::
  "('w, 'e) ventura \<Rightarrow> string \<Rightarrow> string \<Rightarrow> ostream \<Rightarrow> 'w \<Rightarrow> bool \<times> log_output \<times> 'w" where
  "update_generated_file v file new_content log w =
     (case read_file v file w of
        File_content old_content \<Rightarrow>
          if old_content = new_content
          then (True, [(log, file @ '' Generated file does not change\<newline>'')], w)
          else (case write_new_content v file new_content log w of
                  (result, output, w) \<Rightarrow>
                    (result, (log, file @ '' changed (was '' @ decimal (length old_content) @ '' bytes, should be '' @
                       decimal (length new_content) @ '' bytes)\<newline>'') # output, w))
      | File_error error \<Rightarrow>
          (case write_new_content v file new_content log w of
             (result, output, w) \<Rightarrow>
               (result, (log, ''Could not read '' @ file @ ''\<newline>Error code: '' @ print_error v error @ ''\<newline>'') # output, w))
      | File_problem Concurrent_write_detected \<Rightarrow>
          (False, [(log, ''Someone seems to have access '' @ file @ '' concurrently.\<newline>'')], w)
      | File_problem File_too_large_for_memory \<Rightarrow>
          (False, [(log, ''Could not be loaded into memory: '' @ file @ ''\<newline>'')], w))"

text \<open>The exit code, the output, and the world. The last call passes \<open>std::cerr\<close>, not \<open>log\<close>.\<close>

definition run_code_generator_command_line_tool ::
  "('w, 'e) ventura \<Rightarrow> string list \<Rightarrow> ostream \<Rightarrow> string \<Rightarrow> 'w \<Rightarrow> int \<times> log_output \<times> 'w" where
  "run_code_generator_command_line_tool v command_line_arguments log code w =
     (if length command_line_arguments < 2
      then (1, [(log, ''Requires output file name as the command line argument\<newline>'')], w)
      else
        let file = command_line_arguments ! 1;
            clang_format = (if length command_line_arguments \<ge> 3
              then absolute_path_create v (command_line_arguments ! 2) else None);
            clang_format_config_dir = (if length command_line_arguments \<ge> 4
              then absolute_path_create v (command_line_arguments ! 3) else None);
            update = (\<lambda>code output w.
              case update_generated_file v file code Cerr w of
                (result, output', w) \<Rightarrow> (if result then 0 else 1, output @ output', w))
        in (case clang_format of
             None \<Rightarrow> update code [] w
           | Some executable \<Rightarrow>
               (case clang_format_config_dir of
                  None \<Rightarrow> (1, [(log, file @ '': Command line argument for the clang-format config directory missing\<newline>'')], w)
                | Some current_path \<Rightarrow>
                    let output = [(log, file @ '' Formatting the code (originally '' @ decimal (length code) @ '' bytes)\<newline>'')]
                    in (case run_process v executable current_path code w of
                         (Inl error, formatted_code, w) \<Rightarrow>
                           (1, output @ [(log, file @ '': clang-format failed: '' @ print_error v error @ ''\<newline>'')], w)
                       | (Inr result, formatted_code, w) \<Rightarrow>
                           if result \<noteq> 0
                           then (1, output @
                             [(log, file @ '': clang-format failed with return code '' @ print_int result @ ''\<newline>'')], w)
                           else update formatted_code output w))))"

subsection \<open>The generators of the repository\<close>

text \<open>
  What the \<open>main\<close> functions do with a list of names and interfaces. Nothing catches an exception of
  the generator.
\<close>

definition generated_file :: "(string \<times> interface_definition) list \<Rightarrow> cpp_exception + string" where
  "generated_file interfaces =
     (case in_order (map (\<lambda>(name, interface). generate_serializable_interface 0 name interface) interfaces)
        (generator_init 0) of
        Inl e \<Rightarrow> Inl e
      | Inr st \<Rightarrow> Inr (headers @ shared_text st @ code_text st))"

definition generator_main ::
  "('w, 'e) ventura \<Rightarrow> (string \<times> interface_definition) list \<Rightarrow> string list \<Rightarrow> 'w \<Rightarrow>
    cpp_exception + int \<times> log_output \<times> 'w" where
  "generator_main v interfaces arguments w =
     (case generated_file interfaces of
        Inl e \<Rightarrow> Inl e
      | Inr code \<Rightarrow> Inr (run_code_generator_command_line_tool v arguments Cerr code w))"

definition test_interfaces :: "(string \<times> interface_definition) list" where
  "test_interfaces =
     [(''binary_integer_function'', declare_all
         [(''evaluate'', Integer integer_default,
             [(''argument'', Tuple [Integer integer_default, Integer integer_default])])]),
      (''test_interface'', declare_all
         [(''no_result_no_parameter'', Tuple [], [(''argument'', Tuple [])]),
          (''two_results'', Tuple [Integer integer_default, Integer integer_default],
             [(''argument'', Integer integer_default)]),
          (''two_parameters'', Integer integer_default,
             [(''argument'', Tuple [Integer integer_default, Integer integer_default])]),
          (''vectors'', Vector integer_default (Integer integer_default),
             [(''argument'', Vector integer_default (Integer integer_default))]),
          (''vectors_256'', Vector (Integer_range 0 255) (Integer integer_default),
             [(''argument'', Vector (Integer_range 0 255) (Integer integer_default))]),
          (''integer_sizes'', Vector (Integer_range 0 0xff) (Integer (Integer_range 0 0xffff)),
             [(''argument'', Tuple [Integer (Integer_range 0 0xff), Integer (Integer_range 0 0xffff),
                Integer (Integer_range 0 0xffffffff), Integer (Integer_range 0 0xffffffffffffffff)])]),
          (''utf8'', Utf8 (Integer_range 0 255), [(''argument'', Utf8 (Integer_range 0 255))]),
          (''atypical_int'', Integer (Integer_range 1 1000), [(''argument'', Integer (Integer_range 1 1000))]),
          (''real_multi_parameters'', Integer (Integer_range 0 255),
             [(''first'', Utf8 (Integer_range 0 255)), (''second'', Integer (Integer_range 0 0xffff))]),
          (''variant'', Variant [Integer (Integer_range 0 0xffff), Utf8 (Integer_range 0 255)],
             [(''argument'', Variant [Integer (Integer_range 1 0xffffffff), Utf8 (Integer_range 0 255)])]),
          (''structure'', Structure [Element (Integer (Integer_range 0 3)) ''member''],
             [(''argument'', Structure [])])]),
      (''directory'', declare_all
         [(''make_directory'', Tuple [], [(''path'', Utf8 (Integer_range 0 0xffff))]),
          (''remove'', Tuple [], [(''path'', Utf8 (Integer_range 0 0xffff))])]),
      (''reader'', declare_all
         [(''read'', Vector integer_default (Integer (Integer_range 0 255)), [])]),
      (''writer'', declare_all
         [(''write'', Tuple [], [(''element'', Vector integer_default (Integer (Integer_range 0 255)))])])]"

definition hello_interfaces :: "(string \<times> interface_definition) list" where
  "hello_interfaces =
     [(''hello_as_a_service'', declare_all
         [(''hello'', Utf8 (Integer_range 0 255), [(''name'', Utf8 (Integer_range 0 255))])])]"

definition create_benchmark_interface_a :: interface_definition where
  "create_benchmark_interface_a = declare_all
     [(''evaluate'', Integer integer_default,
         [(''argument'', Tuple [Integer integer_default, Integer integer_default])])]"

definition create_benchmark_interface_b :: interface_definition where
  "create_benchmark_interface_b = declare_all
     [(''evaluate'', Integer integer_default, [(''argument'', Utf8 (Integer_range 0 0xffffffff))])]"

definition benchmark_interfaces :: "(string \<times> interface_definition) list" where
  "benchmark_interfaces =
     [(''benchmark_service_a'', create_benchmark_interface_a),
      (''benchmark_service_b'', create_benchmark_interface_b)]"

definition create_publisher_interface :: interface_definition where
  "create_publisher_interface = declare_all
     [(''publish'', Tuple [], [(''message'', Utf8 (Integer_range 0 255))])]"

definition create_viewer_interface :: interface_definition where
  "create_viewer_interface = declare_all
     [(''display'', Tuple [], [(''message'', Utf8 (Integer_range 0 255))])]"

definition web_site_interfaces :: "(string \<times> interface_definition) list" where
  "web_site_interfaces =
     [(''publisher'', create_publisher_interface), (''viewer'', create_viewer_interface)]"

subsection \<open>What the programs leave behind\<close>

text \<open>What is documented of \<open>ventura::write_file\<close>: a file that was written without an error can be
  read, and has the content.\<close>

definition reads_back :: "('w, 'e) ventura \<Rightarrow> bool" where
  "reads_back v \<longleftrightarrow> (\<forall>file content w w'.
     write_file v file content w = (None, w') \<longrightarrow> read_file v file w' = File_content content)"

lemma update_generated_file_content:
  assumes "reads_back v" and "update_generated_file v file new_content log w = (True, output, w')"
  shows "read_file v file w' = File_content new_content"
  using assms
  by (auto simp: update_generated_file_def write_new_content_def reads_back_def
      split: read_file_result.splits read_file_problem.splits option.splits prod.splits if_splits)

lemma update_generated_file_unchanged:
  "read_file v file w = File_content new_content \<Longrightarrow> update_generated_file v file new_content log w =
    (True, [(log, file @ '' Generated file does not change\<newline>'')], w)"
  by (simp add: update_generated_file_def)

text \<open>The content that the tool writes, given the arguments after the name of the file.\<close>

definition content_to_write :: "('w, 'e) ventura \<Rightarrow> string list \<Rightarrow> string \<Rightarrow> 'w \<Rightarrow> string \<Rightarrow> bool" where
  "content_to_write v options code w content \<longleftrightarrow>
     (case options of
        [] \<Rightarrow> content = code
      | executable # options \<Rightarrow>
          (case absolute_path_create v executable of
             None \<Rightarrow> content = code
           | Some executable \<Rightarrow>
               (case options of
                  [] \<Rightarrow> False
                | current_path # _ \<Rightarrow>
                    (case absolute_path_create v current_path of
                       None \<Rightarrow> False
                     | Some current_path \<Rightarrow>
                         \<exists>w'. run_process v executable current_path code w = (Inr 0, content, w')))))"

text \<open>When the tool reports success, the file that its first argument names has the content: the
  generated code, or what clang-format has made of it with exit code 0. (A path of clang-format that
  is not absolute is ignored, and the code is not formatted.)\<close>

theorem tool_writes_the_code:
  assumes "reads_back v"
    and "run_code_generator_command_line_tool v arguments log code w = (0, output, w')"
  shows "\<exists>program file options content. arguments = program # file # options \<and>
    read_file v file w' = File_content content \<and> content_to_write v options code w content"
proof -
  from assms(2) obtain program target options where arguments: "arguments = program # target # options"
    by (cases arguments; cases "tl arguments") (auto simp: run_code_generator_command_line_tool_def)
  show ?thesis
    using assms(2) unfolding arguments
    by (cases options; cases "tl options")
      (auto simp: run_code_generator_command_line_tool_def content_to_write_def Let_def
        dest!: update_generated_file_content [OF assms(1)]
        split: option.splits prod.splits sum.splits if_splits)
qed

text \<open>Files in memory, and a clang-format that removes spaces.\<close>

definition memory_files :: "(string \<Rightarrow> string option, nat) ventura" where
  "memory_files =
     \<lparr>read_file = (\<lambda>file w. case w file of None \<Rightarrow> File_error 2 | Some content \<Rightarrow> File_content content),
      write_file = (\<lambda>file content w. (None, w(file \<mapsto> content))),
      absolute_path_create = (\<lambda>path. if take 1 path = ''/'' then Some path else None),
      run_process = (\<lambda>executable current_path code w. (Inr 0, filter (\<lambda>c. c \<noteq> CHR '' '') code, w)),
      print_error = (\<lambda>e. ''system:'' @ decimal e)\<rparr>"

lemma reads_back_memory_files: "reads_back memory_files"
  by (simp add: reads_back_def memory_files_def)

theorem tool_writes_the_code_witness:
  "\<exists>program file options content.
     [''generator'', ''x.hpp'', ''/clang-format'', ''/src''] = program # file # options \<and>
     read_file memory_files file [''x.hpp'' \<mapsto> ''int'', ''x.hpp'' \<mapsto> ''intx;''] = File_content content \<and>
     content_to_write memory_files options ''int x;'' [''x.hpp'' \<mapsto> ''int''] content"
proof -
  obtain messages where run: "run_code_generator_command_line_tool memory_files
      [''generator'', ''x.hpp'', ''/clang-format'', ''/src''] Cerr ''int x;'' [''x.hpp'' \<mapsto> ''int''] =
      (0, messages, [''x.hpp'' \<mapsto> ''int'', ''x.hpp'' \<mapsto> ''intx;''])"
    by (simp add: run_code_generator_command_line_tool_def memory_files_def update_generated_file_def
        write_new_content_def)
  from tool_writes_the_code [OF reads_back_memory_files run] show ?thesis .
qed

text \<open>The interfaces of the repository have no names that are too long or have braces in them.\<close>

abbreviation repository_interfaces :: "(string \<times> interface_definition) list list" where
  "repository_interfaces \<equiv> [test_interfaces, hello_interfaces, benchmark_interfaces, web_site_interfaces]"

abbreviation harmless_names :: "string \<Rightarrow> interface_definition \<Rightarrow> bool" where
  "harmless_names name interface \<equiv> interface_brace_free name interface \<and>
     list_all (\<lambda>(method_name, entry). length method_name \<le> 255) (methods interface)"

lemma repository_interfaces_harmless:
  "list_all (list_all (\<lambda>(name, interface). harmless_names name interface)) repository_interfaces"
  by code_simp

lemma generate_harmless:
  assumes "list_all (\<lambda>(name, interface). harmless_names name interface) interfaces"
  shows "\<exists>shared code. generated_file interfaces = Inr (headers @ shared @ code) \<and> balanced shared \<and> balanced code"
proof -
  let ?generate = "\<lambda>(name, interface). generate_serializable_interface 0 name interface"
  have "throws_if name_too_long False (?generate ni)" if "ni \<in> set interfaces" for ni
  proof -
    from assms that have "list_all (\<lambda>(method_name, entry). length method_name \<le> 255) (methods (snd ni))"
      by (cases ni) (auto simp: list_all_iff)
    then have "\<not> (\<exists>(method_name, entry)\<in>set (methods (snd ni)). length method_name > 255)"
      by (fastforce simp: list_all_iff)
    with throws_if_generator [of "snd ni" 0 "fst ni"] show ?thesis by (simp add: split_beta)
  qed
  then have "never_throws (in_order (map ?generate interfaces))" by (rule never_throws_map)
  then obtain st where st: "in_order (map ?generate interfaces) (generator_init 0) = Inr st"
    by (auto simp: throws_if_def)
  have "keeps_balance (in_order (map ?generate interfaces))"
    using assms by (intro keeps_balance_in_order)
      (auto simp: list_all_iff generate_serializable_interface_def
        intro!: balance_intros keeps_balance_interface keeps_balance_type_eraser keeps_balance_client
          keeps_balance_server)
  with st have "balanced (shared_text st)" "balanced (code_text st)"
    unfolding keeps_balance_def by (fastforce simp: generator_init_def)+
  with st show ?thesis by (auto simp: generated_file_def)
qed



end
