(* ===== verification/Js_Generator.thy ===== *)
theory Js_Generator
  imports Cpp_Writer
begin

text \<open>
  The JavaScript generator (\<open>warpcoil/javascript.hpp\<close>): writers, as in \<open>Cpp_Writer\<close>, of the text of
  the common library, of the parsers and the serialisation of values, of the receiver of messages
  and of the client of an interface. It has no shared code: all writers append to the sink
  \<open>code\<close>. Types with a variant or a vector in them throw \<open>std::logic_error\<close>, except for the size of
  a vector.
\<close>

abbreviation js_quote :: string where
  "js_quote \<equiv> [CHR 0x22]"

definition js_todo :: cpp_exception where
  "js_todo = Logic_error ''todo''"

subsection \<open>Integers\<close>

definition find_number_of_bytes_required :: "u64 \<Rightarrow> nat" where
  "find_number_of_bytes_required max_value =
     (if max_value < 0x100 then 1
      else if max_value < 0x10000 then 2
      else if max_value < 0x100000000 then 4
      else 8)"

definition generate_integer_parser :: "indentation_level \<Rightarrow> nat \<Rightarrow> writer" where
  "generate_integer_parser indentation number_of_bytes =
     (let return_64_bit = (number_of_bytes > 4)
      in in_order
       [if return_64_bit
        then append_text Code ''function (minimum_high, minimum_low, maximum_high, maximum_low)\<newline>''
        else append_text Code ''function (minimum, maximum)\<newline>'',
        block Code indentation (\<lambda>in_function. in_order
          [if return_64_bit
           then in_order
             [start_line Code in_function [''var result_high = 0;\<newline>''],
              start_line Code in_function [''var result_low = 0;\<newline>'']]
           else start_line Code in_function [''var result = 0;\<newline>''],
           start_line Code in_function [''var parsed = 0;\<newline>''],
           start_line Code in_function [''return function (input)\<newline>''],
           block Code in_function (\<lambda>in_result. in_order
             [if return_64_bit
              then in_order
                [start_line Code in_result [''if (parsed < 4)\<newline>''],
                 block Code in_result (\<lambda>in_if. in_order
                   [start_line Code in_if [''result_high <<= 8;\<newline>''],
                    start_line Code in_if [''result_high |= input;\<newline>'']]) ''\<newline>'',
                 start_line Code in_result [''else\<newline>''],
                 block Code in_result (\<lambda>in_else. in_order
                   [start_line Code in_else [''result_low <<= 8;\<newline>''],
                    start_line Code in_else [''result_low |= input;\<newline>'']]) ''\<newline>'']
              else in_order
                [if number_of_bytes > 1 then start_line Code in_result [''result <<= 8;\<newline>''] else in_order [],
                 start_line Code in_result [''result |= input;\<newline>'']],
              start_line Code in_result [''++parsed;\<newline>''],
              start_line Code in_result [''if (parsed === '', decimal number_of_bytes, '')\<newline>''],
              block Code in_result (\<lambda>in_if.
                if return_64_bit
                then start_line Code in_if [''return {high: result_high, low: result_low};\<newline>'']
                else in_order
                  [start_line Code in_if [''if ((result < minimum) || (result > maximum))\<newline>''],
                   block Code in_if (\<lambda>in_check.
                     start_line Code in_check
                       [''throw new Error('' @ js_quote @ ''received integer out of range'' @ js_quote @ '');\<newline>''])
                     ''\<newline>'',
                   start_line Code in_if [''return result;\<newline>'']]) ''\<newline>'',
              start_line Code in_result [''return undefined;\<newline>'']]) '';\<newline>'']) []])"

subsection \<open>Responses\<close>

definition generate_response_parsing :: "indentation_level \<Rightarrow> string \<Rightarrow> writer" where
  "generate_response_parsing indentation common_library =
     in_order
       [start_line Code indentation
          [''var request_id_parser = '', common_library, ''.parse_int_8(0, 0, 0xffffffff, 0xffffffff);\<newline>''],
        start_line Code indentation [''state = function (input)\<newline>''],
        block Code indentation (\<lambda>in_state. in_order
          [start_line Code in_state [''var status = request_id_parser(input);\<newline>''],
           start_line Code in_state [''if (status === undefined)\<newline>''],
           block Code in_state (\<lambda>in_if. start_line Code in_if [''return;\<newline>'']) ''\<newline>'',
           start_line Code in_state [''var key = JSON.stringify(status);\<newline>''],
           start_line Code in_state [''var pending_request = pending_requests[key];\<newline>''],
           start_line Code in_state [''if (pending_request === undefined)\<newline>''],
           block Code in_state (\<lambda>in_if.
             start_line Code in_if
               [''throw new Error('' @ js_quote @ ''Unexpected response: '' @ js_quote @ '' + key);\<newline>'']) ''\<newline>'',
           start_line Code in_state [''delete pending_requests[key];\<newline>''],
           start_line Code in_state [''var argument_parser = pending_request.argument_parser;\<newline>''],
           start_line Code in_state [''if (argument_parser === undefined)\<newline>''],
           block Code in_state (\<lambda>in_if. in_order
             [start_line Code in_if [''state = initial_state;\<newline>''],
              start_line Code in_if [''pending_request.on_result(undefined, []);\<newline>''],
              start_line Code in_if [''return;\<newline>'']]) ''\<newline>'',
           start_line Code in_state [''state = function (input)\<newline>''],
           block Code in_state (\<lambda>in_state. in_order
             [start_line Code in_state [''var parsed = argument_parser(input);\<newline>''],
              start_line Code in_state [''if (parsed !== undefined)\<newline>''],
              block Code in_state (\<lambda>in_if. in_order
                [start_line Code in_if [''state = initial_state;\<newline>''],
                 start_line Code in_if [''pending_request.on_result(undefined, parsed);\<newline>''],
                 start_line Code in_if [''return;\<newline>'']]) ''\<newline>'']) ''\<newline>'']) '';\<newline>'']"

subsection \<open>Parsers of values\<close>

text \<open>The creation of the parser of an integer.\<close>

definition generate_integer_parser_creation :: "integer_range \<Rightarrow> string \<Rightarrow> writer" where
  "generate_integer_parser_creation r library =
     in_order
       [append_text Code library,
        (let bytes = find_number_of_bytes_required (maximum r)
         in if bytes = 8
            then in_order
              [append_text Code ''.parse_int_8('',
               append_text Code (decimal (unat (drop_bit 32 (minimum r)))),
               append_text Code '', '',
               append_text Code (decimal (unat (and (minimum r) 0xffffffff))),
               append_text Code '', '',
               append_text Code (decimal (unat (drop_bit 32 (maximum r)))),
               append_text Code '', '',
               append_text Code (decimal (unat (and (maximum r) 0xffffffff)))]
            else in_order
              [append_text Code
                 (if bytes = 1 then ''.parse_int_1('' else if bytes = 2 then ''.parse_int_2('' else ''.parse_int_4(''),
               append_text Code (decimal (unat (minimum r))),
               append_text Code '', '',
               append_text Code (decimal (unat (maximum r)))]),
        append_text Code '')'']"

text \<open>
  The part that tuples and structures have in common: the cases of the switch over the number of
  elements that have been parsed. \<open>store\<close> writes the lines that keep the parsed element,
  \<open>next\<close> the creation of the parser of the element after it.
\<close>

definition generate_element_case ::
  "indentation_level \<Rightarrow> nat \<Rightarrow> nat \<Rightarrow> (indentation_level \<Rightarrow> writer) \<Rightarrow> string \<Rightarrow>
    (indentation_level \<Rightarrow> writer) \<Rightarrow> writer" where
  "generate_element_case in_switch n i store result next_parser =
     in_order
       [start_line Code in_switch [''case '', decimal i, '':\<newline>''],
        block Code in_switch (\<lambda>in_case. in_order
          [start_line Code in_case [''var status = current_parser(input);\<newline>''],
           start_line Code in_case [''if (status === undefined)\<newline>''],
           block Code in_case (\<lambda>in_if. start_line Code in_if [''return undefined;\<newline>'']) ''\<newline>'',
           store in_case,
           if i = n - 1
           then start_line Code in_case [''return '', result, '';\<newline>'']
           else in_order
             [start_line Code in_case [''current_parser = ''],
              next_parser in_case,
              append_text Code '';\<newline>'',
              start_line Code in_case [''break;\<newline>'']]]) ''\<newline>'']"

text \<open>The parser of a string, after the creation of the parser of its length.\<close>

definition generate_utf8_parser :: "indentation_level \<Rightarrow> (indentation_level \<Rightarrow> writer) \<Rightarrow> writer" where
  "generate_utf8_parser indentation length_parser =
     in_order
       [append_text Code ''function ()\<newline>'',
        block Code indentation (\<lambda>in_function. in_order
          [start_line Code in_function [''var length = ''],
           length_parser in_function,
           append_text Code '';\<newline>'',
           start_line Code in_function [''var content;\<newline>''],
           start_line Code in_function [''var received_content = 0;\<newline>''],
           start_line Code in_function [''return function (input)\<newline>''],
           block Code in_function (\<lambda>in_function_2. in_order
             [start_line Code in_function_2 [''if (content === undefined)\<newline>''],
              block Code in_function_2 (\<lambda>in_if. in_order
                [start_line Code in_if [''var status = length(input);\<newline>''],
                 start_line Code in_if [''if (status === undefined) { return; }\<newline>''],
                 start_line Code in_if [''content = new ArrayBuffer(status);\<newline>'']]) ''\<newline>'',
              start_line Code in_function_2 [''else\<newline>''],
              block Code in_function_2 (\<lambda>in_else. in_order
                [start_line Code in_else [''new Uint8Array(content)[received_content] = input;\<newline>''],
                 start_line Code in_else [''++received_content;\<newline>''],
                 start_line Code in_else [''if (received_content !== content.byteLength) { return; }\<newline>''],
                 start_line Code in_else [''var result = '' @ js_quote @ js_quote @ '';\<newline>''],
                 start_line Code in_else
                   [''for (var i = 0; i < content.byteLength; ++i) { result += String.fromCharCode(new Uint8Array(content)[i]); }\<newline>''],
                 start_line Code in_else [''return result;\<newline>'']]) ''\<newline>'']) '';\<newline>'']) ''()'']"

function generate_parser_creation :: "indentation_level \<Rightarrow> wire_type \<Rightarrow> string \<Rightarrow> writer" where
  "generate_parser_creation indentation (Integer r) library = generate_integer_parser_creation r library"
| "generate_parser_creation indentation (Variant elements) library = throw js_todo"
| "generate_parser_creation indentation (Tuple elements) library =
     (if elements = [] then append_text Code ''undefined''
      else in_order
        [append_text Code ''function ()\<newline>'',
         block Code indentation (\<lambda>in_function. in_order
           [start_line Code in_function [''var elements = [];\<newline>''],
            start_line Code in_function [''var current_parser = ''],
            generate_parser_creation in_function (elements ! 0) library,
            append_text Code '';\<newline>'',
            start_line Code in_function [''return function (input)\<newline>''],
            block Code in_function (\<lambda>in_function_2. in_order
              [start_line Code in_function_2 [''switch (elements.length)\<newline>''],
               block Code in_function_2 (\<lambda>in_switch.
                 in_order (map (\<lambda>i.
                   generate_element_case in_switch (length elements) i
                     (\<lambda>in_case. start_line Code in_case [''elements.push(status);\<newline>'']) ''elements''
                     (if i = length elements - 1 then (\<lambda>in_case. in_order [])
                      else (\<lambda>in_case. generate_parser_creation in_case (elements ! (i + 1)) library)))
                   [0..<length elements])) ''\<newline>'']) '';\<newline>'']) ''()''])"
| "generate_parser_creation indentation (Vector len element) library = throw js_todo"
| "generate_parser_creation indentation (Utf8 code_units) library =
     generate_utf8_parser indentation (\<lambda>in_function. generate_parser_creation in_function (Integer code_units) library)"
| "generate_parser_creation indentation (Structure elements) library =
     (if elements = [] then append_text Code ''undefined''
      else in_order
        [append_text Code ''function ()\<newline>'',
         block Code indentation (\<lambda>in_function. in_order
           [start_line Code in_function [''var result = {};\<newline>''],
            start_line Code in_function [''var members_parsed = 0;\<newline>''],
            start_line Code in_function [''var current_parser = ''],
            generate_parser_creation in_function (what (elements ! 0)) library,
            append_text Code '';\<newline>'',
            start_line Code in_function [''return function (input)\<newline>''],
            block Code in_function (\<lambda>in_function_2. in_order
              [start_line Code in_function_2 [''switch (members_parsed)\<newline>''],
               block Code in_function_2 (\<lambda>in_switch.
                 in_order (map (\<lambda>i.
                   generate_element_case in_switch (length elements) i
                     (\<lambda>in_case. in_order
                       [start_line Code in_case [''result.'', element_name (elements ! i), '' = status;\<newline>''],
                        start_line Code in_case [''++members_parsed;\<newline>'']]) ''result''
                     (if i = length elements - 1 then (\<lambda>in_case. in_order [])
                      else (\<lambda>in_case. generate_parser_creation in_case (what (elements ! (i + 1))) library)))
                   [0..<length elements])) ''\<newline>'']) '';\<newline>'']) ''()''])"
  by pat_completeness auto
termination
proof (relation "measure (\<lambda>(indentation, t, library). 2 * size t + (case t of Integer r \<Rightarrow> 0 | _ \<Rightarrow> 1))", goal_cases)
  case (2 indentation elements library in_function)
  then show ?case using list_element_size [OF nth_mem [of 0 elements]] by (auto split: wire_type.split)
next
  case (3 indentation elements library in_function in_function_2 in_switch i in_case)
  then show ?case using list_element_size [OF nth_mem [of "i + 1" elements]] by (auto split: wire_type.split)
next
  case (5 indentation elements library in_function)
  then show ?case
    using structure_element_size [OF nth_mem [of 0 elements]] by (auto split: wire_type.split)
next
  case (6 indentation elements library in_function in_function_2 in_switch i in_case)
  then show ?case
    using structure_element_size [OF nth_mem [of "i + 1" elements]] by (auto split: wire_type.split)
qed auto

declare generate_parser_creation.simps [simp del]

subsection \<open>Sizes and serialisation of values\<close>

function generate_size_of_value :: "wire_type \<Rightarrow> string \<Rightarrow> string \<Rightarrow> writer" where
  "generate_size_of_value (Integer r) val library =
     append_text Code (decimal (find_number_of_bytes_required (maximum r)))"
| "generate_size_of_value (Variant elements) val library = throw js_todo"
| "generate_size_of_value (Tuple elements) val library =
     in_order
       [append_text Code ''(0'',
        in_order (map (\<lambda>(i, element). in_order
          [append_text Code '' + '',
           generate_size_of_value element (val @ ''['' @ decimal i @ '']'') library])
          (zip [0..<length elements] elements)),
        append_text Code '')'']"
| "generate_size_of_value (Vector len element) val library =
     in_order
       [append_text Code ''('',
        append_text Code (decimal (find_number_of_bytes_required (maximum len))),
        append_text Code '' + '',
        append_text Code val,
        append_text Code ''.reduce(function (previous, next) { return previous + next; }, 0))'']"
| "generate_size_of_value (Utf8 code_units) val library =
     in_order
       [append_text Code ''('',
        append_text Code (decimal (find_number_of_bytes_required (maximum code_units))),
        append_text Code '' + '',
        append_text Code library,
        append_text Code ''.to_utf8('',
        append_text Code val,
        append_text Code '').byteLength)'']"
| "generate_size_of_value (Structure elements) val library =
     in_order
       [append_text Code ''(0'',
        in_order (map (\<lambda>e. in_order
          [append_text Code '' + '',
           generate_size_of_value (what e) (val @ ''.'' @ element_name e) library]) elements),
        append_text Code '')'']"
  by pat_completeness auto
termination
  by (relation "measure (\<lambda>(t, val, library). size t)")
    (auto simp: list_element_size structure_element_size dest: set_zip_rightD)

declare generate_size_of_value.simps [simp del]

definition generate_integer_serialization ::
  "indentation_level \<Rightarrow> integer_range \<Rightarrow> string \<Rightarrow> string \<Rightarrow> string \<Rightarrow> writer" where
  "generate_integer_serialization indentation r val destination offset =
     (let bytes = find_number_of_bytes_required (maximum r)
      in if bytes = 8
         then in_order
           [start_line Code indentation
              [''new DataView('', destination, '').setUint32('', offset, '', '', val, ''.high);\<newline>''],
            start_line Code indentation
              [''new DataView('', destination, '').setUint32('', offset, '' + 4, '', val, ''.low);\<newline>'']]
         else start_line Code indentation
           [''new DataView('', destination,
            if bytes = 1 then '').setUint8('' else if bytes = 2 then '').setUint16('' else '').setUint32('',
            offset, '', '', val, '');\<newline>''])"

function generate_serialization ::
  "indentation_level \<Rightarrow> wire_type \<Rightarrow> string \<Rightarrow> string \<Rightarrow> string \<Rightarrow> string \<Rightarrow> writer" where
  "generate_serialization indentation (Integer r) val destination offset library =
     generate_integer_serialization indentation r val destination offset"
| "generate_serialization indentation (Variant elements) val destination offset library = throw js_todo"
| "generate_serialization indentation (Tuple elements) val destination offset library =
     (if elements = [] then in_order []
      else in_order
        [start_line Code indentation [''(function ()\<newline>''],
         block Code indentation (\<lambda>in_function. in_order
           [start_line Code in_function [''var offset = '', offset, '';\<newline>''],
            in_order (map (\<lambda>(i, element). in_order
              [generate_serialization indentation element (val @ ''['' @ decimal i @ '']'') destination ''offset'' library,
               start_line Code in_function [''offset += ''],
               generate_size_of_value element (val @ ''['' @ decimal i @ '']'') library,
               append_text Code '';\<newline>'']) (zip [0..<length elements] elements))]) '')();\<newline>''])"
| "generate_serialization indentation (Vector len element) val destination offset library = throw js_todo"
| "generate_serialization indentation (Utf8 code_units) val destination offset library =
     in_order
       [generate_serialization indentation (Integer code_units) (val @ ''.length'') destination offset library,
        start_line Code indentation
          [''new Uint8Array('', destination, '').set(new Uint8Array('', library, ''.to_utf8('', val, '')), '',
           ''('' @ decimal (find_number_of_bytes_required (maximum code_units)) @ '' + '' @ offset @ '')'', '');\<newline>'']]"
| "generate_serialization indentation (Structure elements) val destination offset library =
     (if elements = [] then in_order []
      else in_order
        [start_line Code indentation [''(function ()\<newline>''],
         block Code indentation (\<lambda>in_function. in_order
           [start_line Code in_function [''var offset = '', offset, '';\<newline>''],
            in_order (map (\<lambda>e. in_order
              [generate_serialization indentation (what e) (val @ ''.'' @ element_name e) destination ''offset'' library,
               start_line Code in_function [''offset += ''],
               generate_size_of_value (what e) (val @ ''.'' @ element_name e) library,
               append_text Code '';\<newline>'']) elements)]) '')();\<newline>''])"
  by pat_completeness auto
termination
  by (relation "measure (\<lambda>(indentation, t, val, destination, offset, library).
      2 * size t + (case t of Integer r \<Rightarrow> 0 | _ \<Rightarrow> 1))")
    (auto split: wire_type.split dest!: set_zip_rightD list_element_size [where ?'a = wire_type] structure_element_size)

declare generate_serialization.simps [simp del]

subsection \<open>Requests\<close>

text \<open>The callback with which an implementation of a method answers a request.\<close>

definition generate_response_callback :: "indentation_level \<Rightarrow> wire_type \<Rightarrow> string \<Rightarrow> writer" where
  "generate_response_callback in_function result common_library =
     block Code in_function (\<lambda>in_callback. in_order
       [start_line Code in_callback [''var response_size = 1 + 8 + ''],
        generate_size_of_value result ''result'' common_library,
        append_text Code '';\<newline>'',
        start_line Code in_callback [''var response_buffer = new ArrayBuffer(response_size);\<newline>''],
        generate_serialization in_callback (Integer (Integer_range 0 255)) ''1'' ''response_buffer'' ''0'' common_library,
        generate_serialization in_callback (Integer (Integer_range 0 0xffffffffffffffff)) ''request_id''
          ''response_buffer'' ''1'' common_library,
        generate_serialization in_callback result ''result'' ''response_buffer'' ''(1 + 8)'' common_library,
        start_line Code in_callback [''send_bytes(response_buffer);\<newline>'']]) []"

text \<open>The statement that handles the name of one method.\<close>

definition generate_method_parsing :: "indentation_level \<Rightarrow> ident \<Rightarrow> method_definition \<Rightarrow> string \<Rightarrow> writer" where
  "generate_method_parsing in_if method_name entry common_library =
     in_order
       [start_line Code in_if [''if (status === '' @ js_quote, method_name, js_quote @ '')\<newline>''],
        block Code in_if (\<lambda>in_if_2. in_order
          [start_line Code in_if_2 [''var parameters = ''],
           generate_parser_creation in_if_2 (Tuple (map (\<lambda>p. clone (parameter_type p)) (parameters entry))) common_library,
           append_text Code '';\<newline>'',
           start_line Code in_if_2 [''state = function (input)\<newline>''],
           block Code in_if_2 (\<lambda>in_function. in_order
             [start_line Code in_function [''var status = parameters(input);\<newline>''],
              start_line Code in_function [''if (status === undefined) { return undefined; }\<newline>''],
              start_line Code in_function [''state = initial_state;\<newline>''],
              start_line Code in_function [''server_implementation.'', method_name, ''(''],
              in_order (comma_separated Code True
                (map (\<lambda>i. in_order
                   [append_text Code ''status['',
                    append_text Code (decimal i),
                    append_text Code '']'']) [0..<length (parameters entry)] @
                 [append_text Code ''function (result)\<newline>''])),
              generate_response_callback in_function (method_result entry) common_library,
              append_text Code '');\<newline>'']) '';\<newline>'',
           start_line Code in_if_2 [''return;\<newline>'']]) ''\<newline>'']"

definition generate_request_parsing :: "indentation_level \<Rightarrow> interface_definition \<Rightarrow> string \<Rightarrow> writer" where
  "generate_request_parsing indentation interface common_library =
     in_order
       [start_line Code indentation
          [''var request_id_parser = '', common_library, ''.parse_int_8(0, 0, 0xffffffff, 0xffffffff);\<newline>''],
        start_line Code indentation [''state = function (input)\<newline>''],
        block Code indentation (\<lambda>in_state. in_order
          [start_line Code in_state [''var status = request_id_parser(input);\<newline>''],
           start_line Code in_state [''if (status === undefined)\<newline>''],
           block Code in_state (\<lambda>in_if. start_line Code in_if [''return;\<newline>'']) ''\<newline>'',
           start_line Code in_state [''var request_id = status;\<newline>''],
           start_line Code in_state [''var method_name_parser = ''],
           generate_parser_creation in_state (Utf8 (Integer_range 0 255)) common_library,
           append_text Code '';\<newline>'',
           start_line Code in_state [''state = function (input)\<newline>''],
           block Code in_state (\<lambda>in_if. in_order
             [start_line Code in_if [''var status = method_name_parser(input);\<newline>''],
              start_line Code in_if [''if (status === undefined)\<newline>''],
              block Code in_if (\<lambda>in_if_2. start_line Code in_if_2 [''return;\<newline>'']) ''\<newline>'',
              in_order (map (\<lambda>(method_name, entry). generate_method_parsing in_if method_name entry common_library)
                (methods interface)),
              start_line Code in_if
                [''throw new Error('' @ js_quote @ ''unknown method: '' @ js_quote @ '' + status);\<newline>'']]) '';\<newline>'']) '';\<newline>'']"

definition generate_input_receiver :: "indentation_level \<Rightarrow> interface_definition \<Rightarrow> string \<Rightarrow> writer" where
  "generate_input_receiver indentation interface common_library =
     in_order
       [start_line Code indentation [''function (pending_requests, server_implementation, send_bytes)\<newline>''],
        block Code indentation (\<lambda>in_function. in_order
          [start_line Code in_function [''var state;\<newline>''],
           start_line Code in_function [''var initial_state = function (input)\<newline>''],
           block Code in_function (\<lambda>in_first_state. in_order
             [start_line Code in_first_state [''if (input === 0)\<newline>''],
              block Code in_first_state (\<lambda>in_if. generate_request_parsing in_if interface common_library) ''\<newline>'',
              start_line Code in_first_state [''else if (input === 1)\<newline>''],
              block Code in_first_state (\<lambda>in_if. generate_response_parsing in_if common_library) ''\<newline>'',
              start_line Code in_first_state [''else\<newline>''],
              block Code in_first_state (\<lambda>in_else.
                start_line Code in_else
                  [''throw new Error('' @ js_quote @ ''unknown message type'' @ js_quote @ '');\<newline>'']) ''\<newline>'']) '';\<newline>'',
           start_line Code in_function [''state = initial_state;\<newline>''],
           start_line Code in_function [''return function (input)\<newline>''],
           block Code in_function (\<lambda>in_parse.
             start_line Code in_parse [common_library, ''.assert(undefined === state(input));\<newline>'']) '';\<newline>'']) []]"

subsection \<open>The client\<close>

definition generate_client_method :: "indentation_level \<Rightarrow> ident \<Rightarrow> method_definition \<Rightarrow> string \<Rightarrow> writer" where
  "generate_client_method in_result method_name entry library =
     (let ps = parameters entry;
          name_type = Utf8 (Integer_range 0 255);
          method_name_literal = js_quote @ method_name @ js_quote
      in in_order
       [start_line Code in_result [method_name, '': function (''],
        in_order (map (\<lambda>p. in_order
          [append_text Code (parameter_name p),
           append_text Code '', '']) ps),
        append_text Code ''on_result)\<newline>'',
        block Code in_result (\<lambda>in_method. in_order
          [start_line Code in_method [''var request_size = 1 + 8 + 1 + '', decimal (length method_name)],
           in_order (map (\<lambda>p. in_order
             [append_text Code '' + '',
              generate_size_of_value (parameter_type p) (parameter_name p) library]) ps),
           append_text Code '';\<newline>'',
           start_line Code in_method [''var request_buffer = new ArrayBuffer(request_size);\<newline>''],
           generate_serialization in_method (Integer (Integer_range 0 255)) ''0'' ''request_buffer'' ''0'' library,
           start_line Code in_method [''var request_id = {high: 0, low: next_request_id};\<newline>''],
           start_line Code in_method [''++next_request_id;\<newline>''],
           generate_serialization in_method (Integer (Integer_range 0 0xffffffffffffffff)) ''request_id''
             ''request_buffer'' ''1'' library,
           start_line Code in_method [''var write_pointer = 1 + 8;\<newline>''],
           generate_serialization in_method name_type method_name_literal ''request_buffer'' ''write_pointer'' library,
           if ps \<noteq> []
           then in_order
             [start_line Code in_method [''write_pointer += ''],
              generate_size_of_value name_type method_name_literal library,
              append_text Code '';\<newline>'']
           else in_order [],
           in_order (map (\<lambda>(k, p). in_order
             [generate_serialization in_method (parameter_type p) (parameter_name p) ''request_buffer''
                ''write_pointer'' library,
              if k \<noteq> length ps - 1
              then in_order
                [start_line Code in_method [''write_pointer += ''],
                 generate_size_of_value (parameter_type p) (parameter_name p) library,
                 append_text Code '';\<newline>'']
              else in_order []]) (zip [0..<length ps] ps)),
           start_line Code in_method [''send_bytes(request_buffer);\<newline>''],
           start_line Code in_method [''var key = JSON.stringify(request_id);\<newline>''],
           start_line Code in_method [''pending_requests[key] = {argument_parser: ''],
           generate_parser_creation in_method (method_result entry) library,
           append_text Code '', on_result: on_result};\<newline>'']) []])"

definition generate_client :: "indentation_level \<Rightarrow> interface_definition \<Rightarrow> string \<Rightarrow> writer" where
  "generate_client indentation interface library =
     in_order
       [start_line Code indentation [''function (pending_requests, send_bytes)\<newline>''],
        block Code indentation (\<lambda>in_function. in_order
          [start_line Code in_function [''var next_request_id = 0;\<newline>''],
           start_line Code in_function [''return ''],
           continuation_block Code in_function (\<lambda>in_result.
             in_order (map (\<lambda>(i, method_name, entry). in_order
               [generate_client_method in_result method_name entry library,
                if i + 1 \<noteq> length (methods interface) then append_text Code '','' else in_order [],
                append_text Code ''\<newline>''])
               (zip [0..<length (methods interface)] (methods interface)))) '';\<newline>'']) []]"

subsection \<open>The common library\<close>

definition generate_common_library :: "indentation_level \<Rightarrow> writer" where
  "generate_common_library indentation =
     (let in_object = deeper indentation
      in in_order
       [append_text Code ''{\<newline>'',
        start_line Code in_object [''to_utf8: function (string)\<newline>''],
        block Code in_object (\<lambda>in_function. in_order
          [start_line Code in_function [''var buffer = new ArrayBuffer(string.length);\<newline>''],
           start_line Code in_function [''var view = new DataView(buffer);\<newline>''],
           start_line Code in_function [''for (var i = 0, c = string.length; i < c; ++i)\<newline>''],
           block Code in_function (\<lambda>in_for.
             start_line Code in_for [''view.setUint8(i, string.charCodeAt(i));\<newline>'']) ''\<newline>'',
           start_line Code in_function [''return buffer;\<newline>'']]) '',\<newline>'',
        start_line Code in_object [''parse_int_1: ''],
        generate_integer_parser in_object 1,
        append_text Code '',\<newline>'',
        start_line Code in_object [''parse_int_2: ''],
        generate_integer_parser in_object 2,
        append_text Code '',\<newline>'',
        start_line Code in_object [''parse_int_4: ''],
        generate_integer_parser in_object 4,
        append_text Code '',\<newline>'',
        start_line Code in_object [''parse_int_8: ''],
        generate_integer_parser in_object 8,
        append_text Code '',\<newline>'',
        start_line Code in_object [''assert: ''],
        append_text Code
          (''function (x) { if (!(x)) { throw new Error('' @ js_quote @ ''assertion failed'' @ js_quote @ ''); } },\<newline>''),
        start_line Code in_object [''assert_eq: ''],
        append_text Code
          (''function (expected, got) { if (expected !== got) { throw new Error('' @ js_quote @ ''Expected '' @ js_quote @
           '' + expected + '' @ js_quote @ '', got '' @ js_quote @ '' + got); } },\<newline>''),
        start_line Code in_object [''require_type: ''],
        append_text Code ''function (type, value) { assert(typeof(value) === type); }\<newline>'',
        start_line Code indentation [''}'']])"

subsection \<open>When the generator throws\<close>

text \<open>Types that the JavaScript generator supports: no variant and no vector in them.\<close>

primrec js_supported :: "wire_type \<Rightarrow> bool" where
  "js_supported (Integer r) = True"
| "js_supported (Variant elements) = False"
| "js_supported (Tuple elements) = list_all id (map js_supported elements)"
| "js_supported (Vector len element) = False"
| "js_supported (Utf8 code_units) = True"
| "js_supported (Structure es) = list_all what (map (map_structure_element js_supported) es)"

text \<open>Types whose size the generator can write: no variant among the elements of tuples and structures.\<close>

primrec js_sizable :: "wire_type \<Rightarrow> bool" where
  "js_sizable (Integer r) = True"
| "js_sizable (Variant elements) = False"
| "js_sizable (Tuple elements) = list_all id (map js_sizable elements)"
| "js_sizable (Vector len element) = True"
| "js_sizable (Utf8 code_units) = True"
| "js_sizable (Structure es) = list_all what (map (map_structure_element js_sizable) es)"

lemma js_supported_structure: "js_supported (Structure es) \<longleftrightarrow> (\<forall>e\<in>set es. js_supported (what e))"
  by (auto simp: list_all_iff structure_element.map_sel)

lemma js_sizable_structure: "js_sizable (Structure es) \<longleftrightarrow> (\<forall>e\<in>set es. js_sizable (what e))"
  by (auto simp: list_all_iff structure_element.map_sel)

lemma js_supported_sizable: "js_supported t \<Longrightarrow> js_sizable t"
proof (induction t)
  case (Structure es)
  then show ?case
    unfolding js_supported_structure js_sizable_structure by (blast intro: Structure.IH structure_element.set_sel)
qed (auto simp: list_all_iff)

lemma throws_if_js_throw: "throws_if js_todo True (throw js_todo)"
  by (rule throws_if_throw)

lemma throws_if_when [throws_intros]:
  "throws_if e b w \<Longrightarrow> throws_if e c v \<Longrightarrow> throws_if e (if p then b else c) (if p then w else v)"
  by simp

lemma throws_if_integer_parser: "throws_if e False (generate_integer_parser i n)"
  unfolding generate_integer_parser_def Let_def
  by (rule throws_if_eq, (rule throws_intros)+) simp

lemma throws_if_integer_parser_creation: "throws_if e False (generate_integer_parser_creation r library)"
  unfolding generate_integer_parser_creation_def Let_def
  by (rule throws_if_eq, (rule throws_intros)+) simp

lemma throws_if_utf8_parser:
  "(\<And>i. throws_if e b (length_parser i)) \<Longrightarrow> throws_if e b (generate_utf8_parser i length_parser)"
  unfolding generate_utf8_parser_def
  by (rule throws_if_eq, (rule throws_intros | assumption)+) simp

lemma throws_if_element_case:
  assumes "\<And>j. throws_if e False (store j)" and "\<And>j. i \<noteq> n - 1 \<Longrightarrow> throws_if e b (next_parser j)"
  shows "throws_if e (i \<noteq> n - 1 \<and> b) (generate_element_case in_switch n i store result next_parser)"
proof -
  have last: "throws_if e (i \<noteq> n - 1 \<and> b)
      (if i = n - 1 then start_line Code j [''return '', result, '';\<newline>'']
       else in_order [start_line Code j [''current_parser = ''], next_parser j, append_text Code '';\<newline>'',
         start_line Code j [''break;\<newline>'']])" for j
  proof (cases "i = n - 1")
    case False
    have "throws_if e (False \<or> b \<or> False \<or> False \<or> False)
        (in_order [start_line Code j [''current_parser = ''], next_parser j, append_text Code '';\<newline>'',
         start_line Code j [''break;\<newline>'']])"
      by (intro throws_if_Cons throws_if_basic assms(2) False)
    with False show ?thesis by simp
  qed (simp add: throws_if_basic)
  show ?thesis
    unfolding generate_element_case_def by (rule throws_if_eq, (rule last assms(1) throws_intros)+) simp
qed

text \<open>The shape of the parsers of tuples and structures: the first element, then the others.\<close>

lemma all_but_first:
  assumes "xs \<noteq> []"
  shows "(P (xs ! 0) \<or> (\<exists>i\<in>set [0..<length xs]. i \<noteq> length xs - 1 \<and> P (xs ! (i + 1)))) \<longleftrightarrow> (\<exists>x\<in>set xs. P x)"
proof -
  have "\<exists>i\<in>set [0..<length xs]. i \<noteq> length xs - 1 \<and> P (xs ! (i + 1))" if "k < length xs" "k \<noteq> 0" "P (xs ! k)" for k
    using that by (intro bexI [of _ "k - 1"]) auto
  then have "(\<exists>k<length xs. P (xs ! k)) \<Longrightarrow>
      P (xs ! 0) \<or> (\<exists>i\<in>set [0..<length xs]. i \<noteq> length xs - 1 \<and> P (xs ! (i + 1)))"
    by (metis (full_types))
  moreover have "0 < length xs" using assms by simp
  moreover have "i + 1 < length xs" if "i \<in> set [0..<length xs]" "i \<noteq> length xs - 1" for i
    using that by simp
  then have "P (xs ! 0) \<or> (\<exists>i\<in>set [0..<length xs]. i \<noteq> length xs - 1 \<and> P (xs ! (i + 1))) \<Longrightarrow>
      \<exists>k<length xs. P (xs ! k)"
    using assms by blast
  ultimately have "(P (xs ! 0) \<or> (\<exists>i\<in>set [0..<length xs]. i \<noteq> length xs - 1 \<and> P (xs ! (i + 1)))) \<longleftrightarrow>
      (\<exists>k<length xs. P (xs ! k))"
    by blast
  also have "\<dots> \<longleftrightarrow> (\<exists>x\<in>set xs. P x)"
    by (metis in_set_conv_nth)
  finally show ?thesis .
qed

lemma indexed_exists: "(\<exists>(k, x)\<in>set (zip [0..<length xs] xs). P x) \<longleftrightarrow> (\<exists>x\<in>set xs. P x)"
proof -
  have "set xs = snd ` set (zip [0..<length xs] xs)"
    using map_snd_zip [of "[0..<length xs]" xs] by (metis diff_zero length_upt list.set_map)
  then show ?thesis by (auto simp: case_prod_unfold)
qed

lemma throws_if_parser_creation:
  "throws_if js_todo (\<not> js_supported t) (generate_parser_creation i t library)"
proof (induction i t library rule: generate_parser_creation.induct)
  case (1 i r library)
  then show ?case by (simp add: generate_parser_creation.simps throws_if_integer_parser_creation)
next
  case (2 i elements library)
  then show ?case by (simp add: generate_parser_creation.simps throws_if_js_throw)
next
  case (3 i elements library)
  show ?case
  proof (cases "elements = []")
    case False
    let ?b = "\<lambda>k. k \<noteq> length elements - 1 \<and> \<not> js_supported (elements ! (k + 1))"
    have cases: "throws_if js_todo (\<exists>k\<in>set [0..<length elements]. ?b k) (in_order (map (\<lambda>k.
        generate_element_case in_switch (length elements) k
          (\<lambda>in_case. start_line Code in_case [''elements.push(status);\<newline>'']) ''elements''
          (if k = length elements - 1 then (\<lambda>in_case. in_order [])
           else (\<lambda>in_case. generate_parser_creation in_case (elements ! (k + 1)) library))) [0..<length elements]))" for in_switch
      by (intro throws_if_map throws_if_element_case throws_if_basic) (simp only: if_False, rule 3(2) [OF False])
    have "throws_if js_todo (\<not> js_supported (elements ! 0) \<or> (\<exists>k\<in>set [0..<length elements]. ?b k))
        (generate_parser_creation i (Tuple elements) library)"
      unfolding generate_parser_creation.simps using False
      by (simp only: if_False) (rule throws_if_eq, (rule cases 3(1) [OF False] throws_intros)+, simp)
    then show ?thesis
      by (rule throws_if_eq) (subst all_but_first [OF False, of "\<lambda>t. \<not> js_supported t"], auto simp: list_all_iff)
  qed (simp add: generate_parser_creation.simps throws_if_basic)
next
  case (4 i len element library)
  then show ?case by (simp add: generate_parser_creation.simps throws_if_js_throw)
next
  case (5 i code_units library)
  then show ?case
    unfolding generate_parser_creation.simps by (intro throws_if_utf8_parser) simp
next
  case (6 i elements library)
  show ?case
  proof (cases "elements = []")
    case False
    let ?b = "\<lambda>k. k \<noteq> length elements - 1 \<and> \<not> js_supported (what (elements ! (k + 1)))"
    have store: "throws_if js_todo False (in_order
        [start_line Code j [''result.'', element_name (elements ! k), '' = status;\<newline>''],
         start_line Code j [''++members_parsed;\<newline>'']])" for j k
      by (rule throws_if_eq, (rule throws_intros)+) simp
    have cases: "throws_if js_todo (\<exists>k\<in>set [0..<length elements]. ?b k) (in_order (map (\<lambda>k.
        generate_element_case in_switch (length elements) k
          (\<lambda>in_case. in_order
            [start_line Code in_case [''result.'', element_name (elements ! k), '' = status;\<newline>''],
             start_line Code in_case [''++members_parsed;\<newline>'']]) ''result''
          (if k = length elements - 1 then (\<lambda>in_case. in_order [])
           else (\<lambda>in_case. generate_parser_creation in_case (what (elements ! (k + 1))) library))) [0..<length elements]))" for in_switch
      by (intro throws_if_map throws_if_element_case store) (simp only: if_False, rule 6(2) [OF False])
    have "throws_if js_todo (\<not> js_supported (what (elements ! 0)) \<or> (\<exists>k\<in>set [0..<length elements]. ?b k))
        (generate_parser_creation i (Structure elements) library)"
      unfolding generate_parser_creation.simps using False
      by (simp only: if_False) (rule throws_if_eq, (rule cases 6(1) [OF False] throws_intros)+, simp)
    then show ?thesis
      by (rule throws_if_eq)
        (subst all_but_first [OF False, of "\<lambda>e. \<not> js_supported (what e)"],
         auto simp: js_supported_structure simp del: js_supported.simps)
  qed (simp add: generate_parser_creation.simps throws_if_basic)
qed

lemma throws_if_size_of_value:
  "throws_if js_todo (\<not> js_sizable t) (generate_size_of_value t val library)"
proof (induction t val library rule: generate_size_of_value.induct)
  case (3 elements val library)
  have "throws_if js_todo (\<exists>(k, t)\<in>set (zip [0..<length elements] elements). \<not> js_sizable t)
      (in_order (map (\<lambda>(k, t). in_order [append_text Code '' + '',
        generate_size_of_value t (val @ ''['' @ decimal k @ '']'') library]) (zip [0..<length elements] elements)))"
    by (rule throws_if_methods) (rule throws_if_eq, (rule 3 throws_intros | assumption | rule refl)+, simp)
  moreover have "(\<exists>(k, t)\<in>set (zip [0..<length elements] elements). \<not> js_sizable t) \<longleftrightarrow> \<not> js_sizable (Tuple elements)"
    by (simp add: indexed_exists list_all_iff)
  ultimately show ?case
    unfolding generate_size_of_value.simps
    by (intro throws_if_eq [OF throws_if_Cons [OF throws_if_basic(1) throws_if_Cons [OF _ throws_if_Cons
        [OF throws_if_basic(1) throws_if_basic(4)]]]]) auto
next
  case (6 elements val library)
  have "throws_if js_todo (\<exists>e\<in>set elements. \<not> js_sizable (what e))
      (in_order (map (\<lambda>e. in_order [append_text Code '' + '',
        generate_size_of_value (what e) (val @ ''.'' @ element_name e) library]) elements))"
    by (rule throws_if_map) (rule throws_if_eq, (rule 6 throws_intros | assumption)+, simp)
  then show ?case
    unfolding generate_size_of_value.simps
    by (intro throws_if_eq [OF throws_if_Cons [OF throws_if_basic(1) throws_if_Cons [OF _ throws_if_Cons
        [OF throws_if_basic(1) throws_if_basic(4)]]]])
      (auto simp: js_sizable_structure simp del: js_sizable.simps)
qed (unfold generate_size_of_value.simps js_sizable.simps not_True_eq_False not_False_eq_True,
   rule throws_if_js_throw throws_if_basic | rule throws_if_eq, (rule throws_intros)+, simp)+

lemma throws_if_integer_serialization: "throws_if e False (generate_integer_serialization i r val destination offset)"
  unfolding generate_integer_serialization_def Let_def
  by (rule throws_if_eq, (rule throws_intros)+) simp

lemma throws_if_serialization:
  "throws_if js_todo (\<not> js_supported t) (generate_serialization i t val destination offset library)"
proof (induction i t val destination offset library rule: generate_serialization.induct)
  case (3 i elements val destination offset library)
  have "throws_if js_todo (\<exists>(k, t)\<in>set (zip [0..<length elements] elements). \<not> js_supported t)
      (in_order (map (\<lambda>(k, t). in_order
        [generate_serialization i t (val @ ''['' @ decimal k @ '']'') destination ''offset'' library,
         start_line Code in_function [''offset += ''],
         generate_size_of_value t (val @ ''['' @ decimal k @ '']'') library,
         append_text Code '';\<newline>'']) (zip [0..<length elements] elements)))" if "elements \<noteq> []" for in_function
    by (rule throws_if_methods)
      (rule throws_if_eq, (rule 3 [OF that] throws_if_size_of_value throws_intros | assumption | rule refl)+,
       use js_supported_sizable in blast)
  note body = this [unfolded indexed_exists]
  show ?case
  proof (cases "elements = []")
    case False
    then show ?thesis
      unfolding generate_serialization.simps
      by (simp only: if_False) (rule throws_if_eq, (rule body [OF False] throws_intros)+, simp add: list_all_iff)
  qed (simp add: generate_serialization.simps throws_if_basic)
next
  case (6 i elements val destination offset library)
  have "throws_if js_todo (\<exists>e\<in>set elements. \<not> js_supported (what e))
      (in_order (map (\<lambda>e. in_order
        [generate_serialization i (what e) (val @ ''.'' @ element_name e) destination ''offset'' library,
         start_line Code in_function [''offset += ''],
         generate_size_of_value (what e) (val @ ''.'' @ element_name e) library,
         append_text Code '';\<newline>'']) elements))" if "elements \<noteq> []" for in_function
    by (rule throws_if_map)
      (rule throws_if_eq, (rule 6 [OF that] throws_if_size_of_value throws_intros | assumption)+,
       use js_supported_sizable in blast)
  note body = this
  show ?case
  proof (cases "elements = []")
    case False
    then show ?thesis
      unfolding generate_serialization.simps js_supported_structure
      by (simp only: if_False) (rule throws_if_eq, (rule body [OF False] throws_intros)+, simp)
  qed (simp add: generate_serialization.simps throws_if_basic)
next
  case (5 i code_units val destination offset library)
  then show ?case
    unfolding generate_serialization.simps
    by (intro throws_if_eq [OF throws_if_Cons [OF _ throws_if_Cons [OF throws_if_basic(2) throws_if_basic(4)]]])
      (assumption, simp)
qed (simp_all add: generate_serialization.simps throws_if_integer_serialization throws_if_js_throw)

subsection \<open>Receiver and client\<close>

definition method_js_supported :: "method_definition \<Rightarrow> bool" where
  "method_js_supported entry \<longleftrightarrow>
     js_supported (method_result entry) \<and> list_all (\<lambda>p. js_supported (parameter_type p)) (parameters entry)"

definition interface_js_supported :: "interface_definition \<Rightarrow> bool" where
  "interface_js_supported interface \<longleftrightarrow> list_all (\<lambda>(method_name, entry). method_js_supported entry) (methods interface)"

lemma throws_if_response_callback:
  "throws_if js_todo (\<not> js_supported result) (generate_response_callback i result common_library)"
  unfolding generate_response_callback_def
  by (rule throws_if_eq, (rule throws_if_size_of_value throws_if_serialization throws_intros)+)
    (use js_supported_sizable in auto)

lemma throws_if_comma_separated:
  "(\<And>w. w \<in> set ws \<Longrightarrow> throws_if e False w) \<Longrightarrow> throws_if e False (in_order (comma_separated Code first ws))"
proof (induction ws arbitrary: first)
  case (Cons w ws)
  have "throws_if e (False \<or> False \<or> False) (in_order (comma # w # comma_separated Code False ws))"
    if "throws_if e False comma" for comma
    by (intro throws_if_Cons that Cons) simp_all
  then show ?case by (simp add: add_element_def throws_if_basic)
qed (simp add: throws_if_basic)

lemma throws_if_method_parsing:
  "throws_if js_todo (\<not> method_js_supported entry) (generate_method_parsing i method_name entry common_library)"
proof -
  have status: "throws_if js_todo False (in_order [append_text Code ''status['', append_text Code (decimal k), append_text Code '']''])" for k
    by (rule throws_if_eq, (rule throws_intros)+) simp
  have arguments: "throws_if js_todo False (in_order (comma_separated Code True
      (map (\<lambda>k. in_order [append_text Code ''status['', append_text Code (decimal k), append_text Code '']''])
         [0..<length (parameters entry)] @ [append_text Code ''function (result)\<newline>''])))"
    by (rule throws_if_comma_separated) (auto intro: status throws_if_basic)
  show ?thesis
    unfolding generate_method_parsing_def
    by (rule throws_if_eq, (rule arguments throws_if_parser_creation throws_if_response_callback throws_intros)+)
      (auto simp: method_js_supported_def clone_id list_all_iff)
qed

lemma throws_if_request_parsing:
  "throws_if js_todo (\<not> interface_js_supported interface) (generate_request_parsing i interface common_library)"
proof -
  have all: "throws_if js_todo (\<exists>(method_name, entry)\<in>set (methods interface). \<not> method_js_supported entry)
      (in_order (map (\<lambda>(method_name, entry). generate_method_parsing j method_name entry common_library)
        (methods interface)))" for j
    by (rule throws_if_methods) (rule throws_if_method_parsing)
  show ?thesis
    unfolding generate_request_parsing_def
    by (rule throws_if_eq, (rule all throws_if_parser_creation throws_intros)+)
      (auto simp: interface_js_supported_def list_all_iff)
qed

lemma throws_if_response_parsing: "throws_if js_todo False (generate_response_parsing i common_library)"
  unfolding generate_response_parsing_def by (rule throws_if_eq, (rule throws_intros)+) simp

lemma throws_if_input_receiver:
  "throws_if js_todo (\<not> interface_js_supported interface) (generate_input_receiver i interface common_library)"
  unfolding generate_input_receiver_def
  by (rule throws_if_eq, (rule throws_if_request_parsing throws_if_response_parsing throws_intros)+) simp

lemma throws_if_js_client_method:
  "throws_if js_todo (\<not> method_js_supported entry) (generate_client_method i method_name entry library)"
proof -
  have sizes: "throws_if js_todo (\<exists>p\<in>set (parameters entry). \<not> js_sizable (parameter_type p))
      (in_order (map (\<lambda>p. in_order [append_text Code '' + '',
        generate_size_of_value (parameter_type p) (parameter_name p) library]) (parameters entry)))"
    by (rule throws_if_map) (rule throws_if_eq, (rule throws_if_size_of_value throws_intros)+, simp)
  have separator: "throws_if js_todo (b \<and> \<not> js_sizable t)
      (if b then in_order [start_line Code j [''write_pointer += ''], generate_size_of_value t x library, append_text Code '';\<newline>'']
       else in_order [])" for b t j x
    by (cases b; simp only: if_True if_False)
      (rule throws_if_eq, (rule throws_if_size_of_value throws_intros)+, simp, simp add: throws_if_basic)
  have arguments: "throws_if js_todo (\<exists>(k, p)\<in>set (zip [0..<length (parameters entry)] (parameters entry)). \<not> js_supported (parameter_type p))
      (in_order (map (\<lambda>(k, p). in_order
        [generate_serialization j (parameter_type p) (parameter_name p) ''request_buffer'' ''write_pointer'' library,
         if k \<noteq> length (parameters entry) - 1
         then in_order [start_line Code j [''write_pointer += ''],
           generate_size_of_value (parameter_type p) (parameter_name p) library, append_text Code '';\<newline>'']
         else in_order []]) (zip [0..<length (parameters entry)] (parameters entry))))" for j
    by (rule throws_if_methods)
      (rule throws_if_eq, (rule separator throws_if_serialization throws_intros)+, use js_supported_sizable in blast)
  show ?thesis
    unfolding generate_client_method_def Let_def
    by (rule throws_if_eq,
        (rule sizes arguments [unfolded indexed_exists] separator throws_if_parser_creation throws_if_serialization throws_intros)+)
      (use js_supported_sizable in \<open>auto simp: method_js_supported_def list_all_iff\<close>)
qed

lemma throws_if_js_client:
  "throws_if js_todo (\<not> interface_js_supported interface) (generate_client i interface library)"
proof -
  have comma: "throws_if js_todo False (if b then append_text Code '','' else in_order [])" for b
    by (simp add: throws_if_basic)
  have one: "throws_if js_todo (\<not> method_js_supported entry)
      (in_order [generate_client_method j method_name entry library,
         if k + 1 \<noteq> length (methods interface) then append_text Code '','' else in_order [], append_text Code ''\<newline>''])"
    for j k method_name entry
    by (rule throws_if_eq, (rule throws_if_js_client_method comma throws_intros)+) simp
  have all: "throws_if js_todo (\<exists>(k, method)\<in>set (zip [0..<length (methods interface)] (methods interface)).
        case method of (method_name, entry) \<Rightarrow> \<not> method_js_supported entry)
      (in_order (map (\<lambda>(k, method_name, entry). in_order
        [generate_client_method j method_name entry library,
         if k + 1 \<noteq> length (methods interface) then append_text Code '','' else in_order [], append_text Code ''\<newline>''])
        (zip [0..<length (methods interface)] (methods interface))))" for j
    by (rule throws_if_methods) (simp only: split_paired_all prod.case, rule one)
  show ?thesis
    unfolding generate_client_def
    by (rule throws_if_eq, (rule all [unfolded indexed_exists] throws_intros)+)
      (auto simp: interface_js_supported_def list_all_iff)
qed

text \<open>C24: The receiver and the client of an interface are generated exactly when no type in its
  methods contains a variant or a vector; otherwise the generator throws \<open>std::logic_error\<close>.
  The common library is always generated.\<close>

theorem js_generator_throws_iff_unsupported:
  "(generate_input_receiver i interface library st = Inl e \<longleftrightarrow>
      e = Logic_error ''todo'' \<and> \<not> interface_js_supported interface) \<and>
   (generate_client i interface library st = Inl e \<longleftrightarrow>
      e = Logic_error ''todo'' \<and> \<not> interface_js_supported interface) \<and>
   (\<exists>st'. generate_common_library i st = Inr st')"
proof (intro conjI)
  show "generate_input_receiver i interface library st = Inl e \<longleftrightarrow>
     e = Logic_error ''todo'' \<and> \<not> interface_js_supported interface"
    using throws_if_input_receiver [of interface i library]
    unfolding throws_if_def js_todo_def by (auto dest!: spec [of _ st] split: if_splits)
  show "generate_client i interface library st = Inl e \<longleftrightarrow>
     e = Logic_error ''todo'' \<and> \<not> interface_js_supported interface"
    using throws_if_js_client [of interface i library]
    unfolding throws_if_def js_todo_def by (auto dest!: spec [of _ st] split: if_splits)
  have "throws_if js_todo False (generate_common_library i)"
    unfolding generate_common_library_def Let_def
    by (rule throws_if_eq, (rule throws_if_integer_parser throws_intros)+) simp
  then show "\<exists>st'. generate_common_library i st = Inr st'"
    by (simp add: throws_if_def)
qed

end
