(* ===== verification/Js_Parser.thy ===== *)
theory Js_Parser
  imports Js_Generator Value_Serialization
begin

text \<open>
  The parsers that the JavaScript generator creates (\<open>generate_integer_parser\<close> and
  \<open>generate_parser_creation\<close> of \<open>warpcoil/javascript.hpp\<close>), as what the generated functions do.
  A parser is a closure that takes one octet at a time and returns \<open>undefined\<close> until it
  returns a value; \<open>js_parser\<close> are the variables of the closures. In the terms of
  \<open>Parse_Result\<close>, \<open>undefined\<close> is \<open>Need_more_input\<close>, a value is a completion that consumes the
  octet, and a thrown error is \<open>Invalid_input\<close>.
  \<^item> The operators \<open><<\<close> and \<open>|\<close> of JavaScript work on 32 bit integers and give a signed number,
    so the variable \<open>result\<close> is a word of 32 bits that is read with its sign.
  \<^item> Within its limits a parser of JavaScript accepts exactly the octets that the C++ side writes
    (\<open>js_contract\<close>). The limits: 4 octet integers below \<open>2 ^ 31\<close>, no empty string, no empty
    tuple or structure inside of another, no string with an 8 octet length.
\<close>

subsection \<open>Values and closures\<close>

datatype js_value =
    Js_number int
  | Js_high_low int int     \<comment> \<open>\<open>{high: h, low: l}\<close>\<close>
  | Js_string bytes         \<comment> \<open>one character per octet, from \<open>String.fromCharCode\<close>\<close>
  | Js_array "js_value list"
  | Js_object "(ident \<times> js_value) list"

datatype js_parser =
    Js_integer u32 nat                               \<comment> \<open>\<open>result\<close>, \<open>parsed\<close>\<close>
  | Js_integer_8 u32 u32 nat                         \<comment> \<open>\<open>result_high\<close>, \<open>result_low\<close>, \<open>parsed\<close>\<close>
  | Js_utf8_length js_parser                         \<comment> \<open>\<open>length\<close>, while \<open>content\<close> is \<open>undefined\<close>\<close>
  | Js_utf8_content bytes nat                        \<comment> \<open>\<open>content\<close>, \<open>received_content\<close>\<close>
  | Js_sequence js_value nat "js_parser option"
      \<comment> \<open>\<open>elements\<close> or \<open>result\<close>, the number \<open>elements.length\<close> or \<open>members_parsed\<close>, \<open>current_parser\<close>\<close>

type_synonym js_step = "(js_parser, js_value) byte_step"

definition js_parse_integer :: "nat \<Rightarrow> int \<Rightarrow> int \<Rightarrow> js_step" where
  "js_parse_integer number_of_bytes low high p input =
     (case p of
        Js_integer result parsed \<Rightarrow>
          (let result = (if number_of_bytes > 1 then push_bit 8 result else result);
               result = result OR ucast input;
               parsed = Suc parsed
           in if parsed = number_of_bytes
              then (if sint result < low \<or> sint result > high
                    then (Invalid_input, Js_integer result parsed)
                    else (Parse_complete (Js_number (sint result)) Consumed, Js_integer result parsed))
              else (Need_more_input, Js_integer result parsed))
      | _ \<Rightarrow> (Invalid_input, p))"

definition js_parse_integer_8 :: js_step where
  "js_parse_integer_8 p input =
     (case p of
        Js_integer_8 result_high result_low parsed \<Rightarrow>
          (let result_high = (if parsed < 4 then push_bit 8 result_high OR ucast input else result_high);
               result_low = (if parsed < 4 then result_low else push_bit 8 result_low OR ucast input);
               parsed = Suc parsed
           in if parsed = 8
              then (Parse_complete (Js_high_low (sint result_high) (sint result_low)) Consumed,
                    Js_integer_8 result_high result_low parsed)
              else (Need_more_input, Js_integer_8 result_high result_low parsed))
      | _ \<Rightarrow> (Invalid_input, p))"

text \<open>\<open>new ArrayBuffer(status)\<close>: an object is converted to \<open>NaN\<close> and then to 0.\<close>

definition js_array_buffer :: "js_value \<Rightarrow> bytes" where
  "js_array_buffer status = (case status of Js_number n \<Rightarrow> replicate (nat n) 0 | _ \<Rightarrow> [])"

definition js_parse_utf8 :: "js_step \<Rightarrow> js_step" where
  "js_parse_utf8 length_parse p input =
     (case p of
        Js_utf8_length l \<Rightarrow>
          (case length_parse l input of
             (Parse_complete status c, l') \<Rightarrow> (Need_more_input, Js_utf8_content (js_array_buffer status) 0)
           | (Need_more_input, l') \<Rightarrow> (Need_more_input, Js_utf8_length l')
           | (Invalid_input, l') \<Rightarrow> (Invalid_input, Js_utf8_length l'))
      | Js_utf8_content content received_content \<Rightarrow>
          (let content = content[received_content := input];
               received_content = Suc received_content
           in if received_content \<noteq> length content
              then (Need_more_input, Js_utf8_content content received_content)
              else (Parse_complete (Js_string content) Consumed, Js_utf8_content content received_content))
      | _ \<Rightarrow> (Invalid_input, p))"

text \<open>
  The functions of tuples and structures: a switch over the number of elements that have been
  parsed. \<open>creations\<close> are the parsers that its cases create, \<open>None\<close> for the \<open>undefined\<close> of an
  empty tuple or structure; \<open>parses\<close> is what their closures do, \<open>store\<close> how the result
  keeps the value of an element.
\<close>

definition js_parse_elements ::
  "(js_value \<Rightarrow> nat \<Rightarrow> js_value \<Rightarrow> js_value) \<Rightarrow> js_parser option list \<Rightarrow> js_step list \<Rightarrow> js_step" where
  "js_parse_elements store creations parses p input =
     (case p of
        Js_sequence result k closure \<Rightarrow>
          if k < length parses
          then
            (case closure of
               None \<Rightarrow> (Invalid_input, p)
             | Some current \<Rightarrow>
                 (case (parses ! k) current input of
                    (Parse_complete status c, current') \<Rightarrow>
                      let result = store result k status
                      in if k = length parses - 1
                         then (Parse_complete result Consumed, Js_sequence result (Suc k) (Some current'))
                         else (Need_more_input, Js_sequence result (Suc k) (creations ! Suc k))
                  | (Need_more_input, current') \<Rightarrow> (Need_more_input, Js_sequence result k (Some current'))
                  | (Invalid_input, current') \<Rightarrow> (Invalid_input, Js_sequence result k (Some current'))))
          else (Need_more_input, p)
      | _ \<Rightarrow> (Invalid_input, p))"

text \<open>\<open>elements.push(status)\<close>.\<close>

definition js_push :: "js_value \<Rightarrow> nat \<Rightarrow> js_value \<Rightarrow> js_value" where
  "js_push result k status = (case result of Js_array elements \<Rightarrow> Js_array (elements @ [status]) | _ \<Rightarrow> result)"

text \<open>\<open>result.name = status\<close>.\<close>

fun js_assign :: "ident \<Rightarrow> js_value \<Rightarrow> (ident \<times> js_value) list \<Rightarrow> (ident \<times> js_value) list" where
  "js_assign name status [] = [(name, status)]"
| "js_assign name status ((n, v) # members) =
     (if n = name then (n, status) # members else (n, v) # js_assign name status members)"

definition js_set_member :: "ident list \<Rightarrow> js_value \<Rightarrow> nat \<Rightarrow> js_value \<Rightarrow> js_value" where
  "js_set_member names result k status =
     (case result of Js_object members \<Rightarrow> Js_object (js_assign (names ! k) status members) | _ \<Rightarrow> result)"

subsection \<open>\<open>generate_parser_creation\<close>\<close>

definition js_create_integer :: "integer_range \<Rightarrow> js_parser" where
  "js_create_integer r =
     (if find_number_of_bytes_required (maximum r) = 8 then Js_integer_8 0 0 0 else Js_integer 0 0)"

definition js_integer_step :: "integer_range \<Rightarrow> js_step" where
  "js_integer_step r =
     (if find_number_of_bytes_required (maximum r) = 8 then js_parse_integer_8
      else js_parse_integer (find_number_of_bytes_required (maximum r)) (uint (minimum r)) (uint (maximum r)))"

text \<open>The closure that is created, \<open>None\<close> for \<open>undefined\<close>; and what it does.\<close>

primrec js_create :: "wire_type \<Rightarrow> js_parser option" where
  "js_create (Integer r) = Some (js_create_integer r)"
| "js_create (Variant ts) = None"
| "js_create (Tuple ts) =
     (if ts = [] then None else Some (Js_sequence (Js_array []) 0 (hd (map js_create ts))))"
| "js_create (Vector len t) = None"
| "js_create (Utf8 code_units) = Some (Js_utf8_length (js_create_integer code_units))"
| "js_create (Structure es) =
     (if es = [] then None
      else Some (Js_sequence (Js_object []) 0 (hd (map what (map (map_structure_element js_create) es)))))"

primrec js_step_of :: "wire_type \<Rightarrow> js_step" where
  "js_step_of (Integer r) = js_integer_step r"
| "js_step_of (Variant ts) = (\<lambda>p input. (Invalid_input, p))"
| "js_step_of (Tuple ts) = js_parse_elements js_push (map js_create ts) (map js_step_of ts)"
| "js_step_of (Vector len t) = (\<lambda>p input. (Invalid_input, p))"
| "js_step_of (Utf8 code_units) = js_parse_utf8 (js_integer_step code_units)"
| "js_step_of (Structure es) =
     js_parse_elements (js_set_member (map element_name es)) (map (js_create \<circ> what) es)
       (map what (map (map_structure_element js_step_of) es))"

subsection \<open>Integers\<close>

lemma accumulate_ucast:
  assumes "8 * length xs \<le> LENGTH('v)" and "LENGTH('v) \<le> LENGTH('w)"
  shows "accumulate xs (0 :: 'w::len word) = ucast (accumulate xs (0 :: 'v::len word))"
proof (rule bit_word_eqI)
  fix m assume m: "m < LENGTH('w)"
  show "bit (accumulate xs (0 :: 'w word)) m = bit (ucast (accumulate xs (0 :: 'v word)) :: 'w word) m"
    using assms m by (cases "m < LENGTH('v)") (auto simp: bit_accumulate bit_ucast_iff dest: bit_imp_le_length)
qed

lemma scast_ucast:
  assumes "LENGTH('v) \<le> 32"
  shows "scast (ucast w :: u32) = (w :: 'v::len word)"
proof (rule bit_word_eqI)
  fix m assume m: "m < LENGTH('v)"
  with assms have "m \<le> 31" by simp
  with m show "bit (scast (ucast w :: u32) :: 'v word) m = bit w m"
    by (simp add: bit_signed_iff bit_ucast_iff min_absorb2)
qed

lemma feed_js_integer:
  assumes "parsed < n" and "n = 1 \<longrightarrow> r = 0"
  shows "feed (js_parse_integer n low high) (Js_integer r parsed) bs = Done v rest \<longleftrightarrow>
    (\<exists>xs. length xs = n - parsed \<and> bs = xs @ rest \<and> v = Js_number (sint (accumulate xs r)) \<and>
      low \<le> sint (accumulate xs r) \<and> sint (accumulate xs r) \<le> high)"
  using assms
proof (induction bs arbitrary: r parsed)
  case (Cons b bs)
  have step: "(if n > 1 then push_bit 8 r else r) = push_bit 8 r" using Cons.prems by auto
  show ?case
  proof (cases "Suc parsed = n")
    case True
    then have "n - parsed = Suc 0" by simp
    with True step show ?thesis
      by (auto simp: js_parse_integer_def Let_def length_one_conv)
  next
    case False
    with Cons.prems have lt: "Suc parsed < n" by simp
    then have "n - parsed = Suc (n - Suc parsed)" by simp
    with False step Cons.IH [OF lt, of "push_bit 8 r OR ucast b"] lt show ?thesis
      by (auto simp: js_parse_integer_def Let_def length_Suc_conv Cons_eq_append_conv)
  qed
qed simp

context octet_word
begin

lemma js_integer_contract:
  assumes "LENGTH('w) \<le> 32"
  shows "byte_parser (Js_integer 0 0) (js_parse_integer (sizeof TYPE('w)) low high)
    (\<lambda>v. \<exists>w :: 'w word. v = Js_number (sint (ucast w :: u32)) \<and>
      low \<le> sint (ucast w :: u32) \<and> sint (ucast w :: u32) \<le> high)
    (\<lambda>v. case v of Js_number k \<Rightarrow> write_integer (word_of_int k :: 'w word) | _ \<Rightarrow> [])"
proof
  show "always_consumes (js_parse_integer (sizeof TYPE('w)) low high)"
    by (auto simp: always_consumes_def js_parse_integer_def Let_def split: js_parser.splits if_splits)
next
  fix bs v rest
  have acc: "accumulate xs (0 :: u32) = ucast (accumulate xs (0 :: 'w word))" if "length xs = sizeof TYPE('w)" for xs
    using that octets assms by (intro accumulate_ucast) simp_all
  have "feed (js_parse_integer (sizeof TYPE('w)) low high) (Js_integer 0 0) bs = Done v rest \<longleftrightarrow>
      (\<exists>xs. length xs = sizeof TYPE('w) \<and> bs = xs @ rest \<and>
        v = Js_number (sint (ucast (accumulate xs (0 :: 'w word)) :: u32)) \<and>
        low \<le> sint (ucast (accumulate xs (0 :: 'w word)) :: u32) \<and>
        sint (ucast (accumulate xs (0 :: 'w word)) :: u32) \<le> high)"
    by (subst feed_js_integer) (simp_all add: sizeof_pos acc cong: conj_cong)
  also have "\<dots> \<longleftrightarrow> (\<exists>w :: 'w word. bs = write_integer w @ rest \<and> v = Js_number (sint (ucast w :: u32)) \<and>
      low \<le> sint (ucast w :: u32) \<and> sint (ucast w :: u32) \<le> high)"
    using accumulate_write_integer write_integer_accumulate by (metis length_write_integer)
  also have "\<dots> \<longleftrightarrow> (\<exists>w :: 'w word. v = Js_number (sint (ucast w :: u32)) \<and>
      low \<le> sint (ucast w :: u32) \<and> sint (ucast w :: u32) \<le> high) \<and>
      bs = (case v of Js_number k \<Rightarrow> write_integer (word_of_int k :: 'w word) | _ \<Rightarrow> []) @ rest"
    by (auto simp: scast_ucast [OF assms])
  finally show "feed (js_parse_integer (sizeof TYPE('w)) low high) (Js_integer 0 0) bs = Done v rest \<longleftrightarrow>
    (\<exists>w :: 'w word. v = Js_number (sint (ucast w :: u32)) \<and>
      low \<le> sint (ucast w :: u32) \<and> sint (ucast w :: u32) \<le> high) \<and>
      bs = (case v of Js_number k \<Rightarrow> write_integer (word_of_int k :: 'w word) | _ \<Rightarrow> []) @ rest" .
qed

end

lemma feed_js_integer_low:
  assumes "4 \<le> parsed" "parsed < 8"
  shows "feed js_parse_integer_8 (Js_integer_8 h l parsed) bs = Done v rest \<longleftrightarrow>
    (\<exists>ys. length ys = 8 - parsed \<and> bs = ys @ rest \<and> v = Js_high_low (sint h) (sint (accumulate ys l)))"
  using assms
proof (induction bs arbitrary: l parsed)
  case (Cons b bs)
  show ?case
  proof (cases "Suc parsed = 8")
    case True
    then have "8 - parsed = Suc 0" by simp
    with True Cons.prems show ?thesis
      by (auto simp: js_parse_integer_8_def Let_def length_one_conv)
  next
    case False
    with Cons.prems have lt: "4 \<le> Suc parsed" "Suc parsed < 8" by simp_all
    then have "8 - parsed = Suc (8 - Suc parsed)" by simp
    with False Cons.IH [OF lt, of "push_bit 8 l OR ucast b"] Cons.prems show ?thesis
      by (auto simp: js_parse_integer_8_def Let_def length_Suc_conv Cons_eq_append_conv)
  qed
qed simp

lemma ex_length_Suc: "(\<exists>xs. length xs = Suc m \<and> P xs) \<longleftrightarrow> (\<exists>x xs. length xs = m \<and> P (x # xs))"
  by (metis length_Suc_conv)

lemma feed_js_integer_high:
  assumes "parsed \<le> 4"
  shows "feed js_parse_integer_8 (Js_integer_8 h 0 parsed) bs = Done v rest \<longleftrightarrow>
    (\<exists>xs. length xs = 4 - parsed \<and> (\<exists>ys. length ys = 4 \<and> bs = xs @ ys @ rest \<and>
      v = Js_high_low (sint (accumulate xs h)) (sint (accumulate ys (0 :: u32)))))"
  using assms
proof (induction "4 - parsed" arbitrary: bs h parsed)
  case 0
  then show ?case by (simp add: feed_js_integer_low)
next
  case (Suc k)
  then have lt: "parsed < 4" "k = 4 - Suc parsed" "Suc parsed \<le> 4" "4 - parsed = Suc (4 - Suc parsed)" by simp_all
  show ?case
  proof (cases bs)
    case (Cons b bs')
    have "feed js_parse_integer_8 (Js_integer_8 h 0 parsed) bs =
        feed js_parse_integer_8 (Js_integer_8 (push_bit 8 h OR ucast b) 0 (Suc parsed)) bs'"
      using lt by (simp add: Cons js_parse_integer_8_def Let_def)
    with Suc.hyps(1) [OF lt(2,3)] have "feed js_parse_integer_8 (Js_integer_8 h 0 parsed) bs = Done v rest \<longleftrightarrow>
        (\<exists>xs. length xs = 4 - Suc parsed \<and> (\<exists>ys. length ys = 4 \<and> bs' = xs @ ys @ rest \<and>
          v = Js_high_low (sint (accumulate (b # xs) h)) (sint (accumulate ys (0 :: u32)))))"
      by (simp only: accumulate_simps)
    then show ?thesis
      unfolding lt(4) ex_length_Suc by (simp only: Cons append_Cons list.inject) blast
  qed (use lt in \<open>auto simp: length_Suc_conv\<close>)
qed

lemma word_of_sint: "word_of_int (sint w) = (w :: 'w::len word)"
  by simp

lemma js_integer_8_contract:
  "byte_parser (Js_integer_8 0 0 0) js_parse_integer_8
    (\<lambda>v. \<exists>(h :: u32) (l :: u32). v = Js_high_low (sint h) (sint l))
    (\<lambda>v. case v of Js_high_low h l \<Rightarrow> write_integer (word_of_int h :: u32) @ write_integer (word_of_int l :: u32) | _ \<Rightarrow> [])"
proof
  show "always_consumes js_parse_integer_8"
    by (auto simp: always_consumes_def js_parse_integer_8_def Let_def split: js_parser.splits if_splits)
next
  fix bs v rest
  have size: "sizeof TYPE(32) = 4" by (simp add: sizeof_def)
  have word: "(\<exists>xs. length xs = 4 \<and> P xs (accumulate xs (0 :: u32))) \<longleftrightarrow> (\<exists>w :: u32. P (write_integer w) w)" for P
    using uint32.accumulate_write_integer uint32.write_integer_accumulate
    by (metis length_write_integer size)
  have "feed js_parse_integer_8 (Js_integer_8 0 0 0) bs = Done v rest \<longleftrightarrow>
      (\<exists>xs. length xs = 4 \<and> (\<exists>ys. length ys = 4 \<and> bs = xs @ ys @ rest \<and>
        v = Js_high_low (sint (accumulate xs (0 :: u32))) (sint (accumulate ys (0 :: u32)))))"
    by (subst feed_js_integer_high) auto
  also have "\<dots> \<longleftrightarrow> (\<exists>(h :: u32) (l :: u32). bs = write_integer h @ write_integer l @ rest \<and> v = Js_high_low (sint h) (sint l))"
    unfolding word [of "\<lambda>ys l. bs = _ @ ys @ rest \<and> v = Js_high_low _ (sint l)"]
    unfolding word [of "\<lambda>xs h. \<exists>l :: u32. bs = xs @ write_integer l @ rest \<and> v = Js_high_low (sint h) (sint l)"] by (rule refl)
  finally show "feed js_parse_integer_8 (Js_integer_8 0 0 0) bs = Done v rest \<longleftrightarrow>
      (\<exists>(h :: u32) (l :: u32). v = Js_high_low (sint h) (sint l)) \<and>
      bs = (case v of Js_high_low h l \<Rightarrow> write_integer (word_of_int h :: u32) @ write_integer (word_of_int l :: u32)
            | _ \<Rightarrow> []) @ rest"
    by (simp only:) (rule iffI; elim exE conjE; simp only: js_value.case word_of_sint append_assoc; blast)
qed

text \<open>What a parser of integers returns, and the octets it accepts for it.\<close>

definition js_number_of :: "uint_type \<Rightarrow> wire_value \<Rightarrow> js_value" where
  "js_number_of u v =
     (case u of
        Uint8 \<Rightarrow> Js_number (sint (ucast (the_uint8 v) :: u32))
      | Uint16 \<Rightarrow> Js_number (sint (ucast (the_uint16 v) :: u32))
      | Uint32 \<Rightarrow> Js_number (sint (the_uint32 v))
      | Uint64 \<Rightarrow> Js_high_low (sint (ucast (drop_bit 32 (the_uint64 v)) :: u32)) (sint (ucast (the_uint64 v) :: u32)))"

definition js_integer_ok :: "integer_range \<Rightarrow> js_value \<Rightarrow> bool" where
  "js_integer_ok r v \<longleftrightarrow>
     (\<exists>w. is_uint (parser_bits r) w \<and> v = js_number_of (parser_bits r) w \<and>
       (\<forall>k. v = Js_number k \<longrightarrow> uint (minimum r) \<le> k \<and> k \<le> uint (maximum r)))"

definition js_integer_encode :: "integer_range \<Rightarrow> js_value \<Rightarrow> bytes" where
  "js_integer_encode r v =
     (case v of
        Js_number k \<Rightarrow>
          (case parser_bits r of
             Uint8 \<Rightarrow> write_integer (word_of_int k :: u8)
           | Uint16 \<Rightarrow> write_integer (word_of_int k :: u16)
           | _ \<Rightarrow> write_integer (word_of_int k :: u32))
      | Js_high_low h l \<Rightarrow> write_integer (word_of_int h :: u32) @ write_integer (word_of_int l :: u32)
      | _ \<Rightarrow> [])"

lemma bytes_required:
  "find_number_of_bytes_required (maximum r) =
     (case parser_bits r of Uint8 \<Rightarrow> 1 | Uint16 \<Rightarrow> 2 | Uint32 \<Rightarrow> 4 | Uint64 \<Rightarrow> 8)"
  by (auto simp: find_number_of_bytes_required_def parser_bits_def word_le_nat_alt word_less_nat_alt)

lemma write_integer_64:
  "write_integer (w :: u64) = write_integer (ucast (drop_bit 32 w) :: u32) @ write_integer (ucast w :: u32)"
proof (rule nth_equalityI)
  fix i assume "i < length (write_integer w)"
  then have i: "i < 8" by (simp add: sizeof_def)
  then show "write_integer w ! i =
      (write_integer (ucast (drop_bit 32 w) :: u32) @ write_integer (ucast w :: u32)) ! i"
    by (intro bit_word_eqI)
      (auto simp: nth_append write_integer_nth sizeof_def bit_ucast_iff bit_drop_bit_eq algebra_simps)
qed (simp add: sizeof_def)

lemma join_64: "\<exists>w :: u64. ucast (drop_bit 32 w) = (h :: u32) \<and> ucast w = (l :: u32)"
proof (intro exI conjI)
  let ?w = "push_bit 32 (ucast h :: u64) OR ucast l"
  show "ucast (drop_bit 32 ?w) = h"
    by (rule bit_word_eqI) (auto simp: bit_ucast_iff bit_drop_bit_eq bit_or_iff bit_push_bit_iff dest: bit_imp_le_length)
  show "ucast ?w = l"
    by (rule bit_word_eqI) (auto simp: bit_ucast_iff bit_or_iff bit_push_bit_iff)
qed

lemma js_integer_step_contract:
  "byte_parser (js_create_integer r) (js_integer_step r) (js_integer_ok r) (js_integer_encode r)"
proof (cases "parser_bits r")
  case Uint8
  then have b: "find_number_of_bytes_required (maximum r) = sizeof TYPE(8)" by (simp add: bytes_required sizeof_def)
  show ?thesis
    unfolding js_create_integer_def js_integer_step_def b
    by (simp add: sizeof_def, rule byte_parser_cong [OF uint8.js_integer_contract [unfolded sizeof_def, simplified]])
      (auto simp: js_integer_ok_def js_integer_encode_def js_number_of_def Uint8 is_V_uint8_def)
next
  case Uint16
  then have b: "find_number_of_bytes_required (maximum r) = sizeof TYPE(16)" by (simp add: bytes_required sizeof_def)
  show ?thesis
    unfolding js_create_integer_def js_integer_step_def b
    by (simp add: sizeof_def, rule byte_parser_cong [OF uint16.js_integer_contract [unfolded sizeof_def, simplified]])
      (auto simp: js_integer_ok_def js_integer_encode_def js_number_of_def Uint16 is_V_uint16_def)
next
  case Uint32
  then have b: "find_number_of_bytes_required (maximum r) = sizeof TYPE(32)" by (simp add: bytes_required sizeof_def)
  show ?thesis
    unfolding js_create_integer_def js_integer_step_def b
    by (simp add: sizeof_def, rule byte_parser_cong [OF uint32.js_integer_contract [unfolded sizeof_def, simplified]])
      (auto simp: js_integer_ok_def js_integer_encode_def js_number_of_def Uint32 is_V_uint32_def)
next
  case Uint64
  then have b: "find_number_of_bytes_required (maximum r) = 8" by (simp add: bytes_required)
  have valid: "(\<exists>(h :: u32) (l :: u32). v = Js_high_low (sint h) (sint l)) \<longleftrightarrow> js_integer_ok r v" for v
  proof
    assume "\<exists>(h :: u32) (l :: u32). v = Js_high_low (sint h) (sint l)"
    then obtain h l :: u32 where v: "v = Js_high_low (sint h) (sint l)" by blast
    obtain w :: u64 where "ucast (drop_bit 32 w) = h" "ucast w = l" using join_64 by blast
    with v show "js_integer_ok r v"
      unfolding js_integer_ok_def js_number_of_def Uint64 by (intro exI [of _ "V_uint64 w"]) simp
  qed (auto simp: js_integer_ok_def js_number_of_def Uint64)
  show ?thesis
    unfolding js_create_integer_def js_integer_step_def b
    by (simp, rule byte_parser_cong [OF js_integer_8_contract valid]) (auto simp: js_integer_encode_def)
qed

subsection \<open>Strings\<close>

definition js_string_ok :: "integer_range \<Rightarrow> js_value \<Rightarrow> bool" where
  "js_string_ok code_units v \<longleftrightarrow>
     (\<exists>s. v = Js_string s \<and> s \<noteq> [] \<and> js_integer_ok code_units (Js_number (int (length s))))"

definition js_string_encode :: "integer_range \<Rightarrow> js_value \<Rightarrow> bytes" where
  "js_string_encode code_units v =
     (case v of Js_string s \<Rightarrow> js_integer_encode code_units (Js_number (int (length s))) @ s | _ \<Rightarrow> [])"

lemma feed_js_content:
  "feed (js_parse_utf8 p) (Js_utf8_content content k) bs = Done v rest \<longleftrightarrow>
   k < length content \<and> (\<exists>xs. length xs = length content - k \<and> bs = xs @ rest \<and> v = Js_string (take k content @ xs))"
proof (induction bs arbitrary: content k)
  case (Cons b bs)
  show ?case
  proof (cases "Suc k = length content")
    case True
    then have "content[k := b] = take k content @ [b]" using take_Suc_update [of k content b] by simp
    moreover have "length content - k = Suc 0" using True by simp
    ultimately show ?thesis
      using True by (auto simp: js_parse_utf8_def Let_def length_one_conv)
  next
    case False
    then have step: "feed (js_parse_utf8 p) (Js_utf8_content content k) (b # bs) = Done v rest \<longleftrightarrow>
        feed (js_parse_utf8 p) (Js_utf8_content (content[k := b]) (Suc k)) bs = Done v rest"
      by (simp add: js_parse_utf8_def Let_def)
    show ?thesis
    proof (cases "k < length content")
      case True
      with False have "Suc k < length content" "length content - k = Suc (length content - Suc k)" by simp_all
      with True show ?thesis
        unfolding step Cons.IH by (auto simp: take_Suc_update length_Suc_conv Cons_eq_append_conv)
    next
      case False
      then show ?thesis unfolding step Cons.IH by simp
    qed
  qed
qed (auto simp: length_Suc_conv)

lemma feed_js_content_0:
  "feed (js_parse_utf8 p) (Js_utf8_content content 0) bs = Done v rest \<longleftrightarrow>
   (\<exists>s. s \<noteq> [] \<and> length s = length content \<and> bs = s @ rest \<and> v = Js_string s)"
  unfolding feed_js_content by auto

lemma delegates_js_length:
  "always_consumes p \<Longrightarrow> delegates (js_parse_utf8 p) Js_utf8_length p
     (\<lambda>status. (Need_more_input, Js_utf8_content (js_array_buffer status) 0))"
  by (intro delegatesI) (simp_all add: js_parse_utf8_def)

lemma js_integer_ok_number: "js_integer_ok r (Js_number k) \<Longrightarrow> 0 \<le> k"
  unfolding js_integer_ok_def by (elim exE conjE) (drule spec [of _ k], simp, rule order_trans [OF uint_nonnegative], auto)

lemma js_utf8_contract:
  "byte_parser (Js_utf8_length (js_create_integer code_units)) (js_parse_utf8 (js_integer_step code_units))
     (js_string_ok code_units) (js_string_encode code_units)"
proof
  have consumes: "always_consumes (js_integer_step code_units)"
    by (rule byte_parser.consumes [OF js_integer_step_contract])
  show "always_consumes (js_parse_utf8 (js_integer_step code_units))"
    by (auto simp: always_consumes_def js_parse_utf8_def Let_def
        split: js_parser.splits parse_result.splits prod.splits if_splits)
next
  fix bs v rest
  have consumes: "always_consumes (js_integer_step code_units)"
    by (rule byte_parser.consumes [OF js_integer_step_contract])
  let ?feed = "feed (js_parse_utf8 (js_integer_step code_units))"
  have "?feed (Js_utf8_length (js_create_integer code_units)) bs = Done v rest \<longleftrightarrow>
      (\<exists>n tail. feed (js_integer_step code_units) (js_create_integer code_units) bs = Done n tail \<and>
        ?feed (Js_utf8_content (js_array_buffer n) 0) tail = Done v rest)"
    by (subst feed_delegates [OF delegates_js_length [OF consumes] consumes])
      (auto split: feed_result.splits)
  also have "\<dots> \<longleftrightarrow> (\<exists>n s. js_integer_ok code_units n \<and> s \<noteq> [] \<and> length s = length (js_array_buffer n) \<and>
      bs = js_integer_encode code_units n @ s @ rest \<and> v = Js_string s)"
    unfolding byte_parser.accepts [OF js_integer_step_contract] feed_js_content_0 by blast
  also have "\<dots> \<longleftrightarrow> (\<exists>s. js_integer_ok code_units (Js_number (int (length s))) \<and> s \<noteq> [] \<and>
      bs = js_integer_encode code_units (Js_number (int (length s))) @ s @ rest \<and> v = Js_string s)"
  proof -
    have "n = Js_number (int (length s))"
      if "js_integer_ok code_units n" "s \<noteq> []" "length s = length (js_array_buffer n)" for n s
      using that js_integer_ok_number [of code_units] by (cases n) (auto simp: js_array_buffer_def)
    moreover have "length s = length (js_array_buffer (Js_number (int (length s))))" for s :: bytes
      by (simp add: js_array_buffer_def)
    ultimately show ?thesis by metis
  qed
  finally show "?feed (Js_utf8_length (js_create_integer code_units)) bs = Done v rest \<longleftrightarrow>
      js_string_ok code_units v \<and> bs = js_string_encode code_units v @ rest"
    by (auto simp: js_string_ok_def js_string_encode_def)
qed

subsection \<open>Tuples and structures\<close>

text \<open>The result after the values of the elements from \<open>k\<close> on have been stored.\<close>

fun js_store_all :: "(js_value \<Rightarrow> nat \<Rightarrow> js_value \<Rightarrow> js_value) \<Rightarrow> js_value \<Rightarrow> nat \<Rightarrow> js_value list \<Rightarrow> js_value" where
  "js_store_all store result k [] = result"
| "js_store_all store result k (v # vs) = js_store_all store (store result k v) (Suc k) vs"

lemma ex_store_Cons:
  "(\<exists>ws. tuple_valid (p # ps) ws \<and> bs = tuple_encode (e # es) ws @ rest \<and> u = js_store_all store r k ws) \<longleftrightarrow>
   (\<exists>v ws. p v \<and> tuple_valid ps ws \<and> bs = e v @ tuple_encode es ws @ rest \<and>
      u = js_store_all store (store r k v) (Suc k) ws)" (is "?l \<longleftrightarrow> ?r")
proof
  assume ?r
  then obtain v ws where "p v" "tuple_valid ps ws" "bs = e v @ tuple_encode es ws @ rest"
    "u = js_store_all store (store r k v) (Suc k) ws" by blast
  then show ?l by (intro exI [of _ "v # ws"]) (simp add: tuple_valid_def tuple_encode_def)
next
  assume ?l
  then obtain v ws where "p v" "tuple_valid ps ws" "bs = e v @ tuple_encode es ws @ rest"
    "u = js_store_all store (store r k v) (Suc k) ws"
    by (auto simp: tuple_valid_def tuple_encode_def list_all2_Cons1)
  then show ?r by blast
qed

locale js_elements =
  fixes inits :: "js_parser list" and parses :: "js_step list"
    and valids :: "(js_value \<Rightarrow> bool) list" and encodes :: "(js_value \<Rightarrow> bytes) list"
  assumes lengths: "length inits = length parses" "length valids = length parses" "length encodes = length parses"
    and elements: "i < length parses \<Longrightarrow> byte_parser (inits ! i) (parses ! i) (valids ! i) (encodes ! i)"
begin

lemma delegates_element:
  assumes "k < length parses"
  shows "delegates (js_parse_elements store (map Some inits) parses) (\<lambda>s. Js_sequence result k (Some s)) (parses ! k)
     (\<lambda>v. if k = length parses - 1
          then (Parse_complete (store result k v) Consumed, undefined)
          else (Need_more_input, Js_sequence (store result k v) (Suc k) (Some (inits ! Suc k))))"
  using assms lengths
  by (intro delegatesI) (auto simp: js_parse_elements_def Let_def)

lemma element_accepts:
  "i < length parses \<Longrightarrow> feed (parses ! i) (inits ! i) bs = Done v rest \<longleftrightarrow> (valids ! i) v \<and> bs = (encodes ! i) v @ rest"
  using byte_parser.accepts [OF elements] .

lemma feed_elements_from:
  "k < length parses \<Longrightarrow>
   feed (js_parse_elements store (map Some inits) parses) (Js_sequence result k (Some (inits ! k))) bs = Done u rest
   \<longleftrightarrow> (\<exists>ws. tuple_valid (drop k valids) ws \<and> bs = tuple_encode (drop k encodes) ws @ rest \<and>
        u = js_store_all store result k ws)"
proof (induction "length parses - k" arbitrary: k result bs)
  case (Suc n)
  have split_lists: "drop k valids = valids ! k # drop (Suc k) valids"
      "drop k encodes = encodes ! k # drop (Suc k) encodes"
    using Suc.prems lengths by (simp_all add: Cons_nth_drop_Suc)
  have consumes: "always_consumes (parses ! k)"
    using byte_parser.consumes [OF elements [OF Suc.prems]] .
  have step: "feed (js_parse_elements store (map Some inits) parses) (Js_sequence result k (Some (inits ! k))) bs
      = Done u rest \<longleftrightarrow>
    (\<exists>v tail. feed (parses ! k) (inits ! k) bs = Done v tail \<and>
      (if k = length parses - 1 then u = store result k v \<and> tail = rest
       else feed (js_parse_elements store (map Some inits) parses)
         (Js_sequence (store result k v) (Suc k) (Some (inits ! Suc k))) tail = Done u rest))"
    by (subst feed_delegates [OF delegates_element [OF Suc.prems] consumes])
      (auto split: if_splits feed_result.splits)
  show ?case
  proof (cases "k = length parses - 1")
    case True
    then have "drop (Suc k) valids = []" "drop (Suc k) encodes = []" using lengths by auto
    with True show ?thesis
      unfolding step element_accepts [OF Suc.prems] split_lists ex_store_Cons
      by (simp add: tuple_valid_def tuple_encode_def)
  next
    case False
    with Suc.prems have lt: "Suc k < length parses" by simp
    have "n = length parses - Suc k" using Suc.hyps(2) by simp
    note IH = Suc.hyps(1) [OF this lt]
    from False show ?thesis
      unfolding step IH element_accepts [OF Suc.prems] split_lists ex_store_Cons by auto
  qed
qed simp

lemma consumes_elements: "always_consumes (js_parse_elements store creations parses)"
  by (auto simp: always_consumes_def js_parse_elements_def Let_def
      split: js_parser.splits option.splits parse_result.splits prod.splits if_splits)

lemma sequence_contract:
  assumes "parses \<noteq> []"
    and result: "\<And>ws. length ws = length parses \<Longrightarrow> js_store_all store start 0 ws = f ws \<and> g (f ws) = ws"
  shows "byte_parser (Js_sequence start 0 (Some (inits ! 0))) (js_parse_elements store (map Some inits) parses)
    (\<lambda>v. f (g v) = v \<and> tuple_valid valids (g v)) (\<lambda>v. tuple_encode encodes (g v))"
proof
  show "always_consumes (js_parse_elements store (map Some inits) parses)" by (rule consumes_elements)
next
  fix bs v rest
  have "length ws = length parses" if "tuple_valid valids ws" for ws
    using that lengths by (simp add: tuple_valid_def list_all2_lengthD)
  then have "tuple_valid valids ws \<Longrightarrow> js_store_all store start 0 ws = f ws \<and> g (f ws) = ws" for ws
    using result by blast
  with assms(1) show "feed (js_parse_elements store (map Some inits) parses)
      (Js_sequence start 0 (Some (inits ! 0))) bs = Done v rest \<longleftrightarrow>
      (f (g v) = v \<and> tuple_valid valids (g v)) \<and> bs = tuple_encode encodes (g v) @ rest"
    using feed_elements_from [of 0 store start bs v rest] by simp metis
qed

end

text \<open>The template at elements that need no parser but that of an integer: tuples of integers.\<close>

interpretation js_integers: js_elements "map js_create_integer rs" "map js_integer_step rs"
  "map js_integer_ok rs" "map js_integer_encode rs" for rs
  by (rule js_elements.intro) (simp_all add: js_integer_step_contract)

lemma js_store_all_push: "js_store_all js_push (Js_array vs) k ws = Js_array (vs @ ws)"
  by (induction ws arbitrary: vs k) (simp_all add: js_push_def)

lemma js_assign_new: "name \<notin> fst ` set ms \<Longrightarrow> js_assign name v ms = ms @ [(name, v)]"
  by (induction ms) auto

lemma js_store_all_members:
  assumes "distinct names" and "length ws = length names - k" and "k \<le> length names" and "length vs = k"
  shows "js_store_all (js_set_member names) (Js_object (zip (take k names) vs)) k ws =
    Js_object (zip names (vs @ ws))"
  using assms
proof (induction ws arbitrary: vs k)
  case (Cons w ws)
  then have k: "k < length names" by simp
  then have "names ! k \<notin> set (take k names)"
    using Cons.prems(1) by (auto simp: in_set_conv_nth nth_eq_iff_index_eq)
  then have "names ! k \<notin> fst ` set (zip (take k names) vs)" by (auto dest: set_zip_leftD)
  then have "js_set_member names (Js_object (zip (take k names) vs)) k w =
      Js_object (zip (take (Suc k) names) (vs @ [w]))"
    using k Cons.prems by (simp add: js_set_member_def js_assign_new take_Suc_conv_app_nth)
  moreover have "js_store_all (js_set_member names) (Js_object (zip (take (Suc k) names) (vs @ [w]))) (Suc k) ws =
      Js_object (zip names ((vs @ [w]) @ ws))"
    using Cons.prems k by (intro Cons.IH) auto
  ultimately show ?case by simp
qed simp

subsection \<open>All types\<close>

text \<open>
  The types whose parsers work: without variants and vectors (the generator throws) and without
  empty tuples and structures (their parser is \<open>undefined\<close>).
\<close>

primrec js_parsable :: "wire_type \<Rightarrow> bool" where
  "js_parsable (Integer r) = True"
| "js_parsable (Variant ts) = False"
| "js_parsable (Tuple ts) = (ts \<noteq> [] \<and> list_all id (map js_parsable ts))"
| "js_parsable (Vector len t) = False"
| "js_parsable (Utf8 code_units) = True"
| "js_parsable (Structure es) =
     (es \<noteq> [] \<and> distinct (map element_name es) \<and>
      list_all id (map what (map (map_structure_element js_parsable) es)))"

definition js_array_elements :: "js_value \<Rightarrow> js_value list" where
  "js_array_elements v = (case v of Js_array vs \<Rightarrow> vs | _ \<Rightarrow> [])"

definition js_member_values :: "js_value \<Rightarrow> js_value list" where
  "js_member_values v = (case v of Js_object ms \<Rightarrow> map snd ms | _ \<Rightarrow> [])"

primrec js_ok :: "wire_type \<Rightarrow> js_value \<Rightarrow> bool" where
  "js_ok (Integer r) v = js_integer_ok r v"
| "js_ok (Variant ts) v = False"
| "js_ok (Tuple ts) v =
     (Js_array (js_array_elements v) = v \<and> tuple_valid (map js_ok ts) (js_array_elements v))"
| "js_ok (Vector len t) v = False"
| "js_ok (Utf8 code_units) v = js_string_ok code_units v"
| "js_ok (Structure es) v =
     (Js_object (zip (map element_name es) (js_member_values v)) = v \<and>
      tuple_valid (map what (map (map_structure_element js_ok) es)) (js_member_values v))"

primrec js_encode :: "wire_type \<Rightarrow> js_value \<Rightarrow> bytes" where
  "js_encode (Integer r) v = js_integer_encode r v"
| "js_encode (Variant ts) v = []"
| "js_encode (Tuple ts) v = tuple_encode (map js_encode ts) (js_array_elements v)"
| "js_encode (Vector len t) v = []"
| "js_encode (Utf8 code_units) v = js_string_encode code_units v"
| "js_encode (Structure es) v =
     tuple_encode (map what (map (map_structure_element js_encode) es)) (js_member_values v)"

lemma js_parsable_created: "js_parsable t \<Longrightarrow> js_create t = Some (the (js_create t))"
  by (cases t) simp_all

lemma js_parser_contract:
  "js_parsable t \<Longrightarrow> byte_parser (the (js_create t)) (js_step_of t) (js_ok t) (js_encode t)"
proof (induction t)
  case (Tuple ts)
  let ?inits = "map (the \<circ> js_create) ts"
  have each: "i < length ts \<Longrightarrow> js_parsable (ts ! i)" for i
    using Tuple.prems by (simp add: list_all_length)
  then have created: "map js_create ts = map Some ?inits"
    by (auto simp: in_set_conv_nth intro!: js_parsable_created)
  have "js_elements ?inits (map js_step_of ts) (map js_ok ts) (map js_encode ts)"
    using Tuple.IH each by (intro js_elements.intro) simp_all
  then have "byte_parser (Js_sequence (Js_array []) 0 (Some (?inits ! 0)))
      (js_parse_elements js_push (map Some ?inits) (map js_step_of ts))
      (\<lambda>v. Js_array (js_array_elements v) = v \<and> tuple_valid (map js_ok ts) (js_array_elements v))
      (\<lambda>v. tuple_encode (map js_encode ts) (js_array_elements v))"
    using Tuple.prems by (intro js_elements.sequence_contract)
      (simp_all add: js_store_all_push js_array_elements_def)
  moreover have "the (js_create (Tuple ts)) = Js_sequence (Js_array []) 0 (Some (?inits ! 0))"
    using Tuple.prems js_parsable_created [OF each [of 0]] by (simp add: hd_map hd_conv_nth)
  ultimately show ?case
    unfolding js_step_of.simps created [symmetric] by (simp only:) (erule byte_parser_cong, simp_all)
next
  case (Structure es)
  let ?inits = "map (the \<circ> js_create \<circ> what) es"
  let ?parses = "map what (map (map_structure_element js_step_of) es)"
  let ?valids = "map what (map (map_structure_element js_ok) es)"
  let ?encodes = "map what (map (map_structure_element js_encode) es)"
  let ?f = "\<lambda>ws. Js_object (zip (map element_name es) ws)"
  have each: "i < length es \<Longrightarrow> js_parsable (what (es ! i))" for i
    using Structure.prems by (simp add: list_all_length structure_element.map_sel)
  then have created: "map (js_create \<circ> what) es = map Some ?inits"
    by (auto simp: in_set_conv_nth intro!: js_parsable_created)
  have "js_elements ?inits ?parses ?valids ?encodes"
    using Structure.IH [OF nth_mem] each
    by (intro js_elements.intro) (simp_all add: structure_element.map_sel structure_element.set_sel)
  then have "byte_parser (Js_sequence (Js_object []) 0 (Some (?inits ! 0)))
      (js_parse_elements (js_set_member (map element_name es)) (map Some ?inits) ?parses)
      (\<lambda>v. ?f (js_member_values v) = v \<and> tuple_valid ?valids (js_member_values v))
      (\<lambda>v. tuple_encode ?encodes (js_member_values v))"
    using Structure.prems js_store_all_members [of "map element_name es" _ 0 "[]"]
    by (intro js_elements.sequence_contract) (simp_all add: js_member_values_def)
  moreover have "the (js_create (Structure es)) = Js_sequence (Js_object []) 0 (Some (?inits ! 0))"
    using Structure.prems js_parsable_created [OF each [of 0]]
    by (simp add: hd_map hd_conv_nth structure_element.map_sel)
  ultimately show ?case
    unfolding js_step_of.simps created [symmetric] by (simp only:) (erule byte_parser_cong, simp_all)
qed (simp_all add: js_integer_step_contract js_utf8_contract byte_parser_cong [OF js_integer_step_contract]
    byte_parser_cong [OF js_utf8_contract])

subsection \<open>What the C++ side writes\<close>

text \<open>The value of JavaScript for a value of C++.\<close>

primrec js_value_of :: "wire_type \<Rightarrow> wire_value \<Rightarrow> js_value" where
  "js_value_of (Integer r) v = js_number_of (parser_bits r) v"
| "js_value_of (Variant ts) v = Js_array []"
| "js_value_of (Tuple ts) v = Js_array (map2 (\<lambda>f w. f w) (map js_value_of ts) (the_tuple v))"
| "js_value_of (Vector len t) v = Js_array []"
| "js_value_of (Utf8 code_units) v = Js_string (the_string v)"
| "js_value_of (Structure es) v =
     Js_object (zip (map element_name es)
       (map2 (\<lambda>f w. f w) (map what (map (map_structure_element js_value_of) es)) (the_structure v)))"

text \<open>The values that JavaScript can read.\<close>

primrec js_readable :: "wire_type \<Rightarrow> wire_value \<Rightarrow> bool" where
  "js_readable (Integer r) v = (parser_bits r = Uint32 \<longrightarrow> value_size v < 2 ^ 31)"
| "js_readable (Variant ts) v = False"
| "js_readable (Tuple ts) v = list_all2 (\<lambda>p w. p w) (map js_readable ts) (the_tuple v)"
| "js_readable (Vector len t) v = False"
| "js_readable (Utf8 code_units) v =
     (the_string v \<noteq> [] \<and> length (the_string v) < 2 ^ 31 \<and> parser_bits code_units \<noteq> Uint64)"
| "js_readable (Structure es) v =
     list_all2 (\<lambda>p w. p w) (map what (map (map_structure_element js_readable) es)) (the_structure v)"

lemma sint_small:
  assumes "unat (w :: u32) < 2 ^ 31"
  shows "sint w = uint w"
proof -
  have "uint w < int (2 ^ 31)" using assms by (metis of_nat_less_iff of_nat_unat)
  moreover have "- (2 ^ 31) \<le> uint w" by (rule order_trans [OF _ uint_nonnegative]) simp
  ultimately have "signed_take_bit 31 (uint w) = uint w" by (intro signed_take_bit_int_eq_self) simp_all
  then show ?thesis by (simp add: sint_uint)
qed

lemma sint_ucast_small:
  assumes "LENGTH('v) < 32"
  shows "sint (ucast (w :: 'v::len word) :: u32) = uint w"
proof -
  have "unat w < 2 ^ LENGTH('v)" by (rule unsigned_less)
  also have "\<dots> \<le> 2 ^ 31" using assms by (intro power_increasing) simp_all
  finally have small: "unat w < 2 ^ 31" .
  then have u: "unat (ucast w :: u32) = unat w"
    by (simp add: unsigned_ucast_eq take_bit_nat_eq_self)
  with small have "sint (ucast w :: u32) = uint (ucast w :: u32)" by (simp add: sint_small)
  with u show ?thesis by (metis of_nat_unat)
qed

lemma uint_le_uint: "uint (v :: 'v::len word) \<le> uint (w :: 'w::len word) \<longleftrightarrow> unat v \<le> unat w"
proof -
  have "int (unat v) = uint v" "int (unat w) = uint w" by simp_all
  then show ?thesis by (simp only: of_nat_le_iff flip: \<open>int (unat v) = uint v\<close> \<open>int (unat w) = uint w\<close>)
qed

lemma js_number_of_small:
  assumes "is_uint u v" and "u = Uint32 \<Longrightarrow> value_size v < 2 ^ 31" and "u \<noteq> Uint64"
  shows "js_number_of u v = Js_number (int (value_size v))"
  using assms by (cases u; cases v) (simp_all add: js_number_of_def sint_ucast_small sint_small)

lemma js_integer_encoded:
  assumes "is_uint (parser_bits r) v" and "unat (minimum r) \<le> value_size v" "value_size v \<le> unat (maximum r)"
    and "parser_bits r = Uint32 \<Longrightarrow> value_size v < 2 ^ 31"
  shows "js_integer_ok r (js_number_of (parser_bits r) v) \<and>
    js_integer_encode r (js_number_of (parser_bits r) v) = uint_encode (parser_bits r) v"
proof (cases "parser_bits r = Uint64")
  case True
  with assms(1) obtain w where "v = V_uint64 w" by (cases v) auto
  with True have "js_integer_ok r (js_number_of (parser_bits r) v)"
    unfolding js_integer_ok_def by (intro exI [of _ v]) (simp add: js_number_of_def)
  then show ?thesis
    using True \<open>v = V_uint64 w\<close> by (simp add: js_integer_encode_def js_number_of_def write_integer_64)
next
  case False
  have n: "js_number_of (parser_bits r) v = Js_number (int (value_size v))"
    using assms(1,4) False by (rule js_number_of_small)
  have "js_integer_ok r (js_number_of (parser_bits r) v)"
    unfolding js_integer_ok_def
    using assms(1-3) n False
    by (intro exI [of _ v]) (cases "parser_bits r"; cases v; simp add: uint_le_uint)
  moreover have "js_integer_encode r (Js_number (int (value_size v))) = uint_encode (parser_bits r) v"
    using assms(1) False by (cases "parser_bits r"; cases v) (simp_all add: js_integer_encode_def)
  ultimately show ?thesis by (simp add: n)
qed

lemma js_string_number:
  assumes "size_fits (parser_bits r) n" "n < 2 ^ 31" "parser_bits r \<noteq> Uint64"
  shows "js_number_of (parser_bits r) (uint_value (parser_bits r) n) = Js_number (int n)"
proof -
  have "is_uint (parser_bits r) (uint_value (parser_bits r) n)" "value_size (uint_value (parser_bits r) n) = n"
    using assms(1) unfolding representable_uint [symmetric] representable_def by simp_all
  with assms(2,3) show ?thesis by (subst js_number_of_small) simp_all
qed

lemma js_value_encoded:
  "js_parsable t \<Longrightarrow> has_type t v \<Longrightarrow> serialize is_valid t v = (w, Completed) \<Longrightarrow> js_readable t v \<Longrightarrow>
   js_ok t (js_value_of t v) \<and> w = js_encode t (js_value_of t v)"
proof (induction t arbitrary: v w)
  case (Integer r)
  then show ?case
    using serialize_integer_Completed [of r "value_size v" w] js_integer_encoded [of r v]
    by (simp add: parser_bits_suitable uint_value_size)
next
  case (Tuple ts)
  from Tuple.prems obtain vs where v: "v = V_tuple vs" "length vs = length ts"
    and each: "\<And>i. i < length ts \<Longrightarrow> has_type (ts ! i) (vs ! i) \<and> js_readable (ts ! i) (vs ! i) \<and> js_parsable (ts ! i)"
    by (cases v) (auto simp: list_all2_conv_all_nth list_all_length)
  from Tuple.prems(3) have completed: "i < length ts \<Longrightarrow>
      serialize is_valid (ts ! i) (vs ! i) = (fst (serialize is_valid (ts ! i) (vs ! i)), Completed)"
    and w: "w = concat (map fst (map2 (\<lambda>f w. f w) (map (serialize is_valid) ts) vs))" for i
    using v unfolding serialize.simps in_sequence_Completed
    by (auto simp: list_all_length prod_eq_iff)
  have ok: "js_ok (ts ! i) (js_value_of (ts ! i) (vs ! i)) \<and>
      fst (serialize is_valid (ts ! i) (vs ! i)) = js_encode (ts ! i) (js_value_of (ts ! i) (vs ! i))"
    if "i < length ts" for i
    using each completed that by (intro Tuple.IH) auto
  then have "map fst (map2 (\<lambda>f w. f w) (map (serialize is_valid) ts) vs) =
      map2 (\<lambda>e v. e v) (map js_encode ts) (map2 (\<lambda>f w. f w) (map js_value_of ts) vs)"
    using v by (intro nth_equalityI) auto
  then show ?case
    using v w ok by (auto simp: js_array_elements_def tuple_valid_def tuple_encode_def list_all2_conv_all_nth)
next
  case (Utf8 code_units)
  then obtain s where v: "v = V_string s" by (cases v) auto
  from Utf8.prems(3) obtain w1 where w1: "serialize_integer code_units (length s) = (w1, Completed)" "w = w1 @ s"
    unfolding v serialize.simps wire_value.sel in_sequence_Completed_Cons by auto
  note c = serialize_integer_Completed [OF w1(1)]
  from Utf8.prems(4) v have s: "s \<noteq> []" "length s < 2 ^ 31" "parser_bits code_units \<noteq> Uint64" by simp_all
  have n: "js_number_of (parser_bits code_units) (uint_value (parser_bits code_units) (length s)) = Js_number (int (length s))"
    using c(2) s(2,3) by (rule js_string_number)
  have "js_integer_ok code_units (Js_number (int (length s))) \<and>
      js_integer_encode code_units (Js_number (int (length s))) = w1"
    unfolding c(1) n [symmetric]
    using c s by (intro js_integer_encoded) (auto simp: representable_uint [symmetric] representable_def)
  then show ?case
    using v w1(2) s(1) by (simp add: js_string_ok_def js_string_encode_def)
next
  case (Structure es)
  from Structure.prems obtain vs where v: "v = V_structure vs" "length vs = length es"
    and each: "\<And>i. i < length es \<Longrightarrow> has_type (what (es ! i)) (vs ! i) \<and> js_readable (what (es ! i)) (vs ! i) \<and>
      js_parsable (what (es ! i))"
    by (cases v) (auto simp: list_all2_conv_all_nth list_all_length structure_element.map_sel)
  from Structure.prems(3) have completed: "i < length es \<Longrightarrow>
      serialize is_valid (what (es ! i)) (vs ! i) = (fst (serialize is_valid (what (es ! i)) (vs ! i)), Completed)"
    and w: "w = concat (map fst (map2 (\<lambda>f w. f w)
      (map what (map (map_structure_element (serialize is_valid)) es)) vs))" for i
    using v unfolding serialize.simps in_sequence_Completed
    by (auto simp: list_all_length prod_eq_iff structure_element.map_sel)
  have ok: "js_ok (what (es ! i)) (js_value_of (what (es ! i)) (vs ! i)) \<and>
      fst (serialize is_valid (what (es ! i)) (vs ! i)) =
        js_encode (what (es ! i)) (js_value_of (what (es ! i)) (vs ! i))"
    if "i < length es" for i
    using each completed that by (intro Structure.IH [OF nth_mem [OF that]]) (auto simp: structure_element.set_sel)
  then have "map fst (map2 (\<lambda>f w. f w) (map what (map (map_structure_element (serialize is_valid)) es)) vs) =
      map2 (\<lambda>e v. e v) (map what (map (map_structure_element js_encode) es))
        (map2 (\<lambda>f w. f w) (map what (map (map_structure_element js_value_of) es)) vs)"
    using v by (intro nth_equalityI) (auto simp: structure_element.map_sel)
  then show ?case
    using v w ok
    by (auto simp: js_member_values_def tuple_valid_def tuple_encode_def list_all2_conv_all_nth structure_element.map_sel)
qed simp_all

subsection \<open>Properties\<close>

lemma feed_js_integer_exact:
  assumes "parsed < n" and "n = 1 \<longrightarrow> r = 0" and "length bs = n - parsed"
  shows "feed (js_parse_integer n low high) (Js_integer r parsed) bs =
    (if low \<le> sint (accumulate bs r) \<and> sint (accumulate bs r) \<le> high
     then Done (Js_number (sint (accumulate bs r))) [] else Failed)"
  using assms
proof (induction bs arbitrary: r parsed)
  case (Cons b bs)
  have step: "(if n > 1 then push_bit 8 r else r) = push_bit 8 r" using Cons.prems by auto
  show ?case
  proof (cases "Suc parsed = n")
    case True
    with Cons.prems step show ?thesis by (auto simp: js_parse_integer_def Let_def)
  next
    case False
    with Cons.prems have "Suc parsed < n" "length bs = n - Suc parsed" by simp_all
    with False step Cons.IH [of "Suc parsed" "push_bit 8 r OR ucast b"] show ?thesis
      by (simp add: js_parse_integer_def Let_def)
  qed
qed simp

lemma sint_large:
  assumes "2 ^ 31 \<le> unat (w :: u32)"
  shows "sint w < 0"
proof (rule ccontr)
  assume "\<not> sint w < 0"
  moreover have "sint w < 2 ^ 31" using sint_lt [of w] by simp
  ultimately have "take_bit 32 (sint w) = sint w" by (intro take_bit_int_eq_self) simp_all
  then have "uint w = sint w" by (simp add: uint_sint)
  with \<open>sint w < 2 ^ 31\<close> have "uint w < int (2 ^ 31)" by simp
  then have "unat w < 2 ^ 31" by (metis of_nat_less_iff of_nat_unat)
  with assms show False by simp
qed

lemma js_parser_reads_serialized_octets:
  assumes "js_parsable t" and "has_type t v" and "js_readable t v"
    and "serialize is_valid t v = (w, Completed)"
  shows "feed (js_step_of t) (the (js_create t)) (w @ rest) = Done (js_value_of t v) rest"
proof -
  from assms have "js_ok t (js_value_of t v) \<and> w = js_encode t (js_value_of t v)" by (intro js_value_encoded)
  then show ?thesis using byte_parser.accepts_encode [OF js_parser_contract [OF assms(1)]] by blast
qed

text \<open>C25: What the C++ side writes for a value of a type that the JavaScript generator supports is
  parsed by the generated JavaScript parser of the type to the value of JavaScript that
  corresponds, as far as JavaScript can read the value: no 4 octet integer of \<open>2 ^ 31\<close> or more, no
  empty string, no string of \<open>2 ^ 31\<close> octets or with a length of 8 octets. The octets that follow are
  left.\<close>

theorem js_parser_reads_serialized:
  assumes "js_parsable t" and "has_type t v" and "js_readable t v"
    and "serialize is_valid t v = (w, Completed)"
  shows "feed (js_step_of t) (the (js_create t)) (w @ rest) = Done (js_value_of t v) rest"
  using assms by (rule js_parser_reads_serialized_octets)

abbreviation js_example_type :: wire_type where
  "js_example_type \<equiv> Structure [Element (Integer (Integer_range 0 4294967295)) ''count'',
     Element (Tuple [Utf8 (Integer_range 0 255), Integer (Integer_range 0 18446744073709551615)]) ''entry'']"

abbreviation js_example_value :: wire_value where
  "js_example_value \<equiv> V_structure [V_uint32 258, V_tuple [V_string [104, 105], V_uint64 4294967297]]"

theorem js_parser_reads_serialized_witness:
  "feed (js_step_of js_example_type) (the (js_create js_example_type))
     ([0, 0, 1, 2, 2, 104, 105, 0, 0, 0, 1, 0, 0, 0, 1] @ [7]) =
   Done (js_value_of js_example_type js_example_value) [7]"
proof -
  have "js_parsable js_example_type" "has_type js_example_type js_example_value" by code_simp+
  moreover have "js_readable js_example_type js_example_value" by (simp add: parser_bits_def)
  moreover have "serialize (\<lambda>s. True) js_example_type js_example_value =
    ([0, 0, 1, 2, 2, 104, 105, 0, 0, 0, 1, 0, 0, 0, 1], Completed)"
  proof -
    have "write_integer (258 :: u32) = [0, 0, 1, 2]" "write_integer (2 :: u8) = [2]"
      "write_integer (4294967297 :: u64) = [0, 0, 0, 1, 0, 0, 0, 1]" by code_simp+
    then show ?thesis by (simp add: serialize_integer_def parser_bits_def)
  qed
  ultimately show ?thesis by (intro js_parser_reads_serialized)
qed

text \<open>C33: An integer of 4 octets is read by JavaScript exactly when it is in the range of the type and
  below \<open>2 ^ 31\<close>: the operators \<open><<=\<close> and \<open>|=\<close> give signed 32 bit integers, so a larger integer
  is read as a negative number and rejected as out of range, although the C++ side sends it.\<close>

theorem js_four_octet_integers:
  assumes "parser_bits r = Uint32"
  shows "feed (js_step_of (Integer r)) (the (js_create (Integer r))) (write_integer (w :: u32)) =
    (if unat (minimum r) \<le> unat w \<and> unat w \<le> unat (maximum r) \<and> unat w < 2 ^ 31
     then Done (Js_number (int (unat w))) [] else Failed)"
proof -
  have n: "find_number_of_bytes_required (maximum r) = 4" by (simp add: bytes_required assms)
  have l: "length (write_integer w) = 4" by (simp add: sizeof_def)
  have acc: "accumulate (write_integer w) 0 = w" by (rule uint32.accumulate_write_integer)
  have "feed (js_step_of (Integer r)) (the (js_create (Integer r))) (write_integer w) =
      (if uint (minimum r) \<le> sint w \<and> sint w \<le> uint (maximum r) then Done (Js_number (sint w)) [] else Failed)"
    using feed_js_integer_exact [of 0 4 0 "write_integer w" "uint (minimum r)" "uint (maximum r)"] l
    by (simp add: js_integer_step_def js_create_integer_def n acc)
  also have "\<dots> = (if unat (minimum r) \<le> unat w \<and> unat w \<le> unat (maximum r) \<and> unat w < 2 ^ 31
     then Done (Js_number (int (unat w))) [] else Failed)"
  proof (cases "unat w < 2 ^ 31")
    case True
    then show ?thesis by (simp add: sint_small uint_le_uint)
  next
    case False
    then have "sint w < 0" by (intro sint_large) simp
    then have "\<not> uint (minimum r) \<le> sint w" using uint_nonnegative [of "minimum r"] by linarith
    with False show ?thesis by simp
  qed
  finally show ?thesis .
qed

theorem js_four_octet_integers_witness:
  "feed (js_step_of (Integer (Integer_range 0 4294967295))) (the (js_create (Integer (Integer_range 0 4294967295))))
     (write_integer (2147483648 :: u32)) = Failed"
proof -
  have "parser_bits (Integer_range 0 4294967295) = Uint32" by code_simp
  from js_four_octet_integers [OF this, of 2147483648] show ?thesis by simp
qed

lemma feed_js_no_content:
  "feed (js_parse_utf8 p) (Js_utf8_content [] k) bs = Pending (Js_utf8_content [] (k + length bs))"
  by (induction bs arbitrary: k) (simp_all add: js_parse_utf8_def)

text \<open>C34: The parser of strings in JavaScript never completes for an empty string, nor for any string
  whose length has 8 octets: it looks at the length of the content only after another octet, and
  an 8 octet length is an object that \<open>ArrayBuffer\<close> takes for 0. Whatever the C++ side sends after
  such a string is swallowed.\<close>

theorem js_string_never_completes:
  assumes "serialize is_valid (Utf8 code_units) (V_string s) = (w, Completed)"
    and "s = [] \<or> parser_bits code_units = Uint64"
  shows "\<exists>p. feed (js_step_of (Utf8 code_units)) (the (js_create (Utf8 code_units))) (w @ bs) = Pending p"
proof -
  let ?u = "parser_bits code_units"
  let ?n = "uint_value ?u (length s)"
  from assms(1) obtain w1 where w: "serialize_integer code_units (length s) = (w1, Completed)" "w = w1 @ s"
    unfolding serialize.simps wire_value.sel in_sequence_Completed_Cons by auto
  note c = serialize_integer_Completed [OF w(1)]
  from c(2) have u: "is_uint ?u ?n" "value_size ?n = length s"
    unfolding representable_uint [symmetric] representable_def by simp_all
  with c assms(2) have enc: "js_integer_ok code_units (js_number_of ?u ?n)"
    "js_integer_encode code_units (js_number_of ?u ?n) = w1"
    using js_integer_encoded [of code_units ?n] by auto
  have consumes: "always_consumes (js_integer_step code_units)"
    by (rule byte_parser.consumes [OF js_integer_step_contract])
  have "feed (js_integer_step code_units) (js_create_integer code_units) (w @ bs) =
      Done (js_number_of ?u ?n) (s @ bs)"
    using byte_parser.accepts_encode [OF js_integer_step_contract enc(1), of "s @ bs"] enc(2) w(2) by simp
  moreover have "js_array_buffer (js_number_of ?u ?n) = []"
  proof (cases "?u = Uint64")
    case False
    with assms(2) u show ?thesis by (subst js_number_of_small) (auto simp: js_array_buffer_def)
  qed (simp add: js_number_of_def js_array_buffer_def)
  ultimately have "feed (js_step_of (Utf8 code_units)) (the (js_create (Utf8 code_units))) (w @ bs) =
      Pending (Js_utf8_content [] (0 + length (s @ bs)))"
    unfolding js_step_of.simps js_create.simps option.sel
    by (subst feed_delegates [OF delegates_js_length [OF consumes] consumes])
      (simp_all only: feed_js_no_content prod.case feed_result.case parse_result.case prod.sel, simp_all)
  then show ?thesis by blast
qed

theorem js_string_never_completes_witness:
  "\<exists>p. feed (js_step_of (Utf8 (Integer_range 0 255))) (the (js_create (Utf8 (Integer_range 0 255))))
     ([0] @ [1, 2, 3]) = Pending p"
proof -
  have "serialize (\<lambda>s. True) (Utf8 (Integer_range 0 255)) (V_string []) = ([0], Completed)" by code_simp
  from js_string_never_completes [OF this] show ?thesis by blast
qed

end
