(* ===== verification/Js_Client.thy ===== *)
theory Js_Client
  imports Js_Parser Remote_Calls
begin

text \<open>
  What the generated JavaScript does with messages (\<open>generate_serialization\<close>,
  \<open>generate_size_of_value\<close>, \<open>generate_client\<close>, \<open>generate_input_receiver\<close>,
  \<open>generate_request_parsing\<close> and \<open>generate_response_parsing\<close> of \<open>warpcoil/javascript.hpp\<close>).
  \<^item> A statement of the serialisation writes into an \<open>ArrayBuffer\<close>; an offset is a number or
    \<open>undefined\<close> (\<open>None\<close>, and so is the \<open>NaN\<close> that comes of calculating with it), which a
    \<open>DataView\<close> and \<open>set\<close> take for 0.
  \<^item> The variable \<open>offset\<close> of the function around a tuple or structure is hoisted: inside of
    another one, where the offset is the expression \<open>offset\<close>, its initial value is \<open>undefined\<close>.
  \<^item> The receiver is a closure that takes an octet; \<open>js_receiver\<close> are the states that its
    variable \<open>state\<close> goes through.
  The names of the interface are taken to be identifiers that do not occur in the generated code.
  A client of JavaScript and a server of C++ understand each other, and the other way round:
  requests and responses have the octets of the C++ side, and the receiver takes those of the
  C++ side, for the types and values within the limits of the JavaScript code.
\<close>

subsection \<open>Writing into an \<open>ArrayBuffer\<close>\<close>

datatype js_error =
    Js_range_error
  | Js_type_error                  \<comment> \<open>a call of \<open>undefined\<close>\<close>
  | Js_thrown                      \<comment> \<open>\<open>throw new Error\<close>\<close>
  | Js_other_type                  \<comment> \<open>an argument of another type, from which the model does not continue\<close>

type_synonym js_offset = "nat option"

definition js_index :: "js_offset \<Rightarrow> nat" where
  "js_index offset = (case offset of None \<Rightarrow> 0 | Some i \<Rightarrow> i)"

definition js_plus :: "js_offset \<Rightarrow> nat \<Rightarrow> js_offset" where
  "js_plus offset n = map_option (\<lambda>i. i + n) offset"

definition js_set :: "js_offset \<Rightarrow> bytes \<Rightarrow> bytes \<Rightarrow> js_error + bytes" where
  "js_set offset source destination =
     (let i = js_index offset
      in if i + length source \<le> length destination
         then Inr (take i destination @ source @ drop (i + length source) destination)
         else Inl Js_range_error)"

text \<open>
  The integers. A number where an object with \<open>high\<close> and \<open>low\<close> is expected has neither: twice
  \<open>undefined\<close> is written, which is 0.
\<close>

definition js_serialize_integer ::
  "integer_range \<Rightarrow> js_value \<Rightarrow> js_offset \<Rightarrow> bytes \<Rightarrow> js_error + bytes" where
  "js_serialize_integer r v offset destination =
     (let n = find_number_of_bytes_required (maximum r)
      in case v of
           Js_number k \<Rightarrow>
             if n = 1 then js_set offset (write_integer (word_of_int k :: u8)) destination
             else if n = 2 then js_set offset (write_integer (word_of_int k :: u16)) destination
             else if n = 4 then js_set offset (write_integer (word_of_int k :: u32)) destination
             else (case js_set offset (write_integer (0 :: u32)) destination of
                     Inl e \<Rightarrow> Inl e
                   | Inr destination \<Rightarrow> js_set (js_plus offset 4) (write_integer (0 :: u32)) destination)
         | Js_high_low h l \<Rightarrow>
             if n = 8
             then (case js_set offset (write_integer (word_of_int h :: u32)) destination of
                     Inl e \<Rightarrow> Inl e
                   | Inr destination \<Rightarrow>
                       js_set (js_plus offset 4) (write_integer (word_of_int l :: u32)) destination)
             else Inl Js_other_type
         | _ \<Rightarrow> Inl Js_other_type)"

definition js_members :: "ident list \<Rightarrow> js_value \<Rightarrow> js_value list option" where
  "js_members names v =
     (case v of Js_object members \<Rightarrow> those (map (map_of members) names) | _ \<Rightarrow> None)"

text \<open>
  \<open>generate_size_of_value\<close>; the size of a vector is not needed, since the serialisation of a vector
  throws \<open>std::logic_error\<close> and nothing is generated.
\<close>

fun js_sizes :: "(js_value \<Rightarrow> js_error + nat) list \<Rightarrow> js_value list \<Rightarrow> js_error + nat" where
  "js_sizes [] [] = Inr 0"
| "js_sizes (f # fs) (v # vs) =
     (case f v of
        Inl e \<Rightarrow> Inl e
      | Inr n \<Rightarrow> (case js_sizes fs vs of Inl e \<Rightarrow> Inl e | Inr m \<Rightarrow> Inr (n + m)))"
| "js_sizes fs vs = Inl Js_other_type"

primrec js_size_of_value :: "wire_type \<Rightarrow> js_value \<Rightarrow> js_error + nat" where
  "js_size_of_value (Integer r) = (\<lambda>v. Inr (find_number_of_bytes_required (maximum r)))"
| "js_size_of_value (Variant ts) = (\<lambda>v. Inl Js_other_type)"
| "js_size_of_value (Tuple ts) =
     (\<lambda>v. case v of Js_array vs \<Rightarrow> js_sizes (map js_size_of_value ts) vs | _ \<Rightarrow> Inl Js_other_type)"
| "js_size_of_value (Vector len t) = (\<lambda>v. Inl Js_other_type)"
| "js_size_of_value (Utf8 code_units) =
     (\<lambda>v. case v of
        Js_string s \<Rightarrow> Inr (find_number_of_bytes_required (maximum code_units) + length s)
      | _ \<Rightarrow> Inl Js_other_type)"
| "js_size_of_value (Structure es) =
     (\<lambda>v. case js_members (map element_name es) v of
        Some vs \<Rightarrow> js_sizes (map what (map (map_structure_element js_size_of_value) es)) vs
      | None \<Rightarrow> Inl Js_other_type)"

text \<open>
  \<open>generate_serialization\<close>; \<open>shadowed\<close> says that the offset is the expression \<open>offset\<close>. Each
  element of a tuple or structure is written at \<open>offset\<close>, to which its size is added then.
\<close>

fun js_serialize_elements ::
  "(js_value \<Rightarrow> bool \<Rightarrow> js_offset \<Rightarrow> bytes \<Rightarrow> js_error + bytes) list \<Rightarrow> (js_value \<Rightarrow> js_error + nat) list \<Rightarrow>
    js_value list \<Rightarrow> js_offset \<Rightarrow> bytes \<Rightarrow> js_error + bytes" where
  "js_serialize_elements [] gs [] offset destination = Inr destination"
| "js_serialize_elements (f # fs) (g # gs) (v # vs) offset destination =
     (case f v True offset destination of
        Inl e \<Rightarrow> Inl e
      | Inr destination \<Rightarrow>
          (case g v of
             Inl e \<Rightarrow> Inl e
           | Inr n \<Rightarrow> js_serialize_elements fs gs vs (js_plus offset n) destination))"
| "js_serialize_elements fs gs vs offset destination = Inl Js_other_type"

primrec js_serialize :: "wire_type \<Rightarrow> js_value \<Rightarrow> bool \<Rightarrow> js_offset \<Rightarrow> bytes \<Rightarrow> js_error + bytes" where
  "js_serialize (Integer r) = (\<lambda>v shadowed. js_serialize_integer r v)"
| "js_serialize (Variant ts) = (\<lambda>v shadowed offset destination. Inl Js_other_type)"
| "js_serialize (Tuple ts) = (\<lambda>v shadowed offset destination.
     if ts = [] then Inr destination
     else case v of
       Js_array vs \<Rightarrow>
         js_serialize_elements (map js_serialize ts) (map js_size_of_value ts) vs
           (if shadowed then None else offset) destination
     | _ \<Rightarrow> Inl Js_other_type)"
| "js_serialize (Vector len t) = (\<lambda>v shadowed offset destination. Inl Js_other_type)"
| "js_serialize (Utf8 code_units) = (\<lambda>v shadowed offset destination.
     case v of
       Js_string s \<Rightarrow>
         (case js_serialize_integer code_units (Js_number (int (length s))) offset destination of
            Inl e \<Rightarrow> Inl e
          | Inr destination \<Rightarrow>
              js_set (js_plus offset (find_number_of_bytes_required (maximum code_units))) s destination)
     | _ \<Rightarrow> Inl Js_other_type)"
| "js_serialize (Structure es) = (\<lambda>v shadowed offset destination.
     if es = [] then Inr destination
     else case js_members (map element_name es) v of
       Some vs \<Rightarrow>
         js_serialize_elements (map what (map (map_structure_element js_serialize) es))
           (map what (map (map_structure_element js_size_of_value) es)) vs
           (if shadowed then None else offset) destination
     | None \<Rightarrow> Inl Js_other_type)"

subsection \<open>The client\<close>

abbreviation id_range :: integer_range where
  "id_range \<equiv> Integer_range 0 18446744073709551615"

abbreviation octet_range :: integer_range where
  "octet_range \<equiv> Integer_range 0 255"

text \<open>The parameters one after the other, from \<open>write_pointer\<close> on.\<close>

fun js_serialize_parameters ::
  "wire_type list \<Rightarrow> js_value list \<Rightarrow> nat \<Rightarrow> bytes \<Rightarrow> js_error + bytes" where
  "js_serialize_parameters [] [] write_pointer request_buffer = Inr request_buffer"
| "js_serialize_parameters (t # ts) (v # vs) write_pointer request_buffer =
     (case js_serialize t v False (Some write_pointer) request_buffer of
        Inl e \<Rightarrow> Inl e
      | Inr request_buffer \<Rightarrow>
          (case js_size_of_value t v of
             Inl e \<Rightarrow> Inl e
           | Inr n \<Rightarrow> js_serialize_parameters ts vs (write_pointer + n) request_buffer))"
| "js_serialize_parameters ts vs write_pointer request_buffer = Inl Js_other_type"

definition js_build_request ::
  "ident \<Rightarrow> wire_type list \<Rightarrow> js_value list \<Rightarrow> nat \<Rightarrow> js_error + bytes" where
  "js_build_request name ts arguments request_id =
     (let literal = Js_string (map of_char name)
      in case js_sizes (map js_size_of_value ts) arguments of
           Inl e \<Rightarrow> Inl e
         | Inr n \<Rightarrow>
      case js_serialize_integer octet_range (Js_number 0) (Some 0) (replicate (1 + 8 + 1 + length name + n) 0) of
        Inl e \<Rightarrow> Inl e
      | Inr request_buffer \<Rightarrow>
      case js_serialize_integer id_range (Js_high_low 0 (int request_id)) (Some 1) request_buffer of
        Inl e \<Rightarrow> Inl e
      | Inr request_buffer \<Rightarrow>
      case js_serialize (Utf8 octet_range) literal False (Some (1 + 8)) request_buffer of
        Inl e \<Rightarrow> Inl e
      | Inr request_buffer \<Rightarrow>
      case js_size_of_value (Utf8 octet_range) literal of
        Inl e \<Rightarrow> Inl e
      | Inr m \<Rightarrow> js_serialize_parameters ts arguments (1 + 8 + m) request_buffer)"

text \<open>The callback that the server of JavaScript gets: the response to a request.\<close>

definition js_build_response :: "js_value \<Rightarrow> wire_type \<Rightarrow> js_value \<Rightarrow> js_error + bytes" where
  "js_build_response request_id t result =
     (case js_size_of_value t result of
        Inl e \<Rightarrow> Inl e
      | Inr n \<Rightarrow>
      case js_serialize_integer octet_range (Js_number 1) (Some 0) (replicate (1 + 8 + n) 0) of
        Inl e \<Rightarrow> Inl e
      | Inr request_buffer \<Rightarrow>
      case js_serialize_integer id_range request_id (Some 1) request_buffer of
        Inl e \<Rightarrow> Inl e
      | Inr request_buffer \<Rightarrow> js_serialize t result False (Some (1 + 8)) request_buffer)"

text \<open>
  \<open>pending_requests\<close>, a map from \<open>JSON.stringify\<close> of an identifier to the parser of the result
  and the handler; \<open>send_bytes\<close> gets the octets that \<open>js_call_method\<close> returns.
\<close>

type_synonym 'h js_pending = "js_value \<rightharpoonup> wire_type \<times> 'h"

definition js_call_method ::
  "interface_definition \<Rightarrow> ident \<Rightarrow> js_value list \<Rightarrow> 'h \<Rightarrow> nat \<times> 'h js_pending \<Rightarrow>
    js_error + bytes \<times> nat \<times> 'h js_pending" where
  "js_call_method d name arguments on_result c =
     (case c of (next_id, waiting) \<Rightarrow>
        case std_map_find name (methods d) of
          None \<Rightarrow> Inl Js_type_error
        | Some m \<Rightarrow>
            (case js_build_request name (map parameter_type (parameters m)) arguments next_id of
               Inl e \<Rightarrow> Inl e
             | Inr request \<Rightarrow>
                 Inr (request, Suc next_id,
                   waiting(Js_high_low 0 (int next_id) \<mapsto> (method_result m, on_result)))))"

subsection \<open>The receiver\<close>

datatype 'h js_receiver =
    Js_initial_state
  | Js_request_id js_parser
  | Js_method_name js_value js_parser
  | Js_parameters js_value ident "wire_type list" "js_parser option"
  | Js_response_id js_parser
  | Js_response_body wire_type js_parser 'h

datatype 'h js_event =
    Js_on_result 'h js_value
  | Js_implementation_called js_value ident "js_value list"

fun js_find_method :: "bytes \<Rightarrow> (ident, method_definition) std_map \<Rightarrow> (ident \<times> method_definition) option" where
  "js_find_method status [] = None"
| "js_find_method status ((k, m) # ms) =
     (if status = map of_char k then Some (k, m) else js_find_method status ms)"

type_synonym 'h js_receive_result = "js_error + 'h js_receiver \<times> 'h js_pending \<times> 'h js_event list"

definition js_receive_initial :: "u8 \<Rightarrow> 'h js_pending \<Rightarrow> 'h js_receive_result" where
  "js_receive_initial input waiting =
     (if input = 0 then Inr (Js_request_id (Js_integer_8 0 0 0), waiting, [])
      else if input = 1 then Inr (Js_response_id (Js_integer_8 0 0 0), waiting, [])
      else Inl Js_thrown)"

definition js_name_received ::
  "interface_definition \<Rightarrow> js_value \<Rightarrow> js_value \<Rightarrow> 'h js_pending \<Rightarrow> 'h js_receive_result" where
  "js_name_received d request_id status waiting =
     (case js_find_method (case status of Js_string s \<Rightarrow> s | _ \<Rightarrow> []) (methods d) of
        None \<Rightarrow> Inl Js_thrown
      | Some (name, m) \<Rightarrow>
          Inr (Js_parameters request_id name (map parameter_type (parameters m))
                 (js_create (Tuple (map parameter_type (parameters m)))), waiting, []))"

definition js_parameters_received ::
  "js_value \<Rightarrow> ident \<Rightarrow> js_value \<Rightarrow> 'h js_pending \<Rightarrow> 'h js_receive_result" where
  "js_parameters_received request_id name status waiting =
     Inr (Js_initial_state, waiting, [Js_implementation_called request_id name (js_array_elements status)])"

definition js_response_id_received :: "js_value \<Rightarrow> 'h js_pending \<Rightarrow> 'h js_receive_result" where
  "js_response_id_received key waiting =
     (case waiting key of
        None \<Rightarrow> Inl Js_thrown
      | Some (t, on_result) \<Rightarrow>
          (case js_create t of
             None \<Rightarrow> Inr (Js_initial_state, waiting(key := None), [Js_on_result on_result (Js_array [])])
           | Some argument_parser \<Rightarrow> Inr (Js_response_body t argument_parser on_result, waiting(key := None), [])))"

text \<open>A parser inside a state: \<open>undefined\<close> leaves the state, an error is thrown on.\<close>

definition js_with_parser ::
  "js_step \<Rightarrow> js_parser \<Rightarrow> u8 \<Rightarrow> (js_parser \<Rightarrow> 'h js_receiver) \<Rightarrow> 'h js_pending \<Rightarrow>
    (js_value \<Rightarrow> 'h js_receive_result) \<Rightarrow> 'h js_receive_result" where
  "js_with_parser parse p input st waiting on_complete =
     (case parse p input of
        (Parse_complete status c, p') \<Rightarrow> on_complete status
      | (Need_more_input, p') \<Rightarrow> Inr (st p', waiting, [])
      | (Invalid_input, p') \<Rightarrow> Inl Js_thrown)"

primrec js_receive ::
  "interface_definition \<Rightarrow> 'h js_receiver \<Rightarrow> u8 \<Rightarrow> 'h js_pending \<Rightarrow> 'h js_receive_result" where
  "js_receive d Js_initial_state input waiting = js_receive_initial input waiting"
| "js_receive d (Js_request_id p) input waiting =
     js_with_parser js_parse_integer_8 p input Js_request_id waiting
       (\<lambda>status. Inr (Js_method_name status (the (js_create (Utf8 octet_range))), waiting, []))"
| "js_receive d (Js_method_name request_id p) input waiting =
     js_with_parser (js_step_of (Utf8 octet_range)) p input (Js_method_name request_id) waiting
       (\<lambda>status. js_name_received d request_id status waiting)"
| "js_receive d (Js_parameters request_id name ts closure) input waiting =
     (case closure of
        None \<Rightarrow> Inl Js_type_error
      | Some p \<Rightarrow>
          js_with_parser (js_step_of (Tuple ts)) p input (\<lambda>p. Js_parameters request_id name ts (Some p)) waiting
            (\<lambda>status. js_parameters_received request_id name status waiting))"
| "js_receive d (Js_response_id p) input waiting =
     js_with_parser js_parse_integer_8 p input Js_response_id waiting
       (\<lambda>status. js_response_id_received status waiting)"
| "js_receive d (Js_response_body t p on_result) input waiting =
     js_with_parser (js_step_of t) p input (\<lambda>p. Js_response_body t p on_result) waiting
       (\<lambda>parsed. Inr (Js_initial_state, waiting, [Js_on_result on_result parsed]))"

text \<open>Octet after octet; the events are those of all octets.\<close>

definition js_and_then ::
  "'h js_receive_result \<Rightarrow> ('h js_receiver \<Rightarrow> 'h js_pending \<Rightarrow> 'h js_receive_result) \<Rightarrow> 'h js_receive_result" where
  "js_and_then result f =
     (case result of
        Inl e \<Rightarrow> Inl e
      | Inr (st, waiting, es) \<Rightarrow>
          (case f st waiting of
             Inl e \<Rightarrow> Inl e
           | Inr (st, waiting, es') \<Rightarrow> Inr (st, waiting, es @ es')))"

fun js_receive_all ::
  "interface_definition \<Rightarrow> 'h js_receiver \<Rightarrow> bytes \<Rightarrow> 'h js_pending \<Rightarrow> 'h js_receive_result" where
  "js_receive_all d st [] waiting = Inr (st, waiting, [])"
| "js_receive_all d st (input # inputs) waiting =
     js_and_then (js_receive d st input waiting) (\<lambda>st. js_receive_all d st inputs)"

subsection \<open>JavaScript writes what C++ writes\<close>

lemma js_set_at:
  "i = length pre \<Longrightarrow> length mid = length w \<Longrightarrow> js_set (Some i) w (pre @ mid @ post) = Inr (pre @ w @ post)"
  by (simp add: js_set_def js_index_def)

text \<open>A piece of the buffer is replaced by the octets \<open>w\<close>.\<close>

definition js_writes :: "(js_offset \<Rightarrow> bytes \<Rightarrow> js_error + bytes) \<Rightarrow> bytes \<Rightarrow> bool" where
  "js_writes f w \<longleftrightarrow>
     (\<forall>pre mid post. length mid = length w \<longrightarrow> f (Some (length pre)) (pre @ mid @ post) = Inr (pre @ w @ post))"

lemma js_writesD:
  "js_writes f w \<Longrightarrow> i = length pre \<Longrightarrow> length mid = length w \<Longrightarrow> f (Some i) (pre @ mid @ post) = Inr (pre @ w @ post)"
  by (simp add: js_writes_def)

lemma js_writes_two:
  assumes "js_writes f w" and "js_writes g w'"
  shows "js_writes (\<lambda>offset destination.
    case f offset destination of Inl e \<Rightarrow> Inl e | Inr destination \<Rightarrow> g (js_plus offset (length w)) destination) (w @ w')"
  unfolding js_writes_def
proof (intro allI impI)
  fix pre mid post :: bytes
  assume len: "length mid = length (w @ w')"
  then have mid: "mid = take (length w) mid @ drop (length w) mid" "length (take (length w) mid) = length w"
    "length (drop (length w) mid) = length w'" by simp_all
  have "pre @ mid @ post = pre @ take (length w) mid @ drop (length w) mid @ post"
    by (metis append_assoc append_take_drop_id)
  also have "f (Some (length pre)) (pre @ take (length w) mid @ drop (length w) mid @ post) =
      Inr (pre @ w @ drop (length w) mid @ post)"
    using assms(1) mid(2) by (intro js_writesD) simp_all
  finally have "f (Some (length pre)) (pre @ mid @ post) = Inr (pre @ w @ drop (length w) mid @ post)" .
  moreover have "g (Some (length pre + length w)) ((pre @ w) @ drop (length w) mid @ post) = Inr ((pre @ w) @ w' @ post)"
    using assms(2) mid(3) by (intro js_writesD) simp_all
  ultimately show "(case f (Some (length pre)) (pre @ mid @ post) of Inl e \<Rightarrow> Inl e
      | Inr destination \<Rightarrow> g (js_plus (Some (length pre)) (length w)) destination) = Inr (pre @ (w @ w') @ post)"
    by (simp add: js_plus_def)
qed

lemma js_writes_set: "js_writes (\<lambda>offset. js_set offset w) w"
  by (simp add: js_writes_def js_set_at)

lemma js_writes_high_low:
  assumes "find_number_of_bytes_required (maximum r) = 8"
  shows "js_writes (js_serialize_integer r (Js_high_low h l))
    (write_integer (word_of_int h :: u32) @ write_integer (word_of_int l :: u32))"
proof -
  have "js_serialize_integer r (Js_high_low h l) = (\<lambda>offset destination.
      case js_set offset (write_integer (word_of_int h :: u32)) destination of Inl e \<Rightarrow> Inl e
      | Inr destination \<Rightarrow> js_set (js_plus offset 4) (write_integer (word_of_int l :: u32)) destination)"
    by (intro ext) (simp add: js_serialize_integer_def Let_def assms)
  moreover have "length (write_integer (word_of_int h :: u32)) = 4" by (simp add: sizeof_def)
  ultimately show ?thesis
    using js_writes_two [OF js_writes_set js_writes_set, of "write_integer (word_of_int h :: u32)" "write_integer (word_of_int l :: u32)"]
    by metis
qed

lemma js_writes_integer:
  assumes "is_uint (parser_bits r) v"
  shows "js_writes (js_serialize_integer r (js_number_of (parser_bits r) v)) (uint_encode (parser_bits r) v)"
proof (cases "parser_bits r")
  case Uint64
  with assms obtain x where v: "v = V_uint64 x" by (cases v) auto
  have "find_number_of_bytes_required (maximum r) = 8" by (simp add: bytes_required Uint64)
  from js_writes_high_low [OF this, of "sint (ucast (drop_bit 32 x) :: u32)" "sint (ucast x :: u32)"] show ?thesis
    by (simp add: v Uint64 js_number_of_def write_integer_64)
next
  case Uint8
  with assms obtain x where v: "v = V_uint8 x" by (cases v) auto
  have "js_serialize_integer r (Js_number (sint (ucast x :: u32))) = (\<lambda>offset. js_set offset (write_integer x))"
    by (rule ext)+ (simp add: js_serialize_integer_def bytes_required Uint8 scast_ucast)
  then show ?thesis using js_writes_set by (simp add: v Uint8 js_number_of_def)
next
  case Uint16
  with assms obtain x where v: "v = V_uint16 x" by (cases v) auto
  have "js_serialize_integer r (Js_number (sint (ucast x :: u32))) = (\<lambda>offset. js_set offset (write_integer x))"
    by (rule ext)+ (simp add: js_serialize_integer_def bytes_required Uint16 scast_ucast)
  then show ?thesis using js_writes_set by (simp add: v Uint16 js_number_of_def)
next
  case Uint32
  with assms obtain x where v: "v = V_uint32 x" by (cases v) auto
  have "js_serialize_integer r (Js_number (sint x)) = (\<lambda>offset. js_set offset (write_integer x))"
    by (rule ext)+ (simp add: js_serialize_integer_def bytes_required Uint32)
  then show ?thesis using js_writes_set by (simp add: v Uint32 js_number_of_def)
qed

lemma js_writes_length:
  assumes "parser_bits r \<noteq> Uint64"
  shows "js_writes (js_serialize_integer r (Js_number (int n))) (uint_encode (parser_bits r) (uint_value (parser_bits r) n))"
proof -
  have "js_serialize_integer r (Js_number (int n)) =
      (\<lambda>offset. js_set offset (uint_encode (parser_bits r) (uint_value (parser_bits r) n)))"
    using assms by (intro ext, cases "parser_bits r") (simp_all add: js_serialize_integer_def bytes_required)
  then show ?thesis using js_writes_set by simp
qed

lemma length_uint_encode: "is_uint (parser_bits r) v \<Longrightarrow>
  length (uint_encode (parser_bits r) v) = find_number_of_bytes_required (maximum r)"
  by (cases "parser_bits r"; cases v) (simp_all add: bytes_required sizeof_def)

text \<open>The types without a function around their serialisation, and those without one inside another.\<close>

definition js_leaf :: "wire_type \<Rightarrow> bool" where
  "js_leaf t \<longleftrightarrow>
     (case t of
        Integer r \<Rightarrow> True
      | Utf8 code_units \<Rightarrow> parser_bits code_units \<noteq> Uint64
      | Tuple ts \<Rightarrow> ts = []
      | Structure es \<Rightarrow> es = []
      | _ \<Rightarrow> False)"

definition js_writable :: "wire_type \<Rightarrow> bool" where
  "js_writable t \<longleftrightarrow> js_leaf t \<or>
     (case t of
        Tuple ts \<Rightarrow> list_all js_leaf ts
      | Structure es \<Rightarrow> distinct (map element_name es) \<and> list_all (js_leaf \<circ> what) es
      | _ \<Rightarrow> False)"

definition js_writes_value :: "wire_type \<Rightarrow> bool \<Rightarrow> js_value \<Rightarrow> bytes \<Rightarrow> bool" where
  "js_writes_value t shadowed v w \<longleftrightarrow>
     js_size_of_value t v = Inr (length w) \<and> js_writes (js_serialize t v shadowed) w"

lemma js_leaf_written:
  assumes "js_leaf t" and "has_type t v" and "serialize is_valid t v = (w, Completed)"
  shows "js_writes_value t shadowed (js_value_of t v) w"
proof (cases t)
  case (Integer r)
  with assms(2) have u: "is_uint (parser_bits r) v" by (simp add: parser_bits_suitable)
  from Integer assms(3) have "serialize_integer r (value_size v) = (w, Completed)" by simp
  from serialize_integer_Completed(1) [OF this] u have "w = uint_encode (parser_bits r) v"
    by (simp add: uint_value_size)
  with Integer u show ?thesis
    by (simp add: js_writes_value_def js_writes_integer length_uint_encode)
next
  case (Utf8 code_units)
  with assms(2) obtain s where v: "v = V_string s" by (cases v) auto
  from assms(3) obtain w1 where w: "serialize_integer code_units (length s) = (w1, Completed)" "w = w1 @ s"
    unfolding Utf8 v serialize.simps wire_value.sel in_sequence_Completed_Cons by auto
  note c = serialize_integer_Completed [OF w(1)]
  from c(2) have u: "is_uint (parser_bits code_units) (uint_value (parser_bits code_units) (length s))"
    unfolding representable_uint [symmetric] representable_def by simp
  have len: "length w1 = find_number_of_bytes_required (maximum code_units)"
    unfolding c(1) by (rule length_uint_encode [OF u])
  from assms(1) Utf8 have "parser_bits code_units \<noteq> Uint64" by (simp add: js_leaf_def)
  from js_writes_two [OF js_writes_length [OF this, of "length s"] js_writes_set [of s]]
  show ?thesis
    by (simp add: js_writes_value_def Utf8 v w(2) len c(1) [symmetric] cong: sum.case_cong)
next
  case (Tuple ts)
  with assms show ?thesis by (cases v) (auto simp: js_leaf_def js_writes_value_def js_writes_def)
next
  case (Structure es)
  with assms show ?thesis by (cases v) (auto simp: js_leaf_def js_writes_value_def js_writes_def js_members_def)
qed (use assms(1) in \<open>simp_all add: js_leaf_def\<close>)

lemma js_elements_written:
  assumes "list_all2 (\<lambda>(f, g) (v, w). g v = Inr (length w) \<and> js_writes (f v True) w) (zip fs gs) (zip vs ws)"
    and "length fs = length gs" "length vs = length ws"
  shows "js_sizes gs vs = Inr (length (concat ws)) \<and> js_writes (js_serialize_elements fs gs vs) (concat ws)"
  using assms(2,3,1)
proof (induction fs gs arbitrary: vs ws rule: list_induct2)
  case Nil
  then have "vs = [] \<and> ws = []" by (cases vs; cases ws) simp_all
  then show ?case by (simp add: js_writes_def)
next
  case (Cons f fs g gs)
  then obtain v vs' w ws' where vs: "vs = v # vs'" and ws: "ws = w # ws'"
    by (cases vs; cases ws) auto
  with Cons.prems have head: "g v = Inr (length w)" "js_writes (f v True) w"
    and tail: "list_all2 (\<lambda>(f, g) (v, w). g v = Inr (length w) \<and> js_writes (f v True) w) (zip fs gs) (zip vs' ws')"
      "length vs' = length ws'" by simp_all
  have IH: "js_sizes gs vs' = Inr (length (concat ws'))" "js_writes (js_serialize_elements fs gs vs') (concat ws')"
    using Cons.IH [OF tail(2,1)] by simp_all
  from js_writes_two [OF head(2) IH(2)] IH(1) head(1) show ?case
    by (simp add: vs ws cong: sum.case_cong)
qed

lemma js_leaves_written:
  assumes "list_all js_leaf ts" and "list_all2 has_type ts vs"
    and "in_sequence (map2 (\<lambda>f v. f v) (map (serialize is_valid) ts) vs) = (w, Completed)"
  shows "js_sizes (map js_size_of_value ts) (map2 (\<lambda>f v. f v) (map js_value_of ts) vs) = Inr (length w)"
    and "js_writes (js_serialize_elements (map js_serialize ts) (map js_size_of_value ts)
      (map2 (\<lambda>f v. f v) (map js_value_of ts) vs)) w"
proof -
  let ?ws = "map fst (map2 (\<lambda>f v. f v) (map (serialize is_valid) ts) vs)"
  have len: "length ts = length vs" using assms(2) by (rule list_all2_lengthD)
  from assms(3) have w: "w = concat ?ws"
    and each: "\<And>i. i < length ts \<Longrightarrow> serialize is_valid (ts ! i) (vs ! i) = (fst (serialize is_valid (ts ! i) (vs ! i)), Completed)"
    using len unfolding in_sequence_Completed by (auto simp: list_all_length prod_eq_iff)
  have "list_all2 (\<lambda>(f, g) (v, w). g v = Inr (length w) \<and> js_writes (f v True) w)
      (zip (map js_serialize ts) (map js_size_of_value ts)) (zip (map2 (\<lambda>f v. f v) (map js_value_of ts) vs) ?ws)"
  proof (rule list_all2_all_nthI)
    fix i assume "i < length (zip (map js_serialize ts) (map js_size_of_value ts))"
    then have i: "i < length ts" by simp
    with assms(1,2) len have "js_leaf (ts ! i)" "has_type (ts ! i) (vs ! i)"
      by (simp_all add: list_all_length list_all2_nthD)
    from js_leaf_written [OF this each [OF i], of True] i len
    show "(\<lambda>(f, g) (v, w). g v = Inr (length w) \<and> js_writes (f v True) w)
        (zip (map js_serialize ts) (map js_size_of_value ts) ! i)
        (zip (map2 (\<lambda>f v. f v) (map js_value_of ts) vs) ?ws ! i)"
      by (simp add: js_writes_value_def)
  qed (simp add: len)
  from js_elements_written [OF this] len
  show "js_sizes (map js_size_of_value ts) (map2 (\<lambda>f v. f v) (map js_value_of ts) vs) = Inr (length w)"
    and "js_writes (js_serialize_elements (map js_serialize ts) (map js_size_of_value ts)
      (map2 (\<lambda>f v. f v) (map js_value_of ts) vs)) w"
    by (simp_all add: w)
qed

lemma map_what: "map what (map (map_structure_element f) es) = map f (map what es)"
  by (simp add: structure_element.map_sel)

lemma those_map_of_zip:
  "distinct names \<Longrightarrow> length names = length vs \<Longrightarrow> those (map (map_of (zip names vs)) names) = Some vs"
proof (induction names vs rule: list_induct2')
  case (4 name names v vs)
  then have "map (map_of (zip (name # names) (v # vs))) names = map (map_of (zip names vs)) names" by auto
  with 4 have "those (map (map_of (zip (name # names) (v # vs))) names) = Some vs" by (simp only:) simp
  then show ?case unfolding list.map those.simps(2) by simp
qed simp_all

lemma js_members_zip:
  "distinct names \<Longrightarrow> length names = length vs \<Longrightarrow> js_members names (Js_object (zip names vs)) = Some vs"
  by (simp add: js_members_def those_map_of_zip)

lemma js_writable_written:
  assumes "js_writable t" and "has_type t v" and "serialize is_valid t v = (w, Completed)"
  shows "js_writes_value t False (js_value_of t v) w"
proof (cases "js_leaf t")
  case True
  then show ?thesis using assms(2,3) by (rule js_leaf_written)
next
  case False
  with assms(1) consider (tuple) ts where "t = Tuple ts" "list_all js_leaf ts" "ts \<noteq> []"
    | (struct) es where "t = Structure es" "distinct (map element_name es)" "list_all js_leaf (map what es)" "es \<noteq> []"
    by (cases t) (auto simp: js_writable_def js_leaf_def list_all_iff)
  then show ?thesis
  proof cases
    case (tuple ts)
    with assms(2) obtain vs where v: "v = V_tuple vs" "list_all2 has_type ts vs"
      by (cases v) (auto simp: list_all2_map1)
    have "in_sequence (map2 (\<lambda>f v. f v) (map (serialize is_valid) ts) vs) = (w, Completed)"
      using assms(3) by (simp only: tuple(1) v(1) serialize.simps wire_value.sel)
    from js_leaves_written [OF tuple(2) v(2) this] show ?thesis
      using tuple v by (simp add: js_writes_value_def)
  next
    case (struct es)
    with assms(2) obtain vs where v: "v = V_structure vs" "list_all2 has_type (map what es) vs"
      by (cases v) (auto simp: list_all2_map1 structure_element.map_sel)
    let ?ts = "map what es"
    have "in_sequence (map2 (\<lambda>f v. f v) (map (serialize is_valid) ?ts) vs) = (w, Completed)"
      using assms(3) by (simp only: struct(1) v(1) serialize.simps wire_value.sel map_what)
    from js_leaves_written [OF struct(3) v(2) this]
    have sizes: "js_sizes (map js_size_of_value ?ts) (map2 (\<lambda>f v. f v) (map js_value_of ?ts) vs) = Inr (length w)"
      and writes: "js_writes (js_serialize_elements (map js_serialize ?ts) (map js_size_of_value ?ts)
        (map2 (\<lambda>f v. f v) (map js_value_of ?ts) vs)) w" .
    have "js_members (map element_name es) (js_value_of t v) = Some (map2 (\<lambda>f v. f v) (map js_value_of ?ts) vs)"
      using list_all2_lengthD [OF v(2)]
      by (simp only: struct(1) v(1) js_value_of.simps map_what wire_value.sel)
        (intro js_members_zip struct(2), simp)
    with sizes writes show ?thesis
      unfolding js_writes_value_def struct(1) js_size_of_value.simps js_serialize.simps map_what
      using struct(1,4) by simp
  qed
qed

text \<open>The parameters of a request.\<close>

lemma js_parameters_written:
  assumes "list_all js_writable ts" and "list_all2 has_type ts vs"
    and "in_sequence (map2 (\<lambda>f v. f v) (map (serialize is_valid) ts) vs) = (w, Completed)"
    and "length mid = length w"
  shows "js_sizes (map js_size_of_value ts) (map2 (\<lambda>f v. f v) (map js_value_of ts) vs) = Inr (length w) \<and>
    js_serialize_parameters ts (map2 (\<lambda>f v. f v) (map js_value_of ts) vs) (length pre) (pre @ mid) = Inr (pre @ w)"
  using assms
proof (induction ts arbitrary: vs w mid pre)
  case (Cons t ts)
  from Cons.prems(2) obtain v vs' where vs: "vs = v # vs'" "has_type t v" "list_all2 has_type ts vs'"
    by (cases vs) auto
  from Cons.prems(3) obtain w1 w2 where w: "serialize is_valid t v = (w1, Completed)"
    "in_sequence (map2 (\<lambda>f v. f v) (map (serialize is_valid) ts) vs') = (w2, Completed)" "w = w1 @ w2"
    by (auto simp: vs(1) in_sequence_Completed_Cons simp del: in_sequence.simps)
  from Cons.prems(1) have "js_writable t" "list_all js_writable ts" by simp_all
  from js_writable_written [OF this(1) vs(2) w(1)]
  have size: "js_size_of_value t (js_value_of t v) = Inr (length w1)"
    and wrt: "js_writes (js_serialize t (js_value_of t v) False) w1" by (simp_all add: js_writes_value_def)
  have mid: "mid = take (length w1) mid @ drop (length w1) mid" "length (take (length w1) mid) = length w1"
    "length (drop (length w1) mid) = length w2" using Cons.prems(4) w(3) by simp_all
  have "js_serialize t (js_value_of t v) False (Some (length pre)) (pre @ take (length w1) mid @ drop (length w1) mid) =
      Inr (pre @ w1 @ drop (length w1) mid)"
    using wrt mid(2) by (intro js_writesD) simp_all
  moreover note Cons.IH [OF \<open>list_all js_writable ts\<close> vs(3) w(2) mid(3), of "pre @ w1"]
  ultimately show ?case using size by (simp add: vs(1) w(3))
qed simp

subsection \<open>The messages that JavaScript writes\<close>

lemma js_writes_octet: "js_writes (js_serialize_integer octet_range (Js_number k)) (write_integer (word_of_int k :: u8))"
proof -
  have "js_serialize_integer octet_range (Js_number k) = (\<lambda>offset. js_set offset (write_integer (word_of_int k :: u8)))"
    by (intro ext) (simp add: js_serialize_integer_def find_number_of_bytes_required_def)
  then show ?thesis using js_writes_set by simp
qed

lemma js_writes_id: "js_writes (js_serialize_integer id_range (js_number_of Uint64 (V_uint64 i))) (write_integer i)"
proof -
  have "parser_bits id_range = Uint64" by code_simp
  with js_writes_integer [of id_range "V_uint64 i"] show ?thesis by simp
qed

text \<open>The first octets of a message: its kind and the identifier.\<close>

lemma js_message_start:
  "js_serialize_integer octet_range (Js_number k) (Some 0) (replicate (9 + n) 0) =
     Inr (write_integer (word_of_int k :: u8) @ replicate (8 + n) 0)"
  "js_serialize_integer id_range (js_number_of Uint64 (V_uint64 i)) (Some 1)
     (write_integer (word_of_int k :: u8) @ replicate (8 + n) 0) =
     Inr (write_integer (word_of_int k :: u8) @ write_integer i @ replicate n 0)"
proof -
  have one: "length (write_integer (word_of_int k :: u8)) = 1" by (simp add: sizeof_def)
  have "9 + n = 1 + (8 + n)" by simp
  then have "replicate (9 + n) (0 :: u8) = [] @ replicate 1 0 @ replicate (8 + n) 0"
    by (simp only: replicate_add append_Nil)
  then show "js_serialize_integer octet_range (Js_number k) (Some 0) (replicate (9 + n) 0) =
     Inr (write_integer (word_of_int k :: u8) @ replicate (8 + n) 0)"
    using js_writesD [OF js_writes_octet, of 0 "[]" "replicate 1 0" k "replicate (8 + n) 0"] one by simp
  have "replicate (8 + n) (0 :: u8) = replicate 8 0 @ replicate n 0" by (simp only: replicate_add)
  moreover have "length (write_integer i) = 8" by (simp add: sizeof_def)
  ultimately show "js_serialize_integer id_range (js_number_of Uint64 (V_uint64 i)) (Some 1)
     (write_integer (word_of_int k :: u8) @ replicate (8 + n) 0) =
     Inr (write_integer (word_of_int k :: u8) @ write_integer i @ replicate n 0)"
    using js_writesD [OF js_writes_id, of 1 "write_integer (word_of_int k :: u8)" "replicate 8 0" i "replicate n 0"] one
    by simp
qed

lemma js_request_id_number:
  assumes "n < 2 ^ 32"
  shows "js_serialize_integer id_range (Js_high_low 0 (int n)) =
    js_serialize_integer id_range (js_number_of Uint64 (V_uint64 (of_nat n)))"
proof -
  have "unat (drop_bit 32 (of_nat n :: u64)) = 0"
    using assms
    by (subst unsigned_drop_bit_eq) (simp add: unsigned_of_nat take_bit_nat_eq_self drop_bit_eq_div)
  then have "drop_bit 32 (of_nat n :: u64) = 0" unfolding unat_eq_zero .
  moreover have "(ucast (of_nat n :: u64) :: u32) = of_nat n"
    by (rule bit_word_eqI) (simp add: bit_ucast_iff bit_of_nat_iff)
  ultimately show ?thesis
    by (intro ext) (simp add: js_serialize_integer_def js_number_of_def split: sum.splits)
qed

lemma js_name_written:
  assumes "length name < 256"
  shows "js_writes_value (Utf8 octet_range) False (Js_string (map of_char name))
    (write_integer (of_nat (length name) :: u8) @ map of_char name)"
proof -
  let ?s = "map of_char name :: bytes"
  have bits: "parser_bits octet_range = Uint8" by code_simp
  have "serialize (\<lambda>_. True) (Utf8 octet_range) (V_string ?s) =
      (write_integer (of_nat (length name) :: u8) @ ?s, Completed)"
    using assms by (simp add: serialize_integer_def bits)
  from js_leaf_written [OF _ _ this, of False] bits show ?thesis by (simp add: js_leaf_def)
qed

lemma request_parts:
  assumes "rpc_interface is_valid d" and "std_map_find name (methods d) = Some m"
    and "request_ok is_valid d (i, name, args)"
  obtains out where "list_all2 has_type (map parameter_type (parameters m)) args"
    and "in_sequence (map2 (\<lambda>f v. f v) (map (serialize is_valid) (map parameter_type (parameters m))) args) =
      (out, Completed)"
    and "length name < 256"
    and "request_octets is_valid d (i, name, args) =
      [0] @ write_integer i @ write_integer (of_nat (length name) :: u8) @ map of_char name @ out"
proof -
  from assms(1,2) have ok: "method_ok is_valid (name, m)" by (rule rpc_interface_method)
  from assms(2,3) have args: "list_all2 (\<lambda>p v. has_type (parameter_type p) v) (parameters m) args"
    by (simp add: request_ok_def)
  obtain w where w: "build_request is_valid name (parameters m) args = (w, Completed)"
    using assms(2,3) by (cases "build_request is_valid name (parameters m) args") (simp add: request_ok_def)
  from build_request_parts [OF ok args w] obtain out where
    out: "serialize is_valid (get_parameter_type (parameters m)) (V_tuple args) = (out, Completed)"
      "w = of_nat (length name) # c_str_range name @ out" by blast
  have "c_str_range name = map of_char name"
    using ok by (simp add: method_ok_def c_str_range_def list_all_iff takeWhile_eq_all_conv [THEN iffD2])
  moreover have "length name < 256"
    using ok length_c_str_range [of name] by (simp add: method_ok_def name_ok_def)
  moreover have "get_parameter_type (parameters m) = Tuple (map parameter_type (parameters m))"
    by (simp add: get_parameter_type_def clone_id)
  moreover have "write_integer (of_nat (length name) :: u8) = [of_nat (length name)]"
    by (simp add: write_integer_def sizeof_def)
  ultimately show ?thesis
    using that [of out] args out w assms(2)
    by (simp add: request_octets_def message_kinds list_all2_map1)
qed

text \<open>C26: A call in JavaScript sends the octets that the C++ client sends for the same method,
  arguments and identifier, and enters the handler under the identifier, for parameters without a
  tuple or structure inside of another one.\<close>

theorem js_client_sends_requests:
  assumes "rpc_interface is_valid d" and "std_map_find name (methods d) = Some m"
    and "request_ok is_valid d (of_nat n, name, args)" and "n < 2 ^ 32"
    and "list_all js_writable (map parameter_type (parameters m))"
  shows "js_call_method d name (map2 (\<lambda>p v. js_value_of (parameter_type p) v) (parameters m) args) h (n, waiting) =
    Inr (request_octets is_valid d (of_nat n, name, args), Suc n,
      waiting(Js_high_low 0 (int n) \<mapsto> (method_result m, h)))"
proof -
  let ?ts = "map parameter_type (parameters m)"
  let ?vs = "map2 (\<lambda>f v. f v) (map js_value_of ?ts) args"
  let ?name = "map of_char name :: bytes"
  from assms(1-3) obtain out where types: "list_all2 has_type ?ts args"
    and out: "in_sequence (map2 (\<lambda>f v. f v) (map (serialize is_valid) ?ts) args) = (out, Completed)"
    and len: "length name < 256"
    and req: "request_octets is_valid d (of_nat n, name, args) =
      [0] @ write_integer (of_nat n :: u64) @ write_integer (of_nat (length name) :: u8) @ ?name @ out"
    by (rule request_parts)
  have sizes: "js_sizes (map js_size_of_value ?ts) ?vs = Inr (length out)"
    using js_parameters_written [OF assms(5) types out, of out] by simp
  let ?start = "write_integer (0 :: u8) @ write_integer (of_nat n :: u64)"
  let ?header = "?start @ write_integer (of_nat (length name) :: u8) @ ?name"
  have one: "write_integer (0 :: u8) = [0]" by code_simp
  have len_start: "length ?start = 9" by (simp add: sizeof_def)
  have "js_serialize (Utf8 octet_range) (Js_string ?name) False (Some 9)
      (?start @ replicate (1 + length name) 0 @ replicate (length out) 0) =
      Inr (?start @ (write_integer (of_nat (length name) :: u8) @ ?name) @ replicate (length out) 0)"
    using js_name_written [OF len] len_start
    by (intro js_writesD) (simp_all add: js_writes_value_def sizeof_def)
  then have name: "js_serialize (Utf8 octet_range) (Js_string ?name) False (Some 9)
      (?start @ replicate (1 + length name + length out) 0) = Inr (?header @ replicate (length out) 0)"
    by (simp only: replicate_add append_assoc)
  have params: "js_serialize_parameters ?ts ?vs (9 + (1 + length name)) (?header @ replicate (length out) 0) =
      Inr (?header @ out)"
    using js_parameters_written [OF assms(5) types out, of "replicate (length out) 0" ?header] len_start
    by (simp add: sizeof_def)
  have "js_size_of_value (Utf8 octet_range) (Js_string ?name) = Inr (1 + length name)"
    using js_name_written [OF len] by (simp add: js_writes_value_def sizeof_def)
  then have "js_build_request name ?ts ?vs n = Inr (request_octets is_valid d (of_nat n, name, args))"
    using js_message_start(1) [of 0 "1 + length name + length out"]
      js_message_start(2) [of "of_nat n" 0 "1 + length name + length out"] sizes name params
      js_request_id_number [OF assms(4)]
    by (simp add: js_build_request_def Let_def req one add.assoc del: js_serialize.simps js_size_of_value.simps)
  moreover have "?vs = map2 (\<lambda>p v. js_value_of (parameter_type p) v) (parameters m) args"
    by (simp add: zip_map1 split_def comp_def)
  ultimately show ?thesis using assms(2) by (simp add: js_call_method_def)
qed

abbreviation hello_method :: method_definition where
  "hello_method \<equiv> \<lparr>method_result = Utf8 octet_range,
     parameters = [\<lparr>parameter_name = ''name'', parameter_type = Utf8 octet_range\<rparr>]\<rparr>"

lemma greeter_hello: "std_map_find ''hello'' (methods greeter) = Some hello_method"
  by code_simp

theorem js_client_sends_requests_witness:
  "js_call_method greeter ''hello'' [Js_string [65, 66]] (5 :: nat) (3, Map.empty) =
    Inr (request_octets (\<lambda>_. True) greeter (of_nat 3, ''hello'', [V_string [65, 66]]), Suc 3,
      [Js_high_low 0 (int 3) \<mapsto> (Utf8 octet_range, 5)])"
proof -
  have "request_ok (\<lambda>_. True) greeter (of_nat 3, ''hello'', [V_string [65, 66]])" by code_simp
  moreover have "(3 :: nat) < 2 ^ 32" by simp
  moreover have "list_all js_writable (map parameter_type (parameters hello_method))" by code_simp
  ultimately show ?thesis
    using js_client_sends_requests [OF greeter_interface greeter_hello, of 3 "[V_string [65, 66]]" "5 :: nat" Map.empty] by simp
qed

lemma serialized_result_serialize:
  assumes "has_type t v"
  shows "serialized_result is_valid t v = serialize is_valid t v"
proof (cases "type_emptiness_of t")
  case Empty
  then show ?thesis
    using assms
    by (cases t; cases v) (auto simp: serialized_result_def type_emptiness_of_def split: if_splits)
next
  case Non_empty
  with value_serialization_correct [OF assms, of "[''result.get()'' \<mapsto> v]" "E_var ''result.get()''" is_valid]
  show ?thesis by (simp add: serialized_result_def)
qed

lemma response_parts:
  assumes "response_ok is_valid (i, t, v)"
  obtains out where "has_type t v" and "serialize is_valid t v = (out, Completed)"
    and "response_octets is_valid (i, t, v) = [1] @ write_integer i @ out"
  using assms that [of "fst (serialize is_valid t v)"]
  by (auto simp: response_ok_def response_octets_def serialized_result_serialize message_kinds prod_eq_iff)

text \<open>C29: The callback that a server of JavaScript gets sends the octets that the C++ server sends
  for the same identifier and result, for results without a tuple or structure inside of another
  one.\<close>

theorem js_server_sends_responses:
  assumes "response_ok is_valid (i, t, v)" and "js_writable t"
  shows "js_build_response (js_number_of Uint64 (V_uint64 i)) t (js_value_of t v) =
    Inr (response_octets is_valid (i, t, v))"
proof -
  from assms(1) obtain out where type: "has_type t v" and out: "serialize is_valid t v = (out, Completed)"
    and octets: "response_octets is_valid (i, t, v) = [1] @ write_integer i @ out"
    by (rule response_parts)
  let ?start = "write_integer (1 :: u8) @ write_integer i"
  have one: "write_integer (1 :: u8) = [1]" by code_simp
  have len_start: "length ?start = 9" by (simp add: sizeof_def)
  from js_writable_written [OF assms(2) type out]
  have size: "js_size_of_value t (js_value_of t v) = Inr (length out)"
    and wrt: "js_writes (js_serialize t (js_value_of t v) False) out" by (simp_all add: js_writes_value_def)
  have "js_serialize t (js_value_of t v) False (Some 9) (?start @ replicate (length out) 0 @ []) = Inr (?start @ out @ [])"
    using wrt len_start by (intro js_writesD) simp_all
  with js_message_start(1) [of 1 "length out"] js_message_start(2) [of i 1 "length out"] size show ?thesis
    by (simp add: js_build_response_def octets one)
qed

theorem js_server_sends_responses_witness:
  "js_build_response (js_number_of Uint64 (V_uint64 7)) (Utf8 octet_range) (Js_string [65, 66]) =
    Inr (response_octets (\<lambda>_. True) (7, Utf8 octet_range, V_string [65, 66]))"
proof -
  have "response_ok (\<lambda>_. True) (7, Utf8 octet_range, V_string [65, 66])" "js_writable (Utf8 octet_range)" by code_simp+
  from js_server_sends_responses [OF this] show ?thesis by simp
qed

subsection \<open>The messages that JavaScript receives\<close>

lemma js_and_then_simps [simp]:
  "js_and_then (Inl e) f = Inl e"
  "js_and_then (Inr (st, waiting, [])) f = f st waiting"
  by (simp_all add: js_and_then_def split: sum.splits)

lemma js_and_then_assoc:
  "js_and_then (js_and_then r f) g = js_and_then r (\<lambda>st waiting. js_and_then (f st waiting) g)"
  by (auto simp: js_and_then_def split: sum.splits prod.splits)

text \<open>A state with a parser takes octets until the parser has its value.\<close>

lemma js_receive_with_parser:
  assumes receive: "\<And>p input. js_receive d (st p) input waiting = js_with_parser parse p input st waiting f"
    and "always_consumes parse"
  shows "js_receive_all d (st p) bs waiting =
    (case feed parse p bs of
       Done v rest \<Rightarrow> js_and_then (f v) (\<lambda>st. js_receive_all d st rest)
     | Failed \<Rightarrow> Inl Js_thrown
     | Pending p' \<Rightarrow> Inr (st p', waiting, []))"
proof (induction bs arbitrary: p)
  case (Cons b bs)
  from assms(2) show ?case
    by (cases rule: always_consumes_split [of _ p b]) (simp_all add: receive js_with_parser_def Cons.IH)
qed simp

lemma feed_js_id:
  "feed js_parse_integer_8 (Js_integer_8 0 0 0) (write_integer i @ rest) = Done (js_number_of Uint64 (V_uint64 i)) rest"
  using byte_parser.accepts_encode [OF js_integer_8_contract, of "js_number_of Uint64 (V_uint64 i)" rest]
  by (auto simp: js_number_of_def write_integer_64)

lemma always_consumes_js_id: "always_consumes js_parse_integer_8"
  by (rule byte_parser.consumes [OF js_integer_8_contract])

lemma always_consumes_js_step: "js_parsable t \<Longrightarrow> always_consumes (js_step_of t)"
  by (rule byte_parser.consumes [OF js_parser_contract])

text \<open>What a handler is called with: an empty tuple or structure has no parser, and is \<open>[]\<close>.\<close>

definition js_result :: "wire_type \<Rightarrow> wire_value \<Rightarrow> js_value" where
  "js_result t v = (if js_create t = None then Js_array [] else js_value_of t v)"

definition js_receivable :: "wire_type \<Rightarrow> wire_value \<Rightarrow> bool" where
  "js_receivable t v \<longleftrightarrow> t = Tuple [] \<or> t = Structure [] \<or> js_parsable t \<and> js_readable t v"

lemma js_receives_response:
  assumes "response_ok is_valid (i, t, v)" and "js_receivable t v"
    and "waiting (js_number_of Uint64 (V_uint64 i)) = Some (t, h)"
  shows "js_receive_all d Js_initial_state (response_octets is_valid (i, t, v) @ rest) waiting =
    js_and_then (Inr (Js_initial_state, waiting(js_number_of Uint64 (V_uint64 i) := None), [Js_on_result h (js_result t v)]))
      (\<lambda>st. js_receive_all d st rest)"
proof -
  from assms(1) obtain out where type: "has_type t v" and out: "serialize is_valid t v = (out, Completed)"
    and octets: "response_octets is_valid (i, t, v) = [1] @ write_integer i @ out"
    by (rule response_parts)
  let ?key = "js_number_of Uint64 (V_uint64 i)"
  have id: "js_receive_all d Js_initial_state (response_octets is_valid (i, t, v) @ rest) waiting =
      js_and_then (js_response_id_received ?key waiting) (\<lambda>st. js_receive_all d st (out @ rest))"
    using js_receive_with_parser [of d Js_response_id waiting js_parse_integer_8
        "\<lambda>status. js_response_id_received status waiting" "Js_integer_8 0 0 0", OF _ always_consumes_js_id]
    by (simp add: octets js_receive_initial_def feed_js_id)
  show ?thesis
  proof (cases "js_create t")
    case None
    with assms(2) have "t = Tuple [] \<or> t = Structure []"
      by (auto simp: js_receivable_def dest: js_parsable_created)
    with type out have "out = []" by (cases v) auto
    with None show ?thesis
      by (simp add: id js_response_id_received_def assms(3) js_result_def)
  next
    case (Some p)
    with assms(2) have ok: "js_parsable t" "js_readable t v" by (auto simp: js_receivable_def)
    have "feed (js_step_of t) p (out @ rest) = Done (js_value_of t v) rest"
      using js_parser_reads_serialized_octets [OF ok(1) type ok(2) out, of rest] Some by simp
    then show ?thesis
      using js_receive_with_parser [of d "\<lambda>p. Js_response_body t p h" "waiting(?key := None)" "js_step_of t"
          "\<lambda>parsed. Inr (Js_initial_state, waiting(?key := None), [Js_on_result h parsed])" p "out @ rest",
          OF _ always_consumes_js_step [OF ok(1)]] Some
      by (simp add: id js_response_id_received_def assms(3) js_result_def)
  qed
qed

lemma js_key:
  assumes "n < 2 ^ 31"
  shows "js_number_of Uint64 (V_uint64 (of_nat n)) = Js_high_low 0 (int n)"
proof -
  have n: "unat (of_nat n :: u64) = n" "unat (of_nat n :: u32) = n"
    using assms by (simp_all add: unsigned_of_nat take_bit_nat_eq_self)
  then have "unat (drop_bit 32 (of_nat n :: u64)) = 0"
    using assms by (subst unsigned_drop_bit_eq) (simp add: take_bit_nat_eq_self drop_bit_eq_div)
  then have "drop_bit 32 (of_nat n :: u64) = 0" unfolding unat_eq_zero .
  moreover have "(ucast (of_nat n :: u64) :: u32) = of_nat n"
    by (rule bit_word_eqI) (simp add: bit_ucast_iff bit_of_nat_iff)
  moreover have "sint (of_nat n :: u32) = uint (of_nat n :: u32)" using assms n by (intro sint_small) simp
  moreover have "uint (of_nat n :: u32) = int n" using n(2) by (metis of_nat_unat)
  ultimately show ?thesis by (simp add: js_number_of_def)
qed

text \<open>The response of a C++ server to the request with the number \<open>n\<close>.\<close>

definition js_response_octets :: "(bytes \<Rightarrow> bool) \<Rightarrow> nat \<times> wire_type \<times> wire_value \<Rightarrow> bytes" where
  "js_response_octets is_valid response = (case response of (n, t, v) \<Rightarrow> response_octets is_valid (of_nat n, t, v))"

text \<open>C27: A client of JavaScript gets the results: when the responses of a C++ server to pending
  requests arrive, in any order, each handler is called with the value that its result is in
  JavaScript, its request is no longer pending, and the receiver waits for the next message. The
  limits are those of the JavaScript parsers; identifiers are below \<open>2 ^ 31\<close>.\<close>

theorem js_client_gets_results:
  assumes "\<forall>(n, t, v) \<in> set rs. n < 2 ^ 31 \<and> response_ok is_valid (of_nat n, t, v) \<and> js_receivable t v \<and>
      waiting (Js_high_low 0 (int n)) = Some (t, handler n)"
    and "distinct (map fst rs)"
  shows "js_receive_all d Js_initial_state (concat (map (js_response_octets is_valid) rs)) waiting =
    Inr (Js_initial_state, waiting |` (- (\<lambda>r. Js_high_low 0 (int (fst r))) ` set rs),
      map (\<lambda>(n, t, v). Js_on_result (handler n) (js_result t v)) rs)"
  using assms
proof (induction rs arbitrary: waiting)
  case (Cons r rs)
  obtain n t v where r: "r = (n, t, v)" by (cases r) auto
  let ?waiting = "waiting(Js_high_low 0 (int n) := None)"
  from Cons.prems r have n: "n < 2 ^ 31" "response_ok is_valid (of_nat n, t, v)" "js_receivable t v"
    "waiting (Js_high_low 0 (int n)) = Some (t, handler n)" by auto
  have "js_receive_all d Js_initial_state (concat (map (js_response_octets is_valid) rs)) ?waiting =
      Inr (Js_initial_state, ?waiting |` (- (\<lambda>r. Js_high_low 0 (int (fst r))) ` set rs),
        map (\<lambda>(n, t, v). Js_on_result (handler n) (js_result t v)) rs)"
  proof (rule Cons.IH)
    show "distinct (map fst rs)" using Cons.prems(2) by simp
    show "\<forall>(n, t, v) \<in> set rs. n < 2 ^ 31 \<and> response_ok is_valid (of_nat n, t, v) \<and> js_receivable t v \<and>
      ?waiting (Js_high_low 0 (int n)) = Some (t, handler n)"
    proof
      fix x assume x: "x \<in> set rs"
      obtain m u w where xs: "x = (m, u, w)" by (cases x) auto
      have "n \<noteq> m" using x xs Cons.prems(2) r by (auto simp: image_iff)
      moreover have "x \<in> set (r # rs)" using x by simp
      from bspec [OF Cons.prems(1) this] have "case x of (n, t, v) \<Rightarrow> n < 2 ^ 31 \<and> response_ok is_valid (of_nat n, t, v) \<and>
        js_receivable t v \<and> waiting (Js_high_low 0 (int n)) = Some (t, handler n)" .
      ultimately show "case x of (n, t, v) \<Rightarrow> n < 2 ^ 31 \<and> response_ok is_valid (of_nat n, t, v) \<and>
        js_receivable t v \<and> ?waiting (Js_high_low 0 (int n)) = Some (t, handler n)" by (simp add: xs)
    qed
  qed
  moreover have "?waiting |` (- (\<lambda>r. Js_high_low 0 (int (fst r))) ` set rs) =
      waiting |` (- (\<lambda>r. Js_high_low 0 (int (fst r))) ` set (r # rs))"
    by (auto simp: r restrict_map_def fun_eq_iff)
  ultimately show ?case
    using js_receives_response [OF n(2,3), of waiting "handler n" d "concat (map (js_response_octets is_valid) rs)"] n(1,4)
    by (simp add: r js_key js_and_then_def js_response_octets_def [of _ "(_, _)"] del: js_receive_all.simps)
qed (simp add: restrict_map_def)

theorem js_client_gets_results_witness:
  "js_receive_all greeter Js_initial_state
     (concat (map (js_response_octets (\<lambda>_. True))
       [(4, Utf8 octet_range, V_string [65]), (3, Tuple [], V_tuple [])]))
     [Js_high_low 0 3 \<mapsto> (Tuple [], 30 :: nat), Js_high_low 0 4 \<mapsto> (Utf8 octet_range, 40)] =
   Inr (Js_initial_state, Map.empty, [Js_on_result 40 (Js_string [65]), Js_on_result 30 (Js_array [])])"
proof -
  let ?rs = "[(4 :: nat, Utf8 octet_range, V_string [65]), (3, Tuple [], V_tuple [])]"
  let ?waiting = "[Js_high_low 0 3 \<mapsto> (Tuple [], 30 :: nat), Js_high_low 0 4 \<mapsto> (Utf8 octet_range, 40)]"
  have "response_ok (\<lambda>_. True) (4, Utf8 octet_range, V_string [65])" "response_ok (\<lambda>_. True) (3, Tuple [], V_tuple [])"
    by code_simp+
  moreover have "js_receivable (Utf8 octet_range) (V_string [65])" "js_receivable (Tuple []) (V_tuple [])"
    by (simp_all add: js_receivable_def parser_bits_def)
  ultimately have "\<forall>(n, t, v) \<in> set ?rs. n < 2 ^ 31 \<and> response_ok (\<lambda>_. True) (of_nat n, t, v) \<and> js_receivable t v \<and>
      ?waiting (Js_high_low 0 (int n)) = Some (t, 10 * n)" by simp
  then have "js_receive_all greeter Js_initial_state (concat (map (js_response_octets (\<lambda>_. True)) ?rs)) ?waiting =
    Inr (Js_initial_state, ?waiting |` (- (\<lambda>r. Js_high_low 0 (int (fst r))) ` set ?rs),
      map (\<lambda>(n, t, v). Js_on_result (10 * n) (js_result t v)) ?rs)"
    by (rule js_client_gets_results) simp
  moreover have "?waiting |` (- (\<lambda>r. Js_high_low 0 (int (fst r))) ` set ?rs) = Map.empty"
    by (auto simp: restrict_map_def)
  moreover have "map (\<lambda>(n, t, v). Js_on_result (10 * n) (js_result t v)) ?rs =
      [Js_on_result 40 (Js_string [65]), Js_on_result 30 (Js_array [])]"
    by (simp add: js_result_def)
  ultimately show ?thesis by (simp only:)
qed

text \<open>The chain of comparisons with the names of the methods.\<close>

lemma js_find_method_name:
  assumes "distinct (map fst ms)" and "(name, m) \<in> set ms"
  shows "js_find_method (map of_char name) ms = Some (name, m)"
  using assms
proof (induction ms)
  case (Cons k ms)
  have "inj (of_char :: char \<Rightarrow> u8)" by (rule injI) (simp only: of_char_u8_inj)
  then have "map (of_char :: char \<Rightarrow> u8) name = map of_char (fst k) \<longleftrightarrow> name = fst k" by (simp only: inj_map_eq_map)
  with Cons show ?case by (cases k) (auto simp: image_iff)
qed simp

text \<open>A request up to its arguments.\<close>

lemma js_receives_request_header:
  assumes "rpc_interface is_valid d" and "std_map_find name (methods d) = Some m" and "name \<noteq> []" "length name < 256"
  shows "js_receive_all d Js_initial_state
      ([0] @ write_integer i @ write_integer (of_nat (length name) :: u8) @ map of_char name @ rest) waiting =
    js_receive_all d (Js_parameters (js_number_of Uint64 (V_uint64 i)) name (map parameter_type (parameters m))
      (js_create (Tuple (map parameter_type (parameters m))))) rest waiting"
proof -
  let ?id = "js_number_of Uint64 (V_uint64 i)"
  let ?name = "map of_char name :: bytes"
  have bits: "parser_bits octet_range = Uint8" by code_simp
  have "serialize (\<lambda>_. True) (Utf8 octet_range) (V_string ?name) =
      (write_integer (of_nat (length name) :: u8) @ ?name, Completed)"
    using assms(4) by (simp add: serialize_integer_def bits)
  from js_parser_reads_serialized_octets [OF _ _ _ this, of rest] assms(3,4) bits
  have feed_name: "feed (js_step_of (Utf8 octet_range)) (the (js_create (Utf8 octet_range)))
      (write_integer (of_nat (length name) :: u8) @ ?name @ rest) = Done (Js_string ?name) rest"
    by (simp del: js_step_of.simps js_create.simps)
  have "distinct (map fst (methods d))"
    using assms(1) by (simp add: rpc_interface_def interface_ok_def std_map_ok_def std_map_keys_def strict_sorted_iff)
  moreover have "(name, m) \<in> set (methods d)"
    using assms(2) by (simp add: std_map_find_def map_of_SomeD)
  ultimately have find: "js_find_method ?name (methods d) = Some (name, m)" by (rule js_find_method_name)
  have "js_receive_all d Js_initial_state
      ([0] @ write_integer i @ write_integer (of_nat (length name) :: u8) @ ?name @ rest) waiting =
    js_receive_all d (Js_method_name ?id (the (js_create (Utf8 octet_range))))
      (write_integer (of_nat (length name) :: u8) @ ?name @ rest) waiting"
    using js_receive_with_parser [of d Js_request_id waiting js_parse_integer_8
        "\<lambda>status. Inr (Js_method_name status (the (js_create (Utf8 octet_range))), waiting, [])" "Js_integer_8 0 0 0",
        OF _ always_consumes_js_id]
    by (simp add: js_receive_initial_def feed_js_id del: js_create.simps)
  also have "\<dots> = js_and_then (js_name_received d ?id (Js_string ?name) waiting) (\<lambda>st. js_receive_all d st rest)"
    using js_receive_with_parser [of d "Js_method_name ?id" waiting "js_step_of (Utf8 octet_range)"
        "\<lambda>status. js_name_received d ?id status waiting" "the (js_create (Utf8 octet_range))"
        "write_integer (of_nat (length name) :: u8) @ ?name @ rest", OF _ always_consumes_js_step]
    by (simp add: feed_name del: js_step_of.simps js_create.simps)
  finally show ?thesis by (simp add: js_name_received_def find del: js_create.simps)
qed

lemma js_receives_request:
  assumes "rpc_interface is_valid d" and "std_map_find name (methods d) = Some m"
    and "request_ok is_valid d (i, name, args)" and "name \<noteq> []" and "parameters m \<noteq> []"
    and "list_all js_parsable (map parameter_type (parameters m))"
    and "list_all2 js_readable (map parameter_type (parameters m)) args"
  shows "js_receive_all d Js_initial_state (request_octets is_valid d (i, name, args) @ rest) waiting =
    js_and_then (Inr (Js_initial_state, waiting, [Js_implementation_called (js_number_of Uint64 (V_uint64 i)) name
        (map2 (\<lambda>p v. js_value_of (parameter_type p) v) (parameters m) args)]))
      (\<lambda>st. js_receive_all d st rest)"
proof -
  let ?ts = "map parameter_type (parameters m)"
  let ?id = "js_number_of Uint64 (V_uint64 i)"
  from assms(1-3) obtain out where types: "list_all2 has_type ?ts args"
    and out: "in_sequence (map2 (\<lambda>f v. f v) (map (serialize is_valid) ?ts) args) = (out, Completed)"
    and len: "length name < 256"
    and req: "request_octets is_valid d (i, name, args) =
      [0] @ write_integer i @ write_integer (of_nat (length name) :: u8) @ map of_char name @ out"
    by (rule request_parts)
  have parsable: "js_parsable (Tuple ?ts)" using assms(5,6) by (simp add: list_all_iff)
  have "serialize is_valid (Tuple ?ts) (V_tuple args) = (out, Completed)"
    using out by (simp only: serialize.simps wire_value.sel)
  moreover have "has_type (Tuple ?ts) (V_tuple args)" "js_readable (Tuple ?ts) (V_tuple args)"
    using types assms(7) by (simp_all add: list_all2_map1)
  ultimately have feed: "feed (js_step_of (Tuple ?ts)) (the (js_create (Tuple ?ts))) (out @ rest) =
      Done (js_value_of (Tuple ?ts) (V_tuple args)) rest"
    using parsable by (intro js_parser_reads_serialized_octets)
  have val: "js_array_elements (js_value_of (Tuple ?ts) (V_tuple args)) =
      map2 (\<lambda>p v. js_value_of (parameter_type p) v) (parameters m) args"
    by (simp add: js_array_elements_def zip_map1 split_def comp_def)
  have "js_receive_all d (Js_parameters ?id name ?ts (Some (the (js_create (Tuple ?ts))))) (out @ rest) waiting =
      js_and_then (js_parameters_received ?id name (js_value_of (Tuple ?ts) (V_tuple args)) waiting)
        (\<lambda>st. js_receive_all d st rest)"
    using js_receive_with_parser [of d "\<lambda>p. Js_parameters ?id name ?ts (Some p)" waiting "js_step_of (Tuple ?ts)"
        "\<lambda>status. js_parameters_received ?id name status waiting" "the (js_create (Tuple ?ts))" "out @ rest",
        OF _ always_consumes_js_step [OF parsable]]
    by (simp add: feed del: js_step_of.simps js_create.simps js_value_of.simps)
  then show ?thesis
    using js_receives_request_header [OF assms(1,2,4) len, of i "out @ rest" waiting] js_parsable_created [OF parsable]
    by (simp add: req js_parameters_received_def val del: js_create.simps js_value_of.simps)
qed

text \<open>C28: A server of JavaScript is called as the C++ client asks: the requests of a C++ client, one
  after the other, call the methods of the implementation with the values that the arguments are in
  JavaScript, in the order of the requests, within the limits of the JavaScript parsers and for
  methods that have parameters.\<close>

theorem js_server_receives_requests:
  assumes "rpc_interface is_valid d"
    and "\<forall>(i, name, args) \<in> set rs. request_ok is_valid d (i, name, args) \<and> name \<noteq> [] \<and>
      (\<exists>m. std_map_find name (methods d) = Some m \<and> parameters m \<noteq> [] \<and>
        list_all js_parsable (map parameter_type (parameters m)) \<and>
        list_all2 js_readable (map parameter_type (parameters m)) args)"
  shows "js_receive_all d Js_initial_state (concat (map (request_octets is_valid d) rs)) waiting =
    Inr (Js_initial_state, waiting,
      map (\<lambda>(i, name, args). Js_implementation_called (js_number_of Uint64 (V_uint64 i)) name
        (map2 (\<lambda>p v. js_value_of (parameter_type p) v)
          (parameters (the (std_map_find name (methods d)))) args)) rs)"
  using assms(2)
proof (induction rs)
  case (Cons r rs)
  obtain i name args where r: "r = (i, name, args)" by (cases r) auto
  with Cons.prems obtain m where m: "request_ok is_valid d (i, name, args)" "name \<noteq> []"
    "std_map_find name (methods d) = Some m" "parameters m \<noteq> []"
    "list_all js_parsable (map parameter_type (parameters m))"
    "list_all2 js_readable (map parameter_type (parameters m)) args" by auto
  from Cons.prems have "js_receive_all d Js_initial_state (concat (map (request_octets is_valid d) rs)) waiting =
    Inr (Js_initial_state, waiting,
      map (\<lambda>(i, name, args). Js_implementation_called (js_number_of Uint64 (V_uint64 i)) name
        (map2 (\<lambda>p v. js_value_of (parameter_type p) v)
          (parameters (the (std_map_find name (methods d)))) args)) rs)" by (intro Cons.IH) simp
  with js_receives_request [OF assms(1) m(3,1,2,4-6), of "concat (map (request_octets is_valid d) rs)" waiting] m(3)
  show ?case by (simp add: r js_and_then_def del: js_receive_all.simps)
qed simp

theorem js_server_receives_requests_witness:
  "js_receive_all greeter Js_initial_state
     (concat (map (request_octets (\<lambda>_. True) greeter) [(7, ''hello'', [V_string [65, 66]])])) (Map.empty :: nat js_pending) =
   Inr (Js_initial_state, Map.empty,
     [Js_implementation_called (js_number_of Uint64 (V_uint64 7)) ''hello'' [Js_string [65, 66]]])"
proof -
  have "request_ok (\<lambda>_. True) greeter (7, ''hello'', [V_string [65, 66]])" by code_simp
  then have "\<forall>(i, name, args) \<in> set [(7, ''hello'', [V_string [65, 66]])].
      request_ok (\<lambda>_. True) greeter (i, name, args) \<and> name \<noteq> [] \<and>
      (\<exists>m. std_map_find name (methods greeter) = Some m \<and> parameters m \<noteq> [] \<and>
        list_all js_parsable (map parameter_type (parameters m)) \<and>
        list_all2 js_readable (map parameter_type (parameters m)) args)"
    using greeter_hello by (auto simp: parser_bits_def)
  from js_server_receives_requests [OF greeter_interface this, of Map.empty] show ?thesis
    by (simp add: greeter_hello del: js_receive_all.simps)
qed

text \<open>C32: A server of JavaScript never calls a method without parameters: the parser of its empty
  tuple of parameters is \<open>undefined\<close>, so the request leaves the receiver waiting for an octet of the
  arguments, and the first octet of the next message is passed to \<open>undefined\<close>, which throws a
  \<open>TypeError\<close>.\<close>

theorem js_request_without_parameters_fails:
  assumes "rpc_interface is_valid d" and "std_map_find name (methods d) = Some m"
    and "request_ok is_valid d (i, name, args)" and "name \<noteq> []" and "parameters m = []"
  shows "js_receive_all d Js_initial_state (request_octets is_valid d (i, name, args)) waiting =
      Inr (Js_parameters (js_number_of Uint64 (V_uint64 i)) name [] None, waiting, []) \<and>
    js_receive_all d Js_initial_state (request_octets is_valid d (i, name, args) @ octet # rest) waiting = Inl Js_type_error"
proof -
  from assms(1-3) obtain out where types: "list_all2 has_type (map parameter_type (parameters m)) args"
    and out: "in_sequence (map2 (\<lambda>f v. f v) (map (serialize is_valid) (map parameter_type (parameters m))) args) = (out, Completed)"
    and len: "length name < 256"
    and req: "request_octets is_valid d (i, name, args) =
      [0] @ write_integer i @ write_integer (of_nat (length name) :: u8) @ map of_char name @ out"
    by (rule request_parts)
  from out assms(5) have "out = []" by simp
  with js_receives_request_header [OF assms(1,2,4) len, of i "[]" waiting]
    js_receives_request_header [OF assms(1,2,4) len, of i "octet # rest" waiting] assms(5)
  show ?thesis by (simp add: req)
qed

definition pinger :: interface_definition where
  "pinger = declare_method ''ping'' (Tuple []) [] \<lparr>methods = []\<rparr>"

theorem js_request_without_parameters_fails_witness:
  "js_receive_all pinger Js_initial_state (request_octets (\<lambda>_. True) pinger (7, ''ping'', [])) (Map.empty :: nat js_pending) =
      Inr (Js_parameters (js_number_of Uint64 (V_uint64 7)) ''ping'' [] None, Map.empty, []) \<and>
    js_receive_all pinger Js_initial_state (request_octets (\<lambda>_. True) pinger (7, ''ping'', []) @ 0 # []) (Map.empty :: nat js_pending) =
      Inl Js_type_error"
proof -
  have "interface_ok pinger" unfolding pinger_def by (rule interface_ok_declare_method) code_simp
  moreover have "list_all (method_ok (\<lambda>_. True)) (methods pinger)" by code_simp
  ultimately have "rpc_interface (\<lambda>_. True) pinger" by (simp add: rpc_interface_def)
  moreover have "std_map_find ''ping'' (methods pinger) = Some \<lparr>method_result = Tuple [], parameters = []\<rparr>" by code_simp
  moreover have "request_ok (\<lambda>_. True) pinger (7, ''ping'', [])" by code_simp
  moreover have "''ping'' \<noteq> []" by simp
  ultimately show ?thesis by (rule js_request_without_parameters_fails) simp
qed

text \<open>
  A tuple inside of a tuple: the variable \<open>offset\<close> of the inner function hides the one that its
  initial value refers to, so the elements are written at the beginning of the message.
\<close>

lemma js_nested_tuple_is_written_at_zero:
  "js_serialize (Tuple [Integer octet_range, Tuple [Integer octet_range]])
     (Js_array [Js_number 1, Js_array [Js_number 2]]) False (Some 0) [0, 0] = Inr [2, 0]"
  "serialize (\<lambda>_. True) (Tuple [Integer octet_range, Tuple [Integer octet_range]])
     (V_tuple [V_uint8 1, V_tuple [V_uint8 2]]) = ([1, 2], Completed)"
  by code_simp+

end
