(* ===== verification/Futures.thy ===== *)
theory Futures
  imports Warpcoil_Prelude
begin

text \<open>
  \<open>warpcoil/future.hpp\<close> and \<open>warpcoil/then.hpp\<close>: the completion tokens \<open>use_future\<close> and
  \<open>then(action)\<close>, futures, and \<open>when_all\<close>.
  \<^item> The function objects of the code are values of a datatype, one constructor per lambda or
    class that is called: \<open>handler\<close> for what is called with a result, \<open>wait\<close> for the
    function \<open>_wait\<close> of a future.
  \<^item> The objects that these share by \<open>std::shared_ptr\<close> are in the heap: the state of a
    \<open>future_handler\<close>, the counter of \<open>when_all\<close>, the \<open>finished\<close> of a \<open>then_handler\<close>.
  \<^item> A \<open>task\<close> is a call that is still to be made. A call makes other calls before it
    returns, so the tasks form a stack; \<open>run\<close> makes them all.
  \<^item> The transformations of \<open>then\<close> are functions on values; the action of the token
    \<open>then\<close> and the handlers of the user are events in the trace.
  A future that is waited for once delivers its value exactly once, as soon as everything it
  needs has arrived, in whatever order the results and the call of \<open>async_wait\<close> come.
\<close>

subsection \<open>Objects\<close>

datatype 'v result_value = Void | Value 'v

datatype 'v handler =
    H_user nat                            \<comment> \<open>a handler of the user\<close>
  | H_future nat                          \<comment> \<open>\<open>future_handler\<close>, with its \<open>state\<close>\<close>
  | H_then_action nat nat                 \<comment> \<open>\<open>then_handler\<close>: \<open>action\<close> and \<open>finished\<close>\<close>
  | H_transform "'v result_value \<Rightarrow> 'v result_value" "'v handler"
      \<comment> \<open>the lambda in \<open>future::then\<close>: \<open>transform\<close> and \<open>on_result\<close>\<close>
  | H_count nat nat "'v handler"
      \<comment> \<open>\<open>callback\<close> in \<open>when_all\<close>: \<open>completed\<close>, \<open>future_count\<close>, \<open>on_result\<close>\<close>

datatype 'v wait =
    W_state nat                           \<comment> \<open>\<open>async_result<future_handler>::get\<close>\<close>
  | W_finished nat                        \<comment> \<open>\<open>async_result<then_handler>::get\<close>\<close>
  | W_then "'v wait option" "'v result_value \<Rightarrow> 'v result_value"
  | W_all "'v wait option list"

text \<open>A future is its \<open>_wait\<close>, \<open>None\<close> for an empty \<open>std::function\<close>.\<close>

type_synonym 'v future = "'v wait option"

datatype 'v future_state = Unit_state | Handler_state "'v handler" | Result_state "'v result_value"

datatype 'v observation =
    User_called nat "'v result_value"
  | Action_called nat "'v result_value"

record 'v future_world =
  states :: "nat \<Rightarrow> 'v future_state"
  next_state :: nat
  counters :: "nat \<Rightarrow> nat"
  next_counter :: nat
  finished :: "nat \<Rightarrow> 'v handler option"
  next_finished :: nat
  observed :: "'v observation list"

definition future_world_init :: "'v future_world" where
  "future_world_init =
     \<lparr>states = (\<lambda>_. Unit_state), next_state = 0, counters = (\<lambda>_. 0), next_counter = 0,
      finished = (\<lambda>_. None), next_finished = 0, observed = []\<rparr>"

datatype future_failure = Unreachable | Assertion_failed | Bad_function_call

datatype 'v task =
    Call "'v handler" "'v result_value"
  | Call_wait "'v future" "'v handler"     \<comment> \<open>a call of \<open>_wait\<close>\<close>
  | Async_wait "'v future" "'v handler"    \<comment> \<open>\<open>async_wait\<close>\<close>

subsection \<open>Calls\<close>

text \<open>\<open>future_handler::operator()\<close>.\<close>

definition call_future_handler ::
  "nat \<Rightarrow> 'v result_value \<Rightarrow> 'v future_world \<Rightarrow> future_failure + 'v task list \<times> 'v future_world" where
  "call_future_handler state result w =
     (case states w state of
        Unit_state \<Rightarrow> Inr ([], w\<lparr>states := (states w)(state := Result_state result)\<rparr>)
      | Handler_state handler \<Rightarrow> Inr ([Call handler result], w)
      | Result_state _ \<Rightarrow> Inl Unreachable)"

text \<open>The function of the future that \<open>async_result<future_handler>::get\<close> returns.\<close>

definition wait_for_state ::
  "nat \<Rightarrow> 'v handler \<Rightarrow> 'v future_world \<Rightarrow> future_failure + 'v task list \<times> 'v future_world" where
  "wait_for_state state handle_result w =
     (case states w state of
        Unit_state \<Rightarrow> Inr ([], w\<lparr>states := (states w)(state := Handler_state handle_result)\<rparr>)
      | Handler_state _ \<Rightarrow> Inl Unreachable
      | Result_state result \<Rightarrow> Inr ([Call handle_result result], w))"

text \<open>\<open>then_handler::operator()\<close>, and the function of its future.\<close>

definition call_then_handler ::
  "nat \<Rightarrow> nat \<Rightarrow> 'v result_value \<Rightarrow> 'v future_world \<Rightarrow> future_failure + 'v task list \<times> 'v future_world" where
  "call_then_handler action done result w =
     (let w = w\<lparr>observed := observed w @ [Action_called action result]\<rparr>
      in case finished w done of
           None \<Rightarrow> Inl Bad_function_call
         | Some on_result \<Rightarrow> Inr ([Call on_result Void], w))"

definition wait_for_finished ::
  "nat \<Rightarrow> 'v handler \<Rightarrow> 'v future_world \<Rightarrow> future_failure + 'v task list \<times> 'v future_world" where
  "wait_for_finished done on_result w =
     (if finished w done \<noteq> None then Inl Assertion_failed
      else Inr ([], w\<lparr>finished := (finished w)(done := Some on_result)\<rparr>))"

text \<open>\<open>apply_transform\<close>: a transformation without a result returns \<open>Void\<close>.\<close>

definition apply_transform ::
  "('v result_value \<Rightarrow> 'v result_value) \<Rightarrow> 'v result_value \<Rightarrow> 'v handler \<Rightarrow> 'v task list" where
  "apply_transform transform input handle_result = [Call handle_result (transform input)]"

text \<open>\<open>callback\<close> of \<open>when_all\<close>, and its function.\<close>

definition call_when_all_callback ::
  "nat \<Rightarrow> nat \<Rightarrow> 'v handler \<Rightarrow> 'v future_world \<Rightarrow> future_failure + 'v task list \<times> 'v future_world" where
  "call_when_all_callback completed future_count on_result w =
     (let w = w\<lparr>counters := (counters w)(completed := Suc (counters w completed))\<rparr>
      in Inr (if counters w completed = future_count then [Call on_result Void] else [], w))"

definition wait_for_all ::
  "'v future list \<Rightarrow> 'v handler \<Rightarrow> 'v future_world \<Rightarrow> future_failure + 'v task list \<times> 'v future_world" where
  "wait_for_all futures on_result w =
     (let completed = next_counter w;
          callback = H_count completed (length futures) on_result
      in Inr (map (\<lambda>f. Async_wait f callback) futures,
           w\<lparr>counters := (counters w)(completed := 0), next_counter := Suc completed\<rparr>))"

fun task_step :: "'v task \<Rightarrow> 'v future_world \<Rightarrow> future_failure + 'v task list \<times> 'v future_world" where
  "task_step (Call (H_user n) v) w = Inr ([], w\<lparr>observed := observed w @ [User_called n v]\<rparr>)"
| "task_step (Call (H_future state) v) w = call_future_handler state v w"
| "task_step (Call (H_then_action action done) v) w = call_then_handler action done v w"
| "task_step (Call (H_transform f h) v) w = Inr (apply_transform f v h, w)"
| "task_step (Call (H_count k n h) v) w = call_when_all_callback k n h w"
| "task_step (Async_wait None h) w = Inl Assertion_failed"
| "task_step (Async_wait (Some f) h) w = Inr ([Call_wait (Some f) h], w)"
| "task_step (Call_wait None h) w = Inl Bad_function_call"
| "task_step (Call_wait (Some (W_state state)) h) w = wait_for_state state h w"
| "task_step (Call_wait (Some (W_finished done)) h) w = wait_for_finished done h w"
| "task_step (Call_wait (Some (W_then f transform)) h) w = Inr ([Call_wait f (H_transform transform h)], w)"
| "task_step (Call_wait (Some (W_all futures)) h) w = wait_for_all futures h w"

partial_function (option) run_calls :: "'v task list \<Rightarrow> 'v future_world \<Rightarrow> (future_failure + 'v future_world) option" where
  "run_calls ts w =
     (case ts of
        [] \<Rightarrow> Some (Inr w)
      | t # rest \<Rightarrow>
          (case task_step t w of
             Inl e \<Rightarrow> Some (Inl e)
           | Inr (inner, w') \<Rightarrow> run_calls (inner @ rest) w'))"

text \<open>
  The operations of the user: \<open>use_future\<close> and \<open>then\<close> as completion tokens give the handler
  of the operation and the future that the initiating function returns.
\<close>

definition token_use_future :: "'v future_world \<Rightarrow> 'v handler \<times> 'v future \<times> 'v future_world" where
  "token_use_future w =
     (let state = next_state w
      in (H_future state, Some (W_state state),
          w\<lparr>states := (states w)(state := Unit_state), next_state := Suc state\<rparr>))"

definition token_then :: "nat \<Rightarrow> 'v future_world \<Rightarrow> 'v handler \<times> 'v future \<times> 'v future_world" where
  "token_then action w =
     (let done = next_finished w
      in (H_then_action action done, Some (W_finished done),
          w\<lparr>finished := (finished w)(done := None), next_finished := Suc done\<rparr>))"

text \<open>\<open>future::then\<close>: the new future, and the future it was called on, which is empty then.\<close>

definition future_then :: "'v future \<Rightarrow> ('v result_value \<Rightarrow> 'v result_value) \<Rightarrow> 'v future \<times> 'v future" where
  "future_then f transform = (Some (W_then f transform), None)"

definition when_all :: "'v future list \<Rightarrow> 'v future" where
  "when_all futures = Some (W_all futures)"

subsection \<open>Plans\<close>

text \<open>
  The specification: what a user builds from the futures of asynchronous operations, the
  operations it needs, when it is ready, and its result.
\<close>

datatype 'v plan =
    Operation nat
  | Transformed "'v plan" "'v result_value \<Rightarrow> 'v result_value"
  | All_of "'v plan list"

primrec future_of :: "'v plan \<Rightarrow> 'v future" where
  "future_of (Operation state) = Some (W_state state)"
| "future_of (Transformed t f) = fst (future_then (future_of t) f)"
| "future_of (All_of ts) = when_all (map future_of ts)"

primrec needs :: "'v plan \<Rightarrow> nat list" where
  "needs (Operation state) = [state]"
| "needs (Transformed t f) = needs t"
| "needs (All_of ts) = concat (map needs ts)"

type_synonym 'v arrivals = "nat \<Rightarrow> 'v result_value option"

primrec ready :: "'v arrivals \<Rightarrow> 'v plan \<Rightarrow> bool" where
  "ready r (Operation state) = (r state \<noteq> None)"
| "ready r (Transformed t f) = ready r t"
| "ready r (All_of ts) = (ts \<noteq> [] \<and> list_all id (map (ready r) ts))"

primrec outcome :: "'v arrivals \<Rightarrow> 'v plan \<Rightarrow> 'v result_value" where
  "outcome r (Operation state) = the (r state)"
| "outcome r (Transformed t f) = f (outcome r t)"
| "outcome r (All_of ts) = Void"

text \<open>Every \<open>when_all\<close> of a plan has a counter: as many as there are, in the order of the waits.\<close>

primrec waits_for_all :: "'v plan \<Rightarrow> nat" where
  "waits_for_all (Operation state) = 0"
| "waits_for_all (Transformed t f) = waits_for_all t"
| "waits_for_all (All_of ts) = Suc (sum_list (map waits_for_all ts))"

text \<open>
  A plan that is waited for with the handler \<open>h\<close> and with its counters from \<open>k\<close> on: the
  handlers are in the states of the operations that are missing, and the counters count the
  parts that are ready.
\<close>

fun awaited :: "'v arrivals \<Rightarrow> 'v future_world \<Rightarrow> nat \<Rightarrow> 'v plan \<Rightarrow> 'v handler \<Rightarrow> bool"
  and all_awaited :: "'v arrivals \<Rightarrow> 'v future_world \<Rightarrow> nat \<Rightarrow> 'v plan list \<Rightarrow> 'v handler \<Rightarrow> bool" where
  "awaited r w k (Operation state) h = (r state = None \<longrightarrow> states w state = Handler_state h)"
| "awaited r w k (Transformed t f) h = awaited r w k t (H_transform f h)"
| "awaited r w k (All_of ts) h =
     (counters w k = length (filter (ready r) ts) \<and>
      all_awaited r w (Suc k) ts (H_count k (length ts) h))"
| "all_awaited r w k [] h = True"
| "all_awaited r w k (t # ts) h = (awaited r w k t h \<and> all_awaited r w (k + waits_for_all t) ts h)"

text \<open>Only its own objects matter to a plan.\<close>

lemma ready_cong: "(\<And>c. c \<in> set (needs t) \<Longrightarrow> r' c = r c) \<Longrightarrow> ready r' t = ready r t"
proof (induction t)
  case (All_of ts)
  then have "\<forall>t\<in>set ts. ready r' t = ready r t" by auto
  then show ?case by (simp add: list_all_iff)
qed simp_all

lemma awaited_cong:
  "(\<And>c. c \<in> set (needs t) \<Longrightarrow> states w' c = states w c \<and> r' c = r c) \<Longrightarrow>
   (\<And>i. k \<le> i \<Longrightarrow> i < k + waits_for_all t \<Longrightarrow> counters w' i = counters w i) \<Longrightarrow>
   awaited r' w' k t h = awaited r w k t h"
  "(\<And>c. c \<in> set (concat (map needs ts)) \<Longrightarrow> states w' c = states w c \<and> r' c = r c) \<Longrightarrow>
   (\<And>i. k \<le> i \<Longrightarrow> i < k + sum_list (map waits_for_all ts) \<Longrightarrow> counters w' i = counters w i) \<Longrightarrow>
   all_awaited r' w' k ts h = all_awaited r w k ts h"
proof (induction r' w' k t h and r' w' k ts h rule: awaited_all_awaited.induct)
  case (3 r' w' k ts h)
  have "filter (ready r') ts = filter (ready r) ts"
    using 3(2) by (intro filter_cong ready_cong) auto
  moreover have "all_awaited r' w' (Suc k) ts (H_count k (length ts) h) =
      all_awaited r w (Suc k) ts (H_count k (length ts) h)"
    using 3(2,3) by (intro 3(1)) auto
  ultimately show ?case using 3(3) [of k] by simp
next
  case (5 r' w' k t ts h)
  have "awaited r' w' k t h = awaited r w k t h" using 5(3,4) by (intro 5(1)) auto
  moreover have "all_awaited r' w' (k + waits_for_all t) ts h = all_awaited r w (k + waits_for_all t) ts h"
    using 5(3,4) by (intro 5(2)) auto
  ultimately show ?case by simp
qed simp_all

lemma all_awaited_append:
  "all_awaited r w k (xs @ ys) h \<longleftrightarrow>
   all_awaited r w k xs h \<and> all_awaited r w (k + sum_list (map waits_for_all xs)) ys h"
  by (induction xs arbitrary: k) (auto simp: add.assoc)

lemma run_calls_simps [simp]:
  "run_calls [] w = Some (Inr w)"
  "task_step t w = Inr (inner, w') \<Longrightarrow> run_calls (t # rest) w = run_calls (inner @ rest) w'"
  "task_step t w = Inl e \<Longrightarrow> run_calls (t # rest) w = Some (Inl e)"
  by (simp_all add: run_calls.simps)

subsection \<open>A result arrives\<close>

lemma unready: "c \<in> set (needs t) \<Longrightarrow> r c = None \<Longrightarrow> \<not> ready r t"
  by (induction t) (auto simp: list_all_iff)

lemma length_filter_all: "length (filter P xs) = length xs \<longleftrightarrow> list_all P xs"
proof (induction xs)
  case (Cons x xs)
  have "length (filter P xs) \<le> length xs" by simp
  then have "length (filter P xs) \<noteq> Suc (length xs)" by linarith
  with Cons show ?case by auto
qed simp

text \<open>
  The handler in the state of a missing operation leads up through the plan: when the plan
  becomes ready by the result, its handler is called with the outcome, otherwise nothing is.
\<close>

lemma arrival_leads_up:
  assumes "\<And>x. x \<noteq> c \<Longrightarrow> r' x = r x" and "r' c = Some v" and "r c = None"
  shows "awaited r w k t h \<Longrightarrow> distinct (needs t) \<Longrightarrow> c \<in> set (needs t) \<Longrightarrow>
   \<exists>h' cs. states w c = Handler_state h' \<and>
     (\<forall>rest. run_calls (Call h' v # rest) w =
       run_calls ((if ready r' t then [Call h (outcome r' t)] else []) @ rest) (w\<lparr>counters := cs\<rparr>)) \<and>
     awaited r' (w\<lparr>counters := cs\<rparr>) k t h \<and>
     (\<forall>i. i < k \<or> k + waits_for_all t \<le> i \<longrightarrow> cs i = counters w i)"
proof (induction t arbitrary: k h)
  case (Operation state)
  then show ?case using assms by (intro exI [of _ h] exI [of _ "counters w"]) simp
next
  case (Transformed t f)
  then obtain h' cs where "states w c = Handler_state h'"
    "\<And>rest. run_calls (Call h' v # rest) w =
       run_calls ((if ready r' t then [Call (H_transform f h) (outcome r' t)] else []) @ rest) (w\<lparr>counters := cs\<rparr>)"
    "awaited r' (w\<lparr>counters := cs\<rparr>) k t (H_transform f h)"
    "\<forall>i. i < k \<or> k + waits_for_all t \<le> i \<longrightarrow> cs i = counters w i"
    by fastforce
  then show ?case
    by (intro exI [of _ h'] exI [of _ cs]) (simp add: apply_transform_def)
next
  case (All_of ts)
  let ?h = "H_count k (length ts) h"
  from All_of.prems(3) obtain t where "t \<in> set ts" "c \<in> set (needs t)" by auto
  then obtain xs ys where ts: "ts = xs @ t # ys" by (auto dest: split_list)
  let ?k = "Suc k + sum_list (map waits_for_all xs)"
  from All_of.prems(1) have count: "counters w k = length (filter (ready r) ts)"
    and xs: "all_awaited r w (Suc k) xs ?h" and t: "awaited r w ?k t ?h"
    and ys: "all_awaited r w (?k + waits_for_all t) ys ?h"
    by (simp_all add: ts all_awaited_append)
  from All_of.prems(2) \<open>c \<in> set (needs t)\<close>
  have other: "\<And>x. x \<in> set (concat (map needs xs)) \<union> set (concat (map needs ys)) \<Longrightarrow> r' x = r x"
    by (intro assms(1)) (auto simp: ts)
  have "distinct (needs t)" using All_of.prems(2) by (simp add: ts)
  from All_of.IH [OF \<open>t \<in> set ts\<close> t this \<open>c \<in> set (needs t)\<close>]
  obtain h' cs where h': "states w c = Handler_state h'"
    and run: "\<And>rest. run_calls (Call h' v # rest) w =
       run_calls ((if ready r' t then [Call ?h (outcome r' t)] else []) @ rest) (w\<lparr>counters := cs\<rparr>)"
    and t': "awaited r' (w\<lparr>counters := cs\<rparr>) ?k t ?h"
    and cs: "\<And>i. i < ?k \<or> ?k + waits_for_all t \<le> i \<Longrightarrow> cs i = counters w i"
    by blast
  define n where "n = (if ready r' t then Suc (counters w k) else counters w k)"
  let ?w = "w\<lparr>counters := cs(k := n)\<rparr>"
  have "filter (ready r') xs = filter (ready r) xs" "filter (ready r') ys = filter (ready r) ys"
    using other by (auto intro!: filter_cong ready_cong)
  then have count': "n = length (filter (ready r') ts)"
    using unready [of c t r] \<open>c \<in> set (needs t)\<close> assms(3) by (simp add: n_def count ts)
  have "awaited r' ?w ?k t ?h = awaited r' (w\<lparr>counters := cs\<rparr>) ?k t ?h"
    "all_awaited r' ?w (Suc k) xs ?h = all_awaited r w (Suc k) xs ?h"
    "all_awaited r' ?w (?k + waits_for_all t) ys ?h = all_awaited r w (?k + waits_for_all t) ys ?h"
    using other cs by (auto intro!: awaited_cong)
  with t' xs ys count' have "awaited r' ?w k (All_of ts) h"
    by (simp add: ts all_awaited_append)
  moreover have "run_calls (Call h' v # rest) w =
      run_calls ((if ready r' (All_of ts) then [Call h (outcome r' (All_of ts))] else []) @ rest) ?w" for rest
  proof (cases "ready r' t")
    case True
    have "ready r' (All_of ts) \<longleftrightarrow> n = length ts"
      unfolding count' length_filter_all using \<open>t \<in> set ts\<close> by (auto simp: list_all_iff)
    with True cs [of k] show ?thesis by (simp add: run call_when_all_callback_def n_def Let_def)
  next
    case False
    then have "\<not> ready r' (All_of ts)" "cs(k := n) = cs" using cs [of k] by (auto simp: n_def ts)
    with False show ?thesis by (auto simp: run)
  qed
  moreover have "(cs(k := n)) i = counters w i" if "i < k \<or> k + waits_for_all (All_of ts) \<le> i" for i
    using that cs [of i] by (auto simp: ts)
  ultimately show ?case using h' by (intro exI [of _ h'] exI [of _ "cs(k := n)"]) blast
qed

subsection \<open>A plan is waited for\<close>

abbreviation as_state :: "'v result_value option \<Rightarrow> 'v future_state" where
  "as_state v \<equiv> (case v of None \<Rightarrow> Unit_state | Some v \<Rightarrow> Result_state v)"

abbreviation only_if :: "bool \<Rightarrow> 'v task \<Rightarrow> 'v task list" where
  "only_if p t \<equiv> (if p then [t] else [])"

lemma run_async_wait: "run_calls (Async_wait (future_of t) h # rest) w = run_calls (Call_wait (future_of t) h # rest) w"
  by (cases t) (simp_all add: future_then_def when_all_def)

text \<open>What waiting for a plan does to the world.\<close>

definition starts_waiting ::
  "'v arrivals \<Rightarrow> 'v future_world \<Rightarrow> 'v plan \<Rightarrow> 'v handler \<Rightarrow> bool" where
  "starts_waiting r w t h \<longleftrightarrow>
     (\<exists>ss cs. let w' = w\<lparr>states := ss, counters := cs, next_counter := next_counter w + waits_for_all t\<rparr>
      in (\<forall>rest. run_calls (Call_wait (future_of t) h # rest) w =
            run_calls (only_if (ready r t) (Call h (outcome r t)) @ rest) w') \<and>
         awaited r w' (next_counter w) t h \<and>
         (\<forall>c. c \<notin> set (needs t) \<longrightarrow> ss c = states w c) \<and>
         (\<forall>i. i < next_counter w \<longrightarrow> cs i = counters w i))"

lemma waits_for_each:
  assumes "\<And>t w h. t \<in> set ts \<Longrightarrow> (\<And>c. c \<in> set (needs t) \<Longrightarrow> states w c = as_state (r c)) \<Longrightarrow> starts_waiting r w t h"
    and "distinct (concat (map needs ts))" "\<And>c. c \<in> set (concat (map needs ts)) \<Longrightarrow> states w c = as_state (r c)"
    and "k < next_counter w" "counters w k + length ts \<le> n"
  shows "\<exists>ss cs. let w' = w\<lparr>states := ss, counters := cs,
        next_counter := next_counter w + sum_list (map waits_for_all ts)\<rparr>
      in (\<forall>rest. run_calls (map (\<lambda>f. Async_wait f (H_count k n h)) (map future_of ts) @ rest) w =
            run_calls (only_if (ts \<noteq> [] \<and> cs k = n) (Call h Void) @ rest) w') \<and>
         all_awaited r w' (next_counter w) ts (H_count k n h) \<and>
         cs k = counters w k + length (filter (ready r) ts) \<and>
         (\<forall>c. c \<notin> set (concat (map needs ts)) \<longrightarrow> ss c = states w c) \<and>
         (\<forall>i. i < next_counter w \<and> i \<noteq> k \<longrightarrow> cs i = counters w i)"
  using assms
proof (induction ts arbitrary: w)
  case Nil
  then show ?case by (intro exI [of _ "states w"] exI [of _ "counters w"]) (simp add: Let_def)
next
  case (Cons t ts)
  let ?h = "H_count k n h"
  have "starts_waiting r w t ?h" using Cons.prems(1) [of t w] Cons.prems(3) by simp
  then obtain ss1 cs1 w1 where w1: "w1 = w\<lparr>states := ss1, counters := cs1, next_counter := next_counter w + waits_for_all t\<rparr>"
    and run1: "\<And>rest. run_calls (Call_wait (future_of t) ?h # rest) w =
            run_calls (only_if (ready r t) (Call ?h (outcome r t)) @ rest) w1"
    and aw1: "awaited r w1 (next_counter w) t ?h"
    and ss1: "\<And>c. c \<notin> set (needs t) \<Longrightarrow> ss1 c = states w c"
    and cs1: "\<And>i. i < next_counter w \<Longrightarrow> cs1 i = counters w i"
    unfolding starts_waiting_def Let_def by blast
  define m where "m = (if ready r t then Suc (counters w k) else counters w k)"
  define w2 where "w2 = w1\<lparr>counters := cs1(k := m)\<rparr>"
  have k: "cs1 k = counters w k" using cs1 Cons.prems(4) by simp
  have run2: "run_calls (Async_wait (future_of t) ?h # rest) w =
      run_calls (only_if (ready r t \<and> m = n) (Call h Void) @ rest) w2" for rest
  proof (cases "ready r t")
    case True
    then show ?thesis by (simp add: run_async_wait run1 call_when_all_callback_def Let_def m_def w2_def w1 k)
  next
    case False
    then have "cs1(k := m) = cs1" using k by (intro fun_upd_idem) (simp add: m_def)
    then have "w2 = w1" by (simp add: w2_def w1)
    with False show ?thesis by (simp add: run_async_wait run1)
  qed
  have states2: "states w2 c = as_state (r c)" if "c \<in> set (concat (map needs ts))" for c
  proof -
    have "c \<notin> set (needs t)" using that Cons.prems(2) by auto
    then have "states w2 c = states w c" using ss1 by (simp add: w2_def w1)
    also have "\<dots> = as_state (r c)" using that Cons.prems(3) by simp
    finally show ?thesis .
  qed
  have counter2: "k < next_counter w2" "counters w2 k + length ts \<le> n"
    using Cons.prems(4,5) by (simp_all add: w2_def w1 m_def)
  have distinct2: "distinct (concat (map needs ts))" using Cons.prems(2) by simp
  obtain ss cs w' where w': "w' = w2\<lparr>states := ss, counters := cs,
        next_counter := next_counter w2 + sum_list (map waits_for_all ts)\<rparr>"
    and run: "\<And>rest. run_calls (map (\<lambda>f. Async_wait f ?h) (map future_of ts) @ rest) w2 =
            run_calls (only_if (ts \<noteq> [] \<and> cs k = n) (Call h Void) @ rest) w'"
    and aw: "all_awaited r w' (next_counter w2) ts ?h"
    and csk: "cs k = counters w2 k + length (filter (ready r) ts)"
    and ss: "\<And>c. c \<notin> set (concat (map needs ts)) \<Longrightarrow> ss c = states w2 c"
    and cs: "\<And>i. i < next_counter w2 \<Longrightarrow> i \<noteq> k \<Longrightarrow> cs i = counters w2 i"
    using Cons.IH [OF Cons.prems(1) [OF list.set_intros(2)] distinct2 states2 counter2] unfolding Let_def by blast
  have "awaited r w' (next_counter w) t ?h = awaited r w1 (next_counter w) t ?h"
  proof (rule awaited_cong)
    fix c assume "c \<in> set (needs t)"
    then have "c \<notin> set (concat (map needs ts))" using Cons.prems(2) by auto
    then show "states w' c = states w1 c \<and> r c = r c" using ss by (simp add: w' w2_def)
  next
    fix i assume "next_counter w \<le> i" "i < next_counter w + waits_for_all t"
    then show "counters w' i = counters w1 i" using cs [of i] Cons.prems(4) by (simp add: w' w2_def w1)
  qed
  with aw1 aw have "all_awaited r w' (next_counter w) (t # ts) ?h" by (simp add: w2_def w1)
  moreover have "cs k = counters w k + length (filter (ready r) (t # ts))"
    using csk by (simp add: w2_def m_def)
  moreover have "run_calls (map (\<lambda>f. Async_wait f ?h) (map future_of (t # ts)) @ rest) w =
      run_calls (only_if (t # ts \<noteq> [] \<and> cs k = n) (Call h Void) @ rest) w'" for rest
  proof -
    show ?thesis
    proof (cases "ready r t \<and> m = n")
      case True
      then have "ts = []" using Cons.prems(5) by (auto simp: m_def)
      moreover have "cs k = n" using True csk \<open>ts = []\<close> by (simp add: w2_def)
      ultimately show ?thesis using True run [of "Call h Void # rest"] by (simp add: run2)
    next
      case False
      then have "ts = [] \<Longrightarrow> cs k \<noteq> n" using csk Cons.prems(5) by (auto simp: w2_def m_def split: if_splits)
      then have "ts \<noteq> [] \<and> cs k = n \<longleftrightarrow> cs k = n" by blast
      with False run [of rest] show ?thesis by (auto simp: run2)
    qed
  qed
  ultimately show ?case
    using ss ss1 cs cs1 Cons.prems(4)
    by (intro exI [of _ ss] exI [of _ cs]) (auto simp: Let_def w' w2_def w1 add.assoc)
qed

lemma plan_starts_waiting:
  "distinct (needs t) \<Longrightarrow> (\<And>c. c \<in> set (needs t) \<Longrightarrow> states w c = as_state (r c)) \<Longrightarrow> starts_waiting r w t h"
proof (induction t arbitrary: w h)
  case (Operation state w h)
  then show ?case
    unfolding starts_waiting_def Let_def
    by (intro exI [of _ "if r state = None then (states w)(state := Handler_state h) else states w"]
        exI [of _ "counters w"]) (auto simp: wait_for_state_def)
next
  case (Transformed t f w h)
  then have "starts_waiting r w t (H_transform f h)" by simp
  then obtain ss cs where
    "\<And>rest. run_calls (Call_wait (future_of t) (H_transform f h) # rest) w =
       run_calls (only_if (ready r t) (Call (H_transform f h) (outcome r t)) @ rest)
         (w\<lparr>states := ss, counters := cs, next_counter := next_counter w + waits_for_all t\<rparr>)"
    "awaited r (w\<lparr>states := ss, counters := cs, next_counter := next_counter w + waits_for_all t\<rparr>)
       (next_counter w) t (H_transform f h)"
    "\<forall>c. c \<notin> set (needs t) \<longrightarrow> ss c = states w c" "\<forall>i. i < next_counter w \<longrightarrow> cs i = counters w i"
    unfolding starts_waiting_def Let_def by blast
  then show ?case
    unfolding starts_waiting_def Let_def
    by (intro exI [of _ ss] exI [of _ cs]) (simp add: future_then_def apply_transform_def)
next
  case (All_of ts w h)
  let ?k = "next_counter w"
  let ?w = "w\<lparr>counters := (counters w)(?k := 0), next_counter := Suc ?k\<rparr>"
  have "\<exists>ss cs. let w' = ?w\<lparr>states := ss, counters := cs,
        next_counter := next_counter ?w + sum_list (map waits_for_all ts)\<rparr>
      in (\<forall>rest. run_calls (map (\<lambda>f. Async_wait f (H_count ?k (length ts) h)) (map future_of ts) @ rest) ?w =
            run_calls (only_if (ts \<noteq> [] \<and> cs ?k = length ts) (Call h Void) @ rest) w') \<and>
         all_awaited r w' (next_counter ?w) ts (H_count ?k (length ts) h) \<and>
         cs ?k = counters ?w ?k + length (filter (ready r) ts) \<and>
         (\<forall>c. c \<notin> set (concat (map needs ts)) \<longrightarrow> ss c = states ?w c) \<and>
         (\<forall>i. i < next_counter ?w \<and> i \<noteq> ?k \<longrightarrow> cs i = counters ?w i)"
    using All_of.prems
    by (intro waits_for_each All_of.IH) (auto simp: distinct_concat_iff)
  then obtain ss cs where
    run: "\<And>rest. run_calls (map (\<lambda>f. Async_wait f (H_count ?k (length ts) h)) (map future_of ts) @ rest) ?w =
       run_calls (only_if (ts \<noteq> [] \<and> cs ?k = length ts) (Call h Void) @ rest)
         (w\<lparr>states := ss, counters := cs, next_counter := Suc ?k + sum_list (map waits_for_all ts)\<rparr>)"
    and aw: "all_awaited r (w\<lparr>states := ss, counters := cs, next_counter := Suc ?k + sum_list (map waits_for_all ts)\<rparr>)
       (Suc ?k) ts (H_count ?k (length ts) h)"
    and count: "cs ?k = length (filter (ready r) ts)"
    and rest: "\<And>c. c \<notin> set (concat (map needs ts)) \<Longrightarrow> ss c = states w c"
      "\<And>i. i < ?k \<Longrightarrow> cs i = counters w i"
    unfolding Let_def by auto
  have "ready r (All_of ts) \<longleftrightarrow> ts \<noteq> [] \<and> cs ?k = length ts"
    unfolding count length_filter_all by (auto simp: list_all_iff)
  with run aw count rest show ?case
    unfolding starts_waiting_def Let_def
    by (intro exI [of _ ss] exI [of _ cs]) (simp add: when_all_def wait_for_all_def Let_def comp_def)
qed

subsection \<open>Results and the call of \<open>async_wait\<close> in any order\<close>

datatype 'v future_event =
    Completes nat "'v result_value"       \<comment> \<open>an operation calls its handler\<close>
  | Waits "'v future" "'v handler"        \<comment> \<open>\<open>async_wait\<close> with a handler\<close>

primrec call_of_event :: "'v future_event \<Rightarrow> 'v task" where
  "call_of_event (Completes state v) = Call (H_future state) v"
| "call_of_event (Waits f h) = Async_wait f h"

primrec run_events :: "'v future_event list \<Rightarrow> 'v future_world \<Rightarrow> (future_failure + 'v future_world) option" where
  "run_events [] w = Some (Inr w)"
| "run_events (e # es) w =
     (case run_calls [call_of_event e] w of Some (Inr w') \<Rightarrow> run_events es w' | r \<Rightarrow> r)"

lemma run_events_append:
  "run_events es w = Some (Inr w') \<Longrightarrow> run_events (es @ fs) w = run_events fs w'"
  by (induction es arbitrary: w) (auto split: option.splits sum.splits)

abbreviation completes :: "(nat \<times> 'v result_value) list \<Rightarrow> 'v future_event list" where
  "completes rs \<equiv> map (\<lambda>(c, v). Completes c v) rs"

lemma run_completes_early:
  "distinct (map fst rs) \<Longrightarrow> (\<And>c. c \<in> fst ` set rs \<Longrightarrow> states w c = Unit_state) \<Longrightarrow>
   run_events (completes rs) w =
     Some (Inr (w\<lparr>states := (\<lambda>c. case map_of rs c of None \<Rightarrow> states w c | Some v \<Rightarrow> Result_state v)\<rparr>))"
proof (induction rs arbitrary: w)
  case (Cons r rs)
  obtain c v where r: "r = (c, v)" by (cases r)
  let ?w = "w\<lparr>states := (states w)(c := Result_state v)\<rparr>"
  have "run_events (completes rs) ?w =
      Some (Inr (?w\<lparr>states := (\<lambda>c. case map_of rs c of None \<Rightarrow> states ?w c | Some v \<Rightarrow> Result_state v)\<rparr>))"
    using Cons.prems r by (intro Cons.IH) auto
  moreover have "map_of rs c = None" using Cons.prems(1) r by (simp add: map_of_eq_None_iff)
  then have "(\<lambda>c. case map_of rs c of None \<Rightarrow> states ?w c | Some v \<Rightarrow> Result_state v) =
      (\<lambda>c. case map_of (r # rs) c of None \<Rightarrow> states w c | Some v \<Rightarrow> Result_state v)"
    using r by (auto simp: fun_eq_iff split: option.splits)
  ultimately show ?case using Cons.prems(2) [of c] by (simp add: r call_future_handler_def)
qed simp

lemma outcome_cong: "(\<And>c. c \<in> set (needs t) \<Longrightarrow> r' c = r c) \<Longrightarrow> outcome r' t = outcome r t"
  by (induction t) auto

text \<open>What the user has seen of the plan, and what is left to arrive.\<close>

definition plan_inv ::
  "'v arrivals \<Rightarrow> 'v future_world \<Rightarrow> nat \<Rightarrow> 'v plan \<Rightarrow> nat \<Rightarrow> 'v observation list \<Rightarrow> bool" where
  "plan_inv r w k t n seen \<longleftrightarrow>
     awaited r w k t (H_user n) \<and>
     observed w = seen @ (if ready r t then [User_called n (outcome r t)] else [])"

lemma run_completes_late:
  "plan_inv r w k t n seen \<Longrightarrow> distinct (needs t) \<Longrightarrow> distinct (map fst rs) \<Longrightarrow>
   (\<And>c. c \<in> fst ` set rs \<Longrightarrow> r c = None) \<Longrightarrow>
   (\<And>c. c \<in> fst ` set rs \<Longrightarrow> c \<notin> set (needs t) \<Longrightarrow> states w c = Unit_state) \<Longrightarrow>
   \<exists>w'. run_events (completes rs) w = Some (Inr w') \<and> plan_inv (r ++ map_of rs) w' k t n seen"
proof (induction rs arbitrary: r w)
  case (Cons x rs)
  obtain c v where x: "x = (c, v)" by (cases x)
  let ?r = "r(c \<mapsto> v)"
  have "map_of rs c = None" using Cons.prems(3) x by (simp add: map_of_eq_None_iff)
  then have r: "r ++ map_of (x # rs) = ?r ++ map_of rs"
    using x by (auto simp: fun_eq_iff map_add_def split: option.splits)
  have "\<exists>w1. run_calls [Call (H_future c) v] w = Some (Inr w1) \<and> plan_inv ?r w1 k t n seen \<and>
    (\<forall>d. d \<noteq> c \<longrightarrow> states w1 d = states w d)"
  proof (cases "c \<in> set (needs t)")
    case True
    have None: "r c = None" using Cons.prems(4) x by simp
    have "awaited r w k t (H_user n)" using Cons.prems(1) by (simp add: plan_inv_def)
    then obtain h' cs where "states w c = Handler_state h'"
      and run: "\<And>rest. run_calls (Call h' v # rest) w =
       run_calls ((if ready ?r t then [Call (H_user n) (outcome ?r t)] else []) @ rest) (w\<lparr>counters := cs\<rparr>)"
      and aw: "awaited ?r (w\<lparr>counters := cs\<rparr>) k t (H_user n)"
      using arrival_leads_up [of c ?r r v w k t "H_user n"] Cons.prems(2) True None by auto
    let ?w = "w\<lparr>counters := cs, observed := observed w @ (if ready ?r t then [User_called n (outcome ?r t)] else [])\<rparr>"
    have "run_calls [Call (H_future c) v] w = Some (Inr ?w)"
      using run [of "[]"] \<open>states w c = Handler_state h'\<close> by (simp add: call_future_handler_def)
    moreover have "awaited ?r ?w k t (H_user n) = awaited ?r (w\<lparr>counters := cs\<rparr>) k t (H_user n)"
      by (rule awaited_cong) simp_all
    moreover have "\<not> ready r t" using unready [of c t r] True None by simp
    ultimately show ?thesis using Cons.prems(1) aw by (intro exI [of _ ?w]) (simp add: plan_inv_def)
  next
    case False
    let ?w = "w\<lparr>states := (states w)(c := Result_state v)\<rparr>"
    have other: "\<And>d. d \<in> set (needs t) \<Longrightarrow> ?r d = r d" using False by auto
    have "run_calls [Call (H_future c) v] w = Some (Inr ?w)"
      using Cons.prems(5) [of c] False x by (simp add: call_future_handler_def)
    moreover have "awaited ?r ?w k t (H_user n) = awaited r w k t (H_user n)"
      using False by (intro awaited_cong) auto
    ultimately show ?thesis
      using Cons.prems(1) ready_cong [of t ?r r, OF other] outcome_cong [of t ?r r, OF other]
      by (intro exI [of _ ?w]) (simp add: plan_inv_def)
  qed
  then obtain w1 where w1: "run_calls [Call (H_future c) v] w = Some (Inr w1)" "plan_inv ?r w1 k t n seen"
    "\<And>d. d \<noteq> c \<Longrightarrow> states w1 d = states w d" by blast
  have "\<exists>w'. run_events (completes rs) w1 = Some (Inr w') \<and> plan_inv (?r ++ map_of rs) w' k t n seen"
  proof (rule Cons.IH [OF w1(2) Cons.prems(2)])
    show "distinct (map fst rs)" using Cons.prems(3) by simp
    fix d assume d: "d \<in> fst ` set rs"
    then have "d \<noteq> c" using Cons.prems(3) x by auto
    with d Cons.prems(4) [of d] show "?r d = None" by simp
    assume "d \<notin> set (needs t)"
    with d Cons.prems(5) [of d] w1(3) [OF \<open>d \<noteq> c\<close>] show "states w1 d = Unit_state" by simp
  qed
  then show ?case unfolding r by (simp add: x w1(1))
qed simp

text \<open>C30: A future that is made with \<open>then\<close> and \<open>when_all\<close> from the futures of operations and is
  waited for once calls its handler exactly once, with the outcome of the results, when
  everything it needs has arrived, and not before: whichever results arrive before the call of
  \<open>async_wait\<close> and whichever after it, in every order. Nothing fails, and all calls return.\<close>

theorem futures_deliver_once:
  assumes "distinct (needs t)" and "distinct (map fst (before @ after))"
    and "\<forall>c \<in> set (needs t) \<union> fst ` set (before @ after). states w c = Unit_state"
  shows "\<exists>w'. run_events (completes before @ [Waits (future_of t) (H_user n)] @ completes after) w = Some (Inr w') \<and>
    observed w' = observed w @
      (if ready (map_of (before @ after)) t then [User_called n (outcome (map_of (before @ after)) t)] else [])"
proof -
  let ?r = "map_of before"
  let ?w = "w\<lparr>states := (\<lambda>c. case ?r c of None \<Rightarrow> states w c | Some v \<Rightarrow> Result_state v)\<rparr>"
  have early: "run_events (completes before) w = Some (Inr ?w)"
    using assms(2,3) by (intro run_completes_early) auto
  have "starts_waiting ?r ?w t (H_user n)"
    using assms(1,3) by (intro plan_starts_waiting) (auto split: option.splits)
  then obtain ss cs w1 where w1: "w1 = ?w\<lparr>states := ss, counters := cs, next_counter := next_counter w + waits_for_all t\<rparr>"
    and run: "\<And>rest. run_calls (Call_wait (future_of t) (H_user n) # rest) ?w =
       run_calls (only_if (ready ?r t) (Call (H_user n) (outcome ?r t)) @ rest) w1"
    and aw: "awaited ?r w1 (next_counter w) t (H_user n)"
    and ss: "\<And>c. c \<notin> set (needs t) \<Longrightarrow> ss c = states ?w c"
    unfolding starts_waiting_def Let_def by auto
  let ?w2 = "w1\<lparr>observed := observed w @ (if ready ?r t then [User_called n (outcome ?r t)] else [])\<rparr>"
  have wait: "run_events [Waits (future_of t) (H_user n)] ?w = Some (Inr ?w2)"
    using run [of "[]"] by (simp add: run_async_wait w1)
  have "awaited ?r ?w2 (next_counter w) t (H_user n) = awaited ?r w1 (next_counter w) t (H_user n)"
    by (rule awaited_cong) simp_all
  with aw have inv: "plan_inv ?r ?w2 (next_counter w) t n (observed w)" by (simp add: plan_inv_def)
  have "\<exists>w'. run_events (completes after) ?w2 = Some (Inr w') \<and>
      plan_inv (?r ++ map_of after) w' (next_counter w) t n (observed w)"
  proof (rule run_completes_late [OF inv assms(1)])
    show "distinct (map fst after)" using assms(2) by simp
    fix c assume c: "c \<in> fst ` set after"
    with assms(2) show none: "?r c = None" by (auto simp: map_of_eq_None_iff)
    assume "c \<notin> set (needs t)"
    with c ss none assms(3) show "states ?w2 c = Unit_state" by (auto simp: w1)
  qed
  moreover have "?r ++ map_of after = map_of (before @ after)"
    using assms(2) by (simp add: map_add_comm dom_map_of_conv_image_fst)
  ultimately show ?thesis
    using run_events_append [OF early] run_events_append [OF wait]
    by (auto simp: plan_inv_def simp del: run_events.simps)
qed

abbreviation two_operations :: "nat future_world" where
  "two_operations \<equiv> snd (snd (token_use_future (snd (snd (token_use_future future_world_init)))))"

abbreviation example_plan :: "nat plan" where
  "example_plan \<equiv> Transformed (All_of [Operation 0, Transformed (Operation 1) (\<lambda>v. Void)]) (\<lambda>v. Value 9)"

theorem futures_deliver_once_witness:
  "\<exists>w'. run_events (completes [(1, Value 5)] @ [Waits (future_of example_plan) (H_user 7)] @ completes [(0, Value 3)])
     two_operations = Some (Inr w') \<and>
   observed w' = [User_called 7 (Value 9)]"
  using futures_deliver_once [of example_plan "[(1, Value 5)]" "[(0, Value 3)]" two_operations 7]
  by (simp add: token_use_future_def future_world_init_def Let_def del: run_events.simps future_of.simps)

text \<open>A future that waits for nothing is never ready: \<open>when_all()\<close> throws its handler away.\<close>

lemma when_all_of_nothing_never_completes:
  "\<exists>w'. run_events (Waits (when_all []) (H_user n) # completes []) w = Some (Inr w') \<and> observed w' = observed w"
  by (simp add: when_all_def wait_for_all_def Let_def)

text \<open>The completion token \<open>then(action)\<close>: when its future is waited for before the operation
  completes, the action is called with the result and the waiting handler after it; an operation
  that completes before its future is waited for calls the action and then an empty
  \<open>std::function\<close>, which throws \<open>std::bad_function_call\<close>.\<close>

lemma then_token_needs_wait_first:
  "case token_then action w of (handler, future, w') \<Rightarrow>
     (\<exists>w''. run_calls [Async_wait future (H_user n), Call handler v] w' = Some (Inr w'') \<and>
        observed w'' = observed w @ [Action_called action v, User_called n Void]) \<and>
     run_calls [Call handler v, Async_wait future (H_user n)] w' = Some (Inl Bad_function_call)"
  by (simp add: token_then_def Let_def wait_for_finished_def call_then_handler_def)

end
