(* ===== verification/Websocket_Stream.thy ===== *)
theory Websocket_Stream
  imports Begin_Parse_Value
begin

text \<open>
  \<open>warpcoil/beast.hpp\<close>: \<open>async_stream_adaptor\<close> makes a stream of octets of the messages of a
  web socket. Octets that have arrived and that nobody has asked for yet are in
  \<open>m_receive_buffer\<close>; a read is served from there, and only when it is empty a message is read
  from the web socket.
  The web socket (\<open>beast::websocket::stream\<close>, third-party) is what completes its reads: with an
  error code, the opcode of a message, and the octets it has put into the buffer.
  A handler sees an error code through \<open>!!ec\<close>, which is true when the value of the code is not 0;
  \<open>None\<close> is a code for which it is false.
\<close>

datatype opcode =
    Op_cont | Op_text | Op_binary | Op_rsv3 | Op_rsv4 | Op_rsv5 | Op_rsv6 | Op_rsv7 | Op_close
  | Op_ping | Op_pong | Op_crsvb | Op_crsvc | Op_crsvd | Op_crsve | Op_crsvf

datatype websocket_error = Websocket_close | Websocket_unexpected_opcode

text \<open>\<open>static_cast<int>(error)\<close>: the enumerators have the values 0 and 1.\<close>

primrec websocket_error_value :: "websocket_error \<Rightarrow> nat" where
  "websocket_error_value Websocket_close = 0"
| "websocket_error_value Websocket_unexpected_opcode = 1"

definition websocket_error_code :: "websocket_error \<Rightarrow> error_code option" where
  "websocket_error_code e =
     (if websocket_error_value e = 0 then None else Some (Transport_error (websocket_error_value e)))"

record websocket_adaptor =
  pending_octets :: bytes           \<comment> \<open>\<open>m_receive_buffer\<close>\<close>
  reading :: "nat option"           \<comment> \<open>the size of the buffers of an outstanding read\<close>

definition websocket_adaptor_init :: websocket_adaptor where
  "websocket_adaptor_init = \<lparr>pending_octets = [], reading = None\<rparr>"

definition read_from_receive_buffer :: "nat \<Rightarrow> websocket_adaptor \<Rightarrow> bytes \<times> websocket_adaptor" where
  "read_from_receive_buffer n s = (take n (pending_octets s), s\<lparr>pending_octets := drop n (pending_octets s)\<rparr>)"

text \<open>\<open>async_read_some\<close>: the arguments of the handler if it is called at once.\<close>

definition websocket_async_read_some ::
  "nat \<Rightarrow> websocket_adaptor \<Rightarrow> (error_code option \<times> bytes) option \<times> websocket_adaptor" where
  "websocket_async_read_some n s =
     (case read_from_receive_buffer n s of
        (read, s) \<Rightarrow> if read \<noteq> [] then (Some (None, read), s) else (None, s\<lparr>reading := Some n\<rparr>))"

text \<open>What the web socket completes a read with.\<close>

type_synonym websocket_message = "error_code option \<times> opcode \<times> bytes"

definition read_operation_complete ::
  "websocket_message \<Rightarrow> websocket_adaptor \<Rightarrow> (error_code option \<times> bytes) \<times> websocket_adaptor" where
  "read_operation_complete m s =
     (case m of (ec, received_opcode, payload) \<Rightarrow>
        let n = the (reading s);
            s = s\<lparr>pending_octets := pending_octets s @ payload, reading := None\<rparr>
        in case ec of
             Some e \<Rightarrow> ((Some e, []), s)
           | None \<Rightarrow>
               if received_opcode = Op_binary \<or> received_opcode = Op_text
               then (case read_from_receive_buffer n s of (read, s) \<Rightarrow> ((None, read), s))
               else if received_opcode = Op_close then ((websocket_error_code Websocket_close, []), s)
               else ((websocket_error_code Websocket_unexpected_opcode, []), s))"

text \<open>\<open>async_write_some\<close> sends one message; the handler gets the number of octets of the buffers.\<close>

definition websocket_async_write_some :: "bytes \<Rightarrow> opcode \<times> bytes" where
  "websocket_async_write_some buffers = (Op_binary, buffers)"

definition write_operation_complete :: "error_code option \<Rightarrow> bytes \<Rightarrow> error_code option \<times> nat" where
  "write_operation_complete ec buffers = (ec, case ec of Some e \<Rightarrow> 0 | None \<Rightarrow> length buffers)"

text \<open>
  A parse operation on top of the adaptor, against the completions of the reads of the web socket:
  how it ends, or that it waits, with what is left in the adaptor and in the web socket.
\<close>

function run_over_websocket ::
  "('s, 'r) parser_class \<Rightarrow> 's parse_operation \<times> 'r parse_event \<Rightarrow> websocket_adaptor \<Rightarrow> websocket_message list \<Rightarrow>
    ('s parse_operation \<times> 'r parse_event) \<times> websocket_adaptor \<times> websocket_message list" where
  "run_over_websocket c (op, On_result i r) s messages = ((op, On_result i r), s, messages)"
| "run_over_websocket c (op, Async_read_some n) s messages =
     (case websocket_async_read_some n s of
        (Some (ec, read), s) \<Rightarrow> run_over_websocket c (on_read c ec read op) s messages
      | (None, s) \<Rightarrow>
          (case messages of
             [] \<Rightarrow> ((op, Async_read_some n), s, [])
           | m # messages \<Rightarrow>
               (case read_operation_complete m s of
                  ((ec, read), s) \<Rightarrow> run_over_websocket c (on_read c ec read op) s messages)))"
  by pat_completeness auto
termination
  by (relation "measures [\<lambda>(c, e, s, messages). length messages, \<lambda>(c, e, s, messages). length (pending_octets s)]")
    (auto simp: websocket_async_read_some_def read_from_receive_buffer_def split: prod.splits if_splits)

subsection \<open>The framing of the web socket does not matter\<close>

text \<open>The octets of messages, and the pieces in which reads of \<open>n\<close> octets get them.\<close>

definition is_data :: "websocket_message \<Rightarrow> bool" where
  "is_data m \<longleftrightarrow> (case m of (ec, received_opcode, payload) \<Rightarrow>
     ec = None \<and> (received_opcode = Op_binary \<or> received_opcode = Op_text))"

definition payloads :: "websocket_message list \<Rightarrow> bytes" where
  "payloads messages = concat (map (snd \<circ> snd) messages)"

lemma start_reads_512: "start c sure op = (op', Async_read_some n) \<Longrightarrow> n = 512"
  by (auto simp: start_def Let_def split: option.splits prod.splits loop_exit.splits if_splits)

lemma on_read_512: "on_read c ec read op = (op', Async_read_some n) \<Longrightarrow> n = 512"
  by (auto simp: on_read_def split: option.splits dest: start_reads_512)

lemma run_over_websocket_reads:
  assumes "list_all is_data messages" and "\<And>n. snd e = Async_read_some n \<Longrightarrow> n = 512"
  shows "\<exists>chunks unread s' messages'. concat chunks = pending_octets s @ payloads messages \<and>
    run_reads c e (delivered chunks) = (fst (fst (run_over_websocket c e s messages)),
      snd (fst (run_over_websocket c e s messages)), delivered unread) \<and>
    snd (run_over_websocket c e s messages) = (s', messages') \<and>
    concat unread = pending_octets s' @ payloads messages'"
  using assms
proof (induction c e s messages rule: run_over_websocket.induct)
  case (1 c op i r s messages)
  then show ?case
    by (intro exI [of _ "[pending_octets s @ payloads messages]"]) simp
next
  case (2 c op n s messages)
  then have n: "n = 512" by simp
  show ?case
  proof (cases "pending_octets s = []")
    case False
    let ?read = "take 512 (pending_octets s)" and ?s = "s\<lparr>pending_octets := drop 512 (pending_octets s)\<rparr>"
    have step: "websocket_async_read_some n s = (Some (None, ?read), ?s)"
      using False by (simp add: websocket_async_read_some_def read_from_receive_buffer_def n)
    have "\<And>m. snd (on_read c None ?read op) = Async_read_some m \<Longrightarrow> m = 512"
      by (metis on_read_512 prod.collapse)
    from "2.IH"(2) [OF step [symmetric] refl refl \<open>list_all is_data messages\<close> this]
    obtain chunks unread s' messages' where
      "concat chunks = pending_octets ?s @ payloads messages"
      "run_reads c (on_read c None ?read op) (delivered chunks) =
        (fst (fst (run_over_websocket c (on_read c None ?read op) ?s messages)),
         snd (fst (run_over_websocket c (on_read c None ?read op) ?s messages)), delivered unread)"
      "snd (run_over_websocket c (on_read c None ?read op) ?s messages) = (s', messages')"
      "concat unread = pending_octets s' @ payloads messages'" by blast
    then show ?thesis
      by - (rule exI [of _ "?read # chunks"], rule exI [of _ unread], rule exI [of _ s'], rule exI [of _ messages'],
          simp add: step flip: append_assoc)
  next
    case True
    have wait: "websocket_async_read_some n s = (None, s\<lparr>pending_octets := [], reading := Some 512\<rparr>)"
      using True by (simp add: websocket_async_read_some_def read_from_receive_buffer_def n)
    show ?thesis
    proof (cases messages)
      case Nil
      with True wait show ?thesis
        by (intro exI [of _ "[]"]) (simp add: payloads_def)
    next
      case (Cons m messages')
      with "2.prems"(1) have data: "list_all is_data messages'" and "is_data m" by simp_all
      then obtain received_opcode payload where m: "m = (None, received_opcode, payload)"
        "received_opcode = Op_binary \<or> received_opcode = Op_text"
        by (cases m) (simp add: is_data_def)
      let ?read = "take 512 payload" and ?s = "s\<lparr>pending_octets := drop 512 payload, reading := None\<rparr>"
      have step: "read_operation_complete m (s\<lparr>pending_octets := [], reading := Some 512\<rparr>) = ((None, ?read), ?s)"
        using m by (simp add: read_operation_complete_def read_from_receive_buffer_def)
      have "\<And>m. snd (on_read c None ?read op) = Async_read_some m \<Longrightarrow> m = 512"
        by (metis on_read_512 prod.collapse)
      from "2.IH"(1) [OF wait [symmetric] refl Cons step [symmetric] refl data this]
      obtain chunks unread s' messages'' where
        "concat chunks = pending_octets ?s @ payloads messages'"
        "run_reads c (on_read c None ?read op) (delivered chunks) =
          (fst (fst (run_over_websocket c (on_read c None ?read op) ?s messages')),
           snd (fst (run_over_websocket c (on_read c None ?read op) ?s messages')), delivered unread)"
        "snd (run_over_websocket c (on_read c None ?read op) ?s messages') = (s', messages'')"
        "concat unread = pending_octets s' @ payloads messages''" by blast
      then show ?thesis
        by - (rule exI [of _ "?read # chunks"], rule exI [of _ unread], rule exI [of _ s'], rule exI [of _ messages''],
          simp add: True wait step [unfolded m(1)] Cons m payloads_def flip: append_assoc)
    qed
  qed
qed

lemma websocket_async_read_some_empty:
  "pending_octets s = [] \<Longrightarrow> websocket_async_read_some n s = (None, s\<lparr>reading := Some n\<rparr>)"
  by (cases s) (simp add: websocket_async_read_some_def read_from_receive_buffer_def)

lemma websocket_async_read_some_pending:
  "pending_octets s \<noteq> [] \<Longrightarrow> n \<noteq> 0 \<Longrightarrow> websocket_async_read_some n s =
    (Some (None, take n (pending_octets s)), s\<lparr>pending_octets := drop n (pending_octets s)\<rparr>)"
  by (simp add: websocket_async_read_some_def read_from_receive_buffer_def)

lemma on_read_not_0: "snd (on_read c ec read op) \<noteq> Async_read_some 0"
  by (metis on_read_512 prod.collapse zero_neq_numeral)

lemma run_over_websocket_resumes:
  assumes "run_over_websocket c e s messages = ((op, Async_read_some n), s', messages')"
    and "snd e \<noteq> Async_read_some 0"
  shows "messages' = [] \<and> pending_octets s' = [] \<and> reading s' = Some n \<and>
    run_over_websocket c e s (messages @ ms) = run_over_websocket c (op, Async_read_some n) s' ms"
  using assms
proof (induction c e s messages rule: run_over_websocket.induct)
  case (2 c opa m s messages)
  note pending = websocket_async_read_some_pending and empty = websocket_async_read_some_empty
  show ?case
  proof (cases "pending_octets s = []")
    case False
    with "2.prems" "2.IH"(2) [OF pending [symmetric] refl refl] show ?thesis
      by (simp add: pending on_read_not_0)
  next
    case True
    show ?thesis
    proof (cases messages)
      case Nil
      with "2.prems" True show ?thesis by (auto simp: empty)
    next
      case (Cons message rest)
      obtain ec read t where complete: "read_operation_complete message (s\<lparr>reading := Some m\<rparr>) = ((ec, read), t)"
        by (metis prod.collapse)
      with "2.prems" "2.IH"(1) [OF empty [OF True, symmetric] refl Cons complete [symmetric] refl] Cons True
      show ?thesis by (simp add: empty on_read_not_0)
    qed
  qed
qed simp

text \<open>A parse operation on the adaptor, against all octets of the messages at once.\<close>

lemma run_over_websocket_feed:
  assumes "no_empty p" and "list_all is_data messages"
  shows "\<exists>op e s rest_messages.
    run_over_websocket (parser_class_of is_valid p) (begin_parse_value (parser_class_of is_valid p) [])
      websocket_adaptor_init messages = ((op, e), s, rest_messages) \<and>
    (case feed (class_parse (parser_class_of is_valid p)) (class_init (parser_class_of is_valid p)) (payloads messages) of
       Done v rest \<Rightarrow> (\<exists>i. e = On_result i (Inr v)) \<and>
         receive_buffer op @ pending_octets s @ payloads rest_messages = rest
     | Failed \<Rightarrow> \<exists>i. e = On_result i (Inl Invalid_input_error)
     | Pending p' \<Rightarrow> e = Async_read_some 512 \<and> op = \<lparr>receive_buffer = [], parser = p'\<rparr>)"
proof -
  let ?c = "parser_class_of is_valid p"
  let ?op = "\<lparr>receive_buffer = [], parser = class_init ?c\<rparr>"
  have "\<And>n. snd (begin_parse_value ?c []) = Async_read_some n \<Longrightarrow> n = 512"
    by (metis begin_parse_value_def start_reads_512 prod.collapse)
  from run_over_websocket_reads [OF assms(2), where c = ?c and e = "begin_parse_value ?c []" and s = websocket_adaptor_init, OF this]
  obtain chunks unread s' messages' where
    chunks: "concat chunks = payloads messages"
    and run: "run_reads ?c (begin_parse_value ?c []) (delivered chunks) =
      (fst (fst (run_over_websocket ?c (begin_parse_value ?c []) websocket_adaptor_init messages)),
       snd (fst (run_over_websocket ?c (begin_parse_value ?c []) websocket_adaptor_init messages)), delivered unread)"
    and rest: "snd (run_over_websocket ?c (begin_parse_value ?c []) websocket_adaptor_init messages) = (s', messages')"
      "concat unread = pending_octets s' @ payloads messages'"
    by (auto simp: websocket_adaptor_init_def simp del: split_paired_Ex)
  obtain op e where over: "run_over_websocket ?c (begin_parse_value ?c []) websocket_adaptor_init messages = ((op, e), s', messages')"
    using rest(1) by (metis prod.collapse)
  have delivered_inj: "xs = ys" if "delivered xs = delivered ys" for xs ys
    using that by (simp add: inj_map_eq_map inj_def)
  have run': "run_reads ?c (start ?c False ?op) (delivered chunks) = (op, e, delivered unread)"
    using run over by (simp add: begin_parse_value_def)
  have "case feed (class_parse ?c) (class_init ?c) (payloads messages) of
       Done v rest \<Rightarrow> (\<exists>i. e = On_result i (Inr v)) \<and>
         receive_buffer op @ pending_octets s' @ payloads messages' = rest
     | Failed \<Rightarrow> \<exists>i. e = On_result i (Inl Invalid_input_error)
     | Pending p' \<Rightarrow> e = Async_read_some 512 \<and> op = \<lparr>receive_buffer = [], parser = p'\<rparr>"
    using run_reads_feed [OF no_empty_never_immediate [OF assms(1), of is_valid], where seen = "[]"
      and sure = False and op = ?op and chunks = chunks] run'
    by (auto simp: reached_by_init chunks rest(2) dest!: delivered_inj split: feed_result.splits)
  with over show ?thesis by blast
qed

text \<open>C35: How a web socket cuts the octets into messages does not matter: a parse operation on the
  adaptor ends as if all octets of the messages had been in its buffer at once, and the octets after
  the value are in its buffer, in that of the adaptor, or in messages that were not read.\<close>

theorem websocket_framing_does_not_matter:
  assumes "no_empty p" and "list_all is_data messages"
  shows "\<exists>op e s rest_messages.
    run_over_websocket (parser_class_of is_valid p) (begin_parse_value (parser_class_of is_valid p) [])
      websocket_adaptor_init messages = ((op, e), s, rest_messages) \<and>
    (case feed (class_parse (parser_class_of is_valid p)) (class_init (parser_class_of is_valid p)) (payloads messages) of
       Done v rest \<Rightarrow> (\<exists>i. e = On_result i (Inr v)) \<and>
         receive_buffer op @ pending_octets s @ payloads rest_messages = rest
     | Failed \<Rightarrow> \<exists>i. e = On_result i (Inl Invalid_input_error)
     | Pending p' \<Rightarrow> e = Async_read_some 512 \<and> op = \<lparr>receive_buffer = [], parser = p'\<rparr>)"
  using assms by (rule run_over_websocket_feed)

theorem websocket_framing_does_not_matter_witness:
  "\<exists>op i s rest_messages.
    run_over_websocket (parser_class_of (\<lambda>s. True) (P_integer Uint16))
      (begin_parse_value (parser_class_of (\<lambda>s. True) (P_integer Uint16)) []) websocket_adaptor_init
      [(None, Op_binary, [1]), (None, Op_binary, []), (None, Op_text, [2, 3]), (None, Op_binary, [4])] =
      ((op, On_result i (Inr (V_uint16 258))), s, rest_messages) \<and>
    receive_buffer op @ pending_octets s @ payloads rest_messages = [3, 4]"
proof -
  let ?messages = "[(None, Op_binary, [1]), (None, Op_binary, []), (None, Op_text, [2, 3]), (None, Op_binary, [4])]
    :: websocket_message list"
  have "feed (class_parse (parser_class_of (\<lambda>s. True) (P_integer Uint16)))
      (class_init (parser_class_of (\<lambda>s. True) (P_integer Uint16))) (payloads ?messages) = Done (V_uint16 258) [3, 4]"
    by code_simp
  with websocket_framing_does_not_matter [of "P_integer Uint16" ?messages "\<lambda>s. True"]
  show ?thesis by (simp add: is_data_def del: parser_class_of.simps) blast
qed

text \<open>The end of a connection is not an error: the enumerator \<open>websocket_error::close\<close> has the
  value 0, so that \<open>!!ec\<close> is false for the error code that the adaptor makes of it. A parse operation
  that is in the middle of a value takes a close message for a read of no octets and reads again,
  while any other unexpected opcode ends it with an error.\<close>

theorem websocket_close_is_not_an_error:
  assumes "no_empty p" and "list_all is_data messages"
    and "feed (class_parse (parser_class_of is_valid p)) (class_init (parser_class_of is_valid p)) (payloads messages) =
      Pending q"
    and "received_opcode \<notin> {Op_binary, Op_text, Op_close}"
  shows "run_over_websocket (parser_class_of is_valid p) (begin_parse_value (parser_class_of is_valid p) [])
      websocket_adaptor_init (messages @ (None, Op_close, []) # ms) =
    run_over_websocket (parser_class_of is_valid p) (begin_parse_value (parser_class_of is_valid p) [])
      websocket_adaptor_init (messages @ ms) \<and>
    (\<exists>op s. run_over_websocket (parser_class_of is_valid p) (begin_parse_value (parser_class_of is_valid p) [])
      websocket_adaptor_init (messages @ (None, received_opcode, []) # ms) =
        ((op, On_result Direct (Inl (Transport_error 1))), s, ms))"
proof -
  let ?c = "parser_class_of is_valid p"
  let ?op = "\<lparr>receive_buffer = [], parser = q\<rparr>"
  from run_over_websocket_feed [OF assms(1,2), of is_valid] assms(3) obtain s rest_messages where
    run: "run_over_websocket ?c (begin_parse_value ?c []) websocket_adaptor_init messages =
      ((?op, Async_read_some 512), s, rest_messages)" by auto
  have "snd (begin_parse_value ?c []) \<noteq> Async_read_some 0"
    by (metis begin_parse_value_def start_reads_512 prod.collapse zero_neq_numeral)
  from run_over_websocket_resumes [OF run this] have s: "pending_octets s = []" "reading s = Some 512"
    and resume: "run_over_websocket ?c (begin_parse_value ?c []) websocket_adaptor_init (messages @ ms) =
      run_over_websocket ?c (?op, Async_read_some 512) s ms" for ms
    by simp_all
  have "start ?c True ?op = (?op, Async_read_some 512)"
    using start_feed [OF no_empty_never_immediate [OF assms(1), of is_valid], where op = ?op
        and seen = "payloads messages" and sure = True] assms(3)
    by (simp add: reached_by_def)
  then have again: "on_read ?c None [] ?op = (?op, Async_read_some 512)"
    by (simp add: on_read_def)
  have wait: "websocket_async_read_some 512 s = (None, s)" "websocket_async_read_some 512 (s\<lparr>reading := None\<rparr>) = (None, s)"
    using s by (cases s; simp add: websocket_async_read_some_empty)+
  have close: "read_operation_complete (None, Op_close, []) s = ((None, []), s\<lparr>reading := None\<rparr>)"
    by (cases s) (simp add: read_operation_complete_def websocket_error_code_def Let_def)
  have other: "read_operation_complete (None, received_opcode, []) s =
      ((Some (Transport_error 1), []), s\<lparr>reading := None\<rparr>)"
    using assms(4) by (cases s) (simp add: read_operation_complete_def websocket_error_code_def Let_def)
  have "run_over_websocket ?c (?op, Async_read_some 512) s ((None, Op_close, []) # ms) =
      run_over_websocket ?c (?op, Async_read_some 512) s ms"
    by (cases ms) (simp_all add: wait close again split: prod.splits)
  moreover have "run_over_websocket ?c (?op, Async_read_some 512) s ((None, received_opcode, []) # ms) =
      ((?op, On_result Direct (Inl (Transport_error 1))), s\<lparr>reading := None\<rparr>, ms)"
    by (simp add: wait other on_read_def)
  ultimately show ?thesis by (simp add: resume)
qed

theorem websocket_close_is_not_an_error_witness:
  "run_over_websocket (parser_class_of (\<lambda>s. True) (P_integer Uint16))
      (begin_parse_value (parser_class_of (\<lambda>s. True) (P_integer Uint16)) []) websocket_adaptor_init
      ([(None, Op_binary, [1])] @ (None, Op_close, []) # [(None, Op_binary, [2])]) =
    run_over_websocket (parser_class_of (\<lambda>s. True) (P_integer Uint16))
      (begin_parse_value (parser_class_of (\<lambda>s. True) (P_integer Uint16)) []) websocket_adaptor_init
      ([(None, Op_binary, [1])] @ [(None, Op_binary, [2])]) \<and>
    (\<exists>op s. run_over_websocket (parser_class_of (\<lambda>s. True) (P_integer Uint16))
      (begin_parse_value (parser_class_of (\<lambda>s. True) (P_integer Uint16)) []) websocket_adaptor_init
      ([(None, Op_binary, [1])] @ (None, Op_ping, []) # [(None, Op_binary, [2])]) =
        ((op, On_result Direct (Inl (Transport_error 1))), s, [(None, Op_binary, [2])]))"
proof (rule websocket_close_is_not_an_error)
  show "no_empty (P_integer Uint16)" by simp
  show "list_all is_data [(None, Op_binary, [1])]" by (simp add: is_data_def)
  let ?c = "parser_class_of (\<lambda>s. True) (P_integer Uint16)"
  have "feed (class_parse ?c) (class_init ?c) (payloads [(None, Op_binary, [1])]) =
      Pending (S_uint16 \<lparr>int_result = 0 OR ucast (1 :: 8 word), bytes_received = 1\<rparr>)"
    by code_simp
  then show "feed (class_parse ?c) (class_init ?c) (payloads [(None, Op_binary, [1])]) =
      Pending (S_uint16 \<lparr>int_result = 0 OR ucast (1 :: 8 word), bytes_received = 1\<rparr>)" .
  show "Op_ping \<notin> {Op_binary, Op_text, Op_close}" by simp
qed

end
