(* ===== verification/Spec2Isabelle.thy ===== *)
theory Spec2Isabelle
  imports Wire_Types Parser_Types Begin_Parse_Value Value_Serialization Buffered_Writer
    Message_Splitter Response_Registry Remote_Calls Call_Completion Client_Progress Cpp_Classes Generator_Programs Js_Client Futures
    Websocket_Stream
begin

text \<open>
  A verification development for warpcoil, a C++14 library and code generator for remote procedure
  calls. A program describes an interface (\<open>types.hpp\<close>: methods with parameters and a result, of
  integer, variant, tuple, vector, string and structure types) and generates from it C++ classes (an
  interface, a type eraser, a client, a server) and JavaScript (a client and a receiver). The
  generated code runs on the templates of the library: it serialises values into the buffer of a
  \<open>buffered_writer\<close>, parses them with parser classes that take one octet at a time, shares one input
  stream between a client and a server with a \<open>message_splitter\<close>, and finds the handler of a
  response in an \<open>expected_response_registry\<close>. The properties are numbered \<open>C1\<close>, \<open>C2\<close>, \<dots> in the
  order of their importance; they stand in this theory and in the theories named below.

  \<^bold>\<open>Theories and sources\<close> (paths below \<open>src/\<close>)

  Shared: \<open>Warpcoil_Prelude\<close> (machine integers, octets, error codes, collections of lemmas),
  \<open>Std_Map\<close> (\<open>std::map\<close> and \<open>std::set\<close> with an order; locales \<open>strict_total_order\<close> and
  \<open>ordered_map\<close>), \<open>Trace_Machine\<close> (machines that react to inputs with events; the locales
  \<open>traced_invariant\<close> and \<open>blamed_failures\<close> lift an invariant, and who is answerable for a failed
  assertion, from a step to a run).

  The data and the wire format:
  \<^item> \<open>Wire_Types\<close>: \<open>warpcoil/types.hpp\<close>, \<open>identifier.hpp\<close>. Types, the order \<open>less\<close>, \<open>clone\<close>,
    interfaces with \<open>add_method\<close>. The order is a strict total order; what declarations declare.
  \<^item> \<open>Parse_Result\<close>: \<open>cpp/parse_result.hpp\<close>, and the contract of a parser class as the locales
    \<open>byte_parser\<close> (it accepts exactly the encodings of its values) and \<open>length_parser\<close>.
  \<^item> \<open>Integer_Parser\<close>, \<open>Utf8_Parser\<close>, \<open>Vector_Parser\<close>, \<open>Tuple_Parser\<close>, \<open>Variant_Parser\<close>: the file of
    the same name in \<open>warpcoil/cpp\<close> (and \<open>write_integer.hpp\<close>, \<open>structure_parser.hpp\<close>). Each has a
    locale that takes the contracts of the parsers inside and gives its own contract.
  \<^item> \<open>Parser_Types\<close>: \<open>generate_parser_type.hpp\<close>, \<open>generate_type.hpp\<close>: the parser and the C++ type of
    a type, by interpretation of these locales (C6, C31).
  \<^item> \<open>Begin_Parse_Value\<close>: \<open>cpp/begin_parse_value.hpp\<close>, the asynchronous loop (C11).
  \<^item> \<open>Value_Serialization\<close>: \<open>generate_value_serialization.hpp\<close>: the generated statements as an
    abstract syntax with a semantics, against a specification of the serialisation (C5, C7).

  The connection:
  \<^item> \<open>Buffered_Writer\<close>: \<open>cpp/buffered_writer.hpp\<close>, with handlers that call the writer again.
  \<^item> \<open>Message_Splitter\<close>: \<open>cpp/message_splitter.hpp\<close>, \<open>protocol.hpp\<close>. Its client is an argument
    \<open>client_code\<close>; the locale \<open>response_client\<close> states what a client that only waits for responses
    keeps to.
  \<^item> \<open>Response_Registry\<close>: \<open>cpp/expected_response_registry.hpp\<close> as a client of the splitter.
  \<^item> \<open>Client_Pipeline\<close>: \<open>cpp/client_pipeline.hpp\<close> and the class that
    \<open>generate_serialization_client.hpp\<close> generates; \<open>Generated_Server\<close>: the class that
    \<open>generate_serialization_server.hpp\<close> generates.
  \<^item> \<open>Message_Grammar\<close> reads what a connection parsed as a sequence of messages; its locale
    \<open>message_client\<close> is interpreted for the client (\<open>Client_Protocol\<close>) and for the server
    (\<open>Server_Protocol\<close>). \<open>Remote_Calls\<close> composes both: the end-to-end properties C1, C2, C14.
    \<open>Call_Completion\<close> shows that no call is lost (C3), \<open>Client_Progress\<close> that a client which
    waits for a response reads (C4).
  \<^item> \<open>Futures\<close>: \<open>future.hpp\<close>, \<open>then.hpp\<close>. \<open>Websocket_Stream\<close>: \<open>beast.hpp\<close>, the stream of octets on top
    of the messages of a web socket, composed with the parse operation.

  The generator's text:
  \<^item> \<open>Cpp_Writer\<close>: \<open>block.hpp\<close>, \<open>comma_separator.hpp\<close>: writers of text to two sinks; the locale
    \<open>appending\<close> gives the rules by which the texts of all generators are computed.
  \<^item> \<open>Cpp_Types\<close> (\<open>generate_type.hpp\<close>, \<open>generate_parser_type.hpp\<close>, \<open>generate_name_for_structure.hpp\<close>,
    \<open>shared_code_generator.hpp\<close>), \<open>Cpp_Statements\<close> (\<open>generate_value_serialization.hpp\<close>; its text is
    that of the statements of \<open>Value_Serialization\<close>), \<open>Cpp_Classes\<close> (\<open>generate_interface.hpp\<close>,
    \<open>generate_parameters.hpp\<close>, \<open>generate_type_eraser.hpp\<close>, \<open>generate_serialization_client.hpp\<close>,
    \<open>generate_serialization_server.hpp\<close>, \<open>generate_serializable_interface.hpp\<close>): what is written, when
    an exception is thrown, that braces match, that structures are written once.
  \<^item> \<open>Generator_Programs\<close>: \<open>update_generated_file.hpp\<close> and the \<open>main\<close> functions that generate code.
  \<^item> \<open>Js_Generator\<close>, \<open>Js_Parser\<close>, \<open>Js_Client\<close>: \<open>javascript.hpp\<close>: the text; what the generated parsers
    do (contract \<open>js_contract\<close>, locale \<open>js_elements\<close>); what the generated serialisation, client and
    receiver do, against the C++ client and server.

  \<^bold>\<open>How the code is modelled\<close>

  Machine integers are words, so that they wrap around where the code's do. A class is a record; a
  \<open>Si::variant\<close> a datatype; \<open>std::unique_ptr\<close> the value it owns; objects shared by
  \<open>std::shared_ptr\<close> are in a heap (\<open>Futures\<close>). A parser that fails, a thrown exception and a failed
  \<open>assert\<close> are values of sums. A handler that is called may call the object again before it returns:
  the writer, the splitter with its clients and the futures keep the calls still to be made as a
  stack of tasks, and an invariant holds between any two calls. A run is a list of inputs: calls,
  completions of the transport, and \<^emph>\<open>one\<close> task of the stack at a time; so no fuel is needed and
  no property assumes that the tasks come to an end. The only loop that need not end is the one that
  makes all calls of the futures (a \<open>partial_function\<close>); C30 proves that it does. All other functions
  terminate by their types' sizes, or by the messages and octets left (\<open>run_over_websocket\<close>).

  \<^bold>\<open>Parameters and hypotheses\<close>

  \<open>is_valid\<close> is \<open>utf8::is_valid\<close> (third-party); \<open>react\<close> says what the user's handlers call,
  \<open>implementation\<close> what the user's implementation of an interface returns. The transport
  (\<open>boost::asio\<close>) and the web socket (\<open>beast\<close>) are the inputs of the machines. The end-to-end
  properties assume of it that what one side has received is a prefix of what the other side has
  sent. The files and processes of \<open>ventura\<close> are a record of functions; \<open>reads_back\<close> is what is assumed of
  them. \<open>no_empty\<close> and \<open>wire_ok\<close> exclude types with an empty tuple inside of another type, for which
  the parser is wrong (\<open>empty_element_swallows_octet\<close>), and variants of more than 256 alternatives;
  \<open>js_readable\<close>, \<open>js_receivable\<close> and the bound \<open>2 ^ 31\<close> are the limits of the JavaScript, each
  of which is proved to be one (C32, C33, C34).

  \<^bold>\<open>Not modelled\<close>

  The tests, the benchmarks, the example programs with sockets and the web site's HTTP server
  (\<open>example_web_site/web_site_server.cpp\<close>): glue over \<open>boost::asio\<close> and \<open>beast\<close>.
  \<open>asio_handler_invoke\<close> and \<open>wrap_handler.hpp\<close> (they select the context in which a function is
  called), the macros of \<open>delegators.hpp\<close>, \<open>make_vector.hpp\<close>. The lifetime of objects: that a buffer
  or a reference outlives an operation is not stated. Threads: the code runs on one.
  The semantics of C++ and JavaScript as languages: the meaning of the generated statements is given
  for the constructs the generator uses.
\<close>

section \<open>Properties of the wire format\<close>

text \<open>The order of types that keys the generator's set of structures (\<open>structure_less\<close>) is a
  strict total order: a structure is found in the set exactly when an equal one was generated.\<close>

theorem less_type_is_strict_total_order: "strict_total_order less_type"
  by (rule type_order.strict_total_order_axioms)

text \<open>A deep copy of a type is equal to the type.\<close>

theorem clone_is_equal: "clone t = t"
  by (rule clone_id)

text \<open>C40: The methods of an interface that was built by any sequence of declarations: declaring a
  method adds it with its parameters in order and leaves the others alone; declaring it a second
  time keeps the first result type and appends the parameters.\<close>

theorem declared_methods:
  "std_map_find k (methods (declare_all (ds @ [(name, result, ps)]))) =
    (if k = name
     then (case std_map_find name (methods (declare_all ds)) of
         None \<Rightarrow> Some \<lparr>method_result = result,
             parameters = map (\<lambda>(n, t). \<lparr>parameter_name = n, parameter_type = t\<rparr>) ps\<rparr>
       | Some m \<Rightarrow> Some (m\<lparr>parameters := parameters m @
             map (\<lambda>(n, t). \<lparr>parameter_name = n, parameter_type = t\<rparr>) ps\<rparr>))
     else std_map_find k (methods (declare_all ds)))"
proof -
  have "declare_all (ds @ [(name, result, ps)]) = declare_method name result ps (declare_all ds)"
    by (simp add: declare_all_def)
  then show ?thesis by (simp add: declare_method_find [OF interface_ok_declare_all])
qed

text \<open>For each of the four unsigned types the integer parser accepts exactly the octets that
  \<open>write_integer\<close> writes, delivers the number, and leaves what follows.\<close>

theorem integer_parser_accepts:
  "((feed integer_parse_byte integer_parser_init bs = Done (v8 :: u8) rest) = (bs = write_integer v8 @ rest)) \<and>
   ((feed integer_parse_byte integer_parser_init bs = Done (v16 :: u16) rest) = (bs = write_integer v16 @ rest)) \<and>
   ((feed integer_parse_byte integer_parser_init bs = Done (v32 :: u32) rest) = (bs = write_integer v32 @ rest)) \<and>
   ((feed integer_parse_byte integer_parser_init bs = Done (v64 :: u64) rest) = (bs = write_integer v64 @ rest))"
  by (simp add: uint8.integer.accepts uint16.integer.accepts uint32.integer.accepts
      uint64.integer.accepts)

text \<open>A caller that stops at the first result never makes the assertion
  \<open>bytes_received < sizeof(result_type)\<close> of the integer parser fail.\<close>

theorem integer_parser_assertion:
  assumes "feed integer_parse_byte (integer_parser_init :: 64 integer_parser) bs = Pending q"
  shows "integer_parser_ready q"
  by (rule uint64.feed_integer_ready [OF _ assms])
    (simp add: integer_parser_ready_def integer_parser_init_def sizeof_def)

theorem integer_parser_assertion_witness:
  "\<exists>q. feed integer_parse_byte (integer_parser_init :: 64 integer_parser) [1, 2, 3, 4, 5, 6, 7] = Pending q \<and>
    integer_parser_ready q"
proof -
  obtain q where q: "feed integer_parse_byte (integer_parser_init :: 64 integer_parser) [1, 2, 3, 4, 5, 6, 7]
      = Pending q"
    by (simp add: integer_parse_byte_def integer_parser_init_def sizeof_def)
  from integer_parser_assertion [OF this] q show ?thesis by blast
qed

text \<open>C6: The parser that the generator composes for a type without empty tuples inside accepts
  exactly the encodings of the values of the type: it delivers a value after precisely the octets
  of its encoding, leaves the rest, and accepts nothing else.\<close>

theorem composed_parser_accepts:
  assumes "no_empty p"
  shows "feed (class_parse (parser_class_of is_valid p)) (class_init (parser_class_of is_valid p)) bs
      = Done v rest \<longleftrightarrow> value_ok is_valid p v \<and> bs = encode p v @ rest"
  by (rule byte_parser.accepts [OF parser_class_contract [OF assms]])

text \<open>A type with every kind of parser inside, and a value of it.\<close>

abbreviation example_type :: wire_type where
  "example_type \<equiv> Tuple [Vector (Integer_range 0 255) (Variant [Integer (Integer_range 1 300), Utf8 (Integer_range 0 255)]),
     Structure [Element (Integer (Integer_range 0 200)) ''id'']]"

abbreviation example_value :: wire_value where
  "example_value \<equiv> V_tuple [V_vector [V_variant 1 (V_string [104, 105]), V_variant 0 (V_uint16 258)],
     V_structure [V_uint8 3]]"

abbreviation example_octets :: bytes where
  "example_octets \<equiv> [2, 1, 2, 104, 105, 0, 1, 2, 3]"

theorem composed_parser_accepts_witness:
  "feed (class_parse (parser_class_of (\<lambda>s. True) (parser_type_of example_type)))
     (class_init (parser_class_of (\<lambda>s. True) (parser_type_of example_type))) (example_octets @ [9])
   = Done example_value [9]"
proof -
  have "no_empty (parser_type_of example_type)" by code_simp
  moreover have "value_ok (\<lambda>s. True) (parser_type_of example_type) example_value" by code_simp
  moreover have "example_octets @ [9] = encode (parser_type_of example_type) example_value @ [9]" by code_simp
  ultimately show ?thesis using composed_parser_accepts by blast
qed

lemma value_ok_has_type: "value_ok is_valid (parser_type_of t) v \<Longrightarrow> has_type t v"
proof (induction t arbitrary: v)
  case (Variant ts)
  then show ?case by (auto simp: variant_valid_def split: wire_value.splits)
next
  case (Tuple ts)
  then show ?case by (auto simp: tuple_valid_def list_all2_conv_all_nth)
next
  case (Vector len t)
  then show ?case by (auto simp: vector_valid_def list_all_iff)
next
  case (Structure es)
  then obtain vs where v: "v = V_structure vs" "length vs = length es"
    and each: "\<And>i. i < length es \<Longrightarrow> value_ok is_valid (parser_type_of (what (es ! i))) (vs ! i)"
    by (cases v) (auto simp: tuple_valid_def list_all2_conv_all_nth structure_element.map_sel)
  have "has_type (what (es ! i)) (vs ! i)" if "i < length es" for i
    using each [OF that] by (intro Structure.IH [OF nth_mem [OF that]]) (simp_all add: structure_element.set_sel)
  with v show ?case by (simp add: list_all2_conv_all_nth structure_element.map_sel)
qed (simp_all add: parser_bits_suitable)

text \<open>C31: The generated parser of a type delivers values of the C++ type that the generator uses for
  the type, whatever octets arrive.\<close>

theorem parsed_value_has_type:
  assumes "wire_ok t"
    and "feed (class_parse (parser_class_of is_valid (parser_type_of t)))
      (class_init (parser_class_of is_valid (parser_type_of t))) bs = Done v rest"
  shows "has_type t v"
  using assms(2) byte_parser.accepts [OF parser_class_contract [OF wire_ok_no_empty [OF assms(1)]]]
  by (blast intro: value_ok_has_type)

theorem parsed_value_has_type_witness: "has_type (Vector (Integer_range 0 255) (Integer (Integer_range 0 255))) (V_vector [V_uint8 5, V_uint8 6])"
proof -
  have "wire_ok (Vector (Integer_range 0 255) (Integer (Integer_range 0 255)))" by code_simp
  moreover have "feed (class_parse (parser_class_of (\<lambda>s. True) (parser_type_of (Vector (Integer_range 0 255) (Integer (Integer_range 0 255))))))
      (class_init (parser_class_of (\<lambda>s. True) (parser_type_of (Vector (Integer_range 0 255) (Integer (Integer_range 0 255)))))) [2, 5, 6, 7] =
    Done (V_vector [V_uint8 5, V_uint8 6]) [7]" by code_simp
  ultimately show ?thesis by (rule parsed_value_has_type)
qed

text \<open>No encoding of a type is a prefix of another: a stream of encodings splits in one way.\<close>

theorem encodings_are_prefix_free:
  assumes "no_empty p" and "value_ok is_valid p v" and "value_ok is_valid p w"
    and "encode p v @ xs = encode p w @ ys"
  shows "v = w \<and> xs = ys"
  by (rule byte_parser.encode_prefix_free [OF parser_class_contract [OF assms(1)] assms(2-4)])

theorem encodings_are_prefix_free_witness:
  "{(v, rest). value_ok (\<lambda>s. True) (P_utf8 Uint8) v \<and> encode (P_utf8 Uint8) v @ rest = [2, 104, 105, 9]} =
   {(V_string [104, 105], [9])}"
proof -
  have ok: "no_empty (P_utf8 Uint8)" "value_ok (\<lambda>s. True) (P_utf8 Uint8) (V_string [104, 105])"
    "encode (P_utf8 Uint8) (V_string [104, 105]) @ [9] = [2, 104, 105, 9]" by code_simp+
  have "v = V_string [104, 105] \<and> rest = [9]"
    if "value_ok (\<lambda>s. True) (P_utf8 Uint8) v" "encode (P_utf8 Uint8) v @ rest = [2, 104, 105, 9]" for v rest
    by (rule encodings_are_prefix_free [OF ok(1) that(1) ok(2)]) (simp only: that(2) ok(3))
  with ok(2,3) show ?thesis by blast
qed

text \<open>C11: How the transport cuts the stream into reads does not matter: for every sequence of reads,
  the parse operation ends exactly as if all octets had been in the buffer at once, with the octets
  after the value still in the buffer or not yet read.\<close>

theorem reads_do_not_matter:
  assumes "no_empty p"
  shows "case feed (class_parse (parser_class_of is_valid p)) (class_init (parser_class_of is_valid p))
      (octets_there @ concat chunks) of
     Done v rest \<Rightarrow> \<exists>op i unread.
       run_reads (parser_class_of is_valid p) (begin_parse_value (parser_class_of is_valid p) octets_there)
         (delivered chunks) = (op, On_result i (Inr v), delivered unread) \<and>
       receive_buffer op @ concat unread = rest
   | Failed \<Rightarrow> \<exists>op i unread.
       run_reads (parser_class_of is_valid p) (begin_parse_value (parser_class_of is_valid p) octets_there)
         (delivered chunks) = (op, On_result i (Inl Invalid_input_error), delivered unread)
   | Pending s \<Rightarrow>
       run_reads (parser_class_of is_valid p) (begin_parse_value (parser_class_of is_valid p) octets_there)
         (delivered chunks) = (\<lparr>receive_buffer = [], parser = s\<rparr>, Async_read_some 512, [])"
  using run_reads_feed [OF no_empty_never_immediate [OF assms, of is_valid], where seen = "[]" and sure = False
      and op = "\<lparr>receive_buffer = octets_there, parser = class_init (parser_class_of is_valid p)\<rparr>"
      and chunks = chunks]
  unfolding begin_parse_value_def by (simp add: reached_by_init)

theorem reads_do_not_matter_witness:
  "\<exists>op i unread.
     run_reads (parser_class_of (\<lambda>s. True) (P_integer Uint16))
       (begin_parse_value (parser_class_of (\<lambda>s. True) (P_integer Uint16)) [])
       (delivered [[1], [2, 3], [4]]) = (op, On_result i (Inr (V_uint16 258)), delivered unread) \<and>
     receive_buffer op @ concat unread = [3, 4]"
proof -
  have "feed (class_parse (parser_class_of (\<lambda>s. True) (P_integer Uint16)))
      (class_init (parser_class_of (\<lambda>s. True) (P_integer Uint16))) ([] @ concat [[1], [2, 3], [4]])
      = Done (V_uint16 258) [3, 4]"
    by code_simp
  with reads_do_not_matter [of "P_integer Uint16" "\<lambda>s. True" "[]" "[[1], [2, 3], [4]]"]
  show ?thesis by (simp del: parser_class_of.simps)
qed

text \<open>C7: The statements that the generator writes for a type do what the specification of the
  serialisation says, for every value of the type: the octets written, and whether they leave
  through the error return.\<close>

theorem generated_statements_serialize:
  assumes "has_type t v" and "eval env e = Some v"
  shows "exec_all is_valid (value_serialization t e) env = serialize is_valid t v"
  using assms by (rule value_serialization_correct)

theorem generated_statements_serialize_witness:
  "exec_all (\<lambda>s. True) (value_serialization example_type (E_var ''x'')) [''x'' \<mapsto> example_value] =
   serialize (\<lambda>s. True) example_type example_value"
proof -
  have "has_type example_type example_value" by code_simp
  from generated_statements_serialize [OF this] show ?thesis by simp
qed

text \<open>C5: Round trip: when the generated statements run to the end, the generated parser of the type,
  fed with what they have written and anything after it in reads of any sizes, delivers the value
  and leaves what comes after it.\<close>

theorem serialized_value_is_parsed:
  assumes "wire_ok t" and "has_type t v" and "env x = Some v"
    and "exec_all is_valid (value_serialization t (E_var x)) env = (w, Completed)"
    and "concat chunks = w @ rest"
  shows "\<exists>op i unread.
    run_reads (parser_class_of is_valid (parser_type_of t))
      (begin_parse_value (parser_class_of is_valid (parser_type_of t)) []) (delivered chunks) =
      (op, On_result i (Inr v), delivered unread) \<and>
    receive_buffer op @ concat unread = rest"
proof -
  let ?p = "parser_type_of t"
  let ?c = "parser_class_of is_valid ?p"
  have "serialize is_valid t v = (w, Completed)"
    using assms(2-4) by (simp flip: value_serialization_correct [of t v env "E_var x" is_valid])
  with assms(1,2) have "value_ok is_valid ?p v \<and> w = encode ?p v" by (rule serialize_encodes)
  then have "feed (class_parse ?c) (class_init ?c) ([] @ concat chunks) = Done v rest"
    using byte_parser.accepts_encode [OF parser_class_contract [OF wire_ok_no_empty [OF assms(1)]]] assms(5)
    by simp
  with run_reads_feed [OF no_empty_never_immediate [OF wire_ok_no_empty [OF assms(1)], of is_valid], where seen = "[]"
      and sure = False and op = "\<lparr>receive_buffer = [], parser = class_init ?c\<rparr>" and chunks = chunks]
  show ?thesis by (simp add: reached_by_init begin_parse_value_def)
qed

theorem serialized_value_is_parsed_witness:
  "\<exists>op i unread.
    run_reads (parser_class_of (\<lambda>s. True) (parser_type_of example_type))
      (begin_parse_value (parser_class_of (\<lambda>s. True) (parser_type_of example_type)) [])
      (delivered [take 3 example_octets, drop 3 example_octets @ [9], [8]]) =
      (op, On_result i (Inr example_value), delivered unread) \<and>
    receive_buffer op @ concat unread = [9, 8]"
proof -
  have ok: "wire_ok example_type" "has_type example_type example_value" by code_simp+
  have out: "serialize (\<lambda>s. True) example_type example_value = (example_octets, Completed)" by code_simp
  have run: "exec_all (\<lambda>s. True) (value_serialization example_type (E_var ''x'')) [''x'' \<mapsto> example_value] =
      (example_octets, Completed)"
    using value_serialization_correct [OF ok(2), of "[''x'' \<mapsto> example_value]" "E_var ''x''" "\<lambda>s. True"] out
    by (simp only: eval.simps fun_upd_same)
  have chunks: "concat [take 3 example_octets, drop 3 example_octets @ [9], [8]] = example_octets @ [9, 8]"
    by simp
  have "[''x'' \<mapsto> example_value] ''x'' = Some example_value" by simp
  from serialized_value_is_parsed [OF ok this run chunks] show ?thesis .
qed

text \<open>An empty tuple before another element swallows an octet: \<open>go_to_next_state\<close> ignores the
  \<open>input_consumption\<close> of all elements but the last, so the octet that completes the empty tuple
  is reported as consumed, and the parser does not accept what the serialisation of the type writes.\<close>

theorem empty_element_swallows_octet:
  "serialize (\<lambda>s. True) (Tuple [Tuple [], Integer (Integer_range 0 255)]) (V_tuple [V_tuple [], V_uint8 2]) =
     ([2], Completed) \<and>
   feed (class_parse (parser_class_of (\<lambda>s. True) (parser_type_of (Tuple [Tuple [], Integer (Integer_range 0 255)]))))
     (class_init (parser_class_of (\<lambda>s. True) (parser_type_of (Tuple [Tuple [], Integer (Integer_range 0 255)])))) [1, 2] =
     Done (V_tuple [V_tuple [], V_uint8 2]) []"
  by code_simp

end
